(* ===== verification/Prelude.thy ===== *)
theory Prelude
  imports Main "HOL-Library.Signed_Division"
begin

text \<open>
  Shared vocabulary of the development: C runs that may stop with a fault, bounds-checked
  array accesses, \<open>for\<close> loops with and without \<open>break\<close>, the total-correctness predicate
  \<open>okR\<close> with its rules, C strings in fixed buffers, and the list lemmas the components share.
  A result \<open>Inl e\<close> is a run that ends in the fault \<open>e\<close>; \<open>Inr x\<close> is a run that returns \<open>x\<close>.
  \<open>okR r P\<close> says that \<open>r\<close> returns and that the returned value satisfies \<open>P\<close>, so a theorem of
  the form \<open>okR (f s) P\<close> excludes every fault.
\<close>

named_theorems ok_rules \<open>introduction rules for total correctness of runs\<close>

subsection \<open>Faults and results\<close>

datatype fault =
    Assert_Failed    \<comment> \<open>the program's own ASSERT, which calls exit(1)\<close>
  | Out_Of_Bounds    \<comment> \<open>an access outside the array\<close>
  | Null_Deref       \<comment> \<open>a NULL pointer is followed\<close>
  | Div_By_Zero      \<comment> \<open>division or remainder by zero\<close>
  | No_Return        \<comment> \<open>a loop that never ends\<close>
  | Exit_Failure     \<comment> \<open>exit(EXIT_FAILURE)\<close>

type_synonym 'a res = "fault + 'a"

definition bindR :: "'a res \<Rightarrow> ('a \<Rightarrow> 'b res) \<Rightarrow> 'b res" where
  "bindR r f = (case r of Inl e \<Rightarrow> Inl e | Inr x \<Rightarrow> f x)"

lemma bindR_simps [simp]:
  "bindR (Inl e) f = Inl e"
  "bindR (Inr x) f = f x"
  by (simp_all add: bindR_def)

lemma bindR_assoc: "bindR (bindR r f) g = bindR r (\<lambda>x. bindR (f x) g)"
  by (cases r) simp_all

lemma bindR_cong [fundef_cong]:
  "r = r' \<Longrightarrow> (\<And>x. r' = Inr x \<Longrightarrow> f x = f' x) \<Longrightarrow> bindR r f = bindR r' f'"
  by (cases r') simp_all

lemma bindR_eq_Inr: "bindR r f = Inr y \<longleftrightarrow> (\<exists>x. r = Inr x \<and> f x = Inr y)"
  by (cases r) simp_all

definition assertR :: "fault \<Rightarrow> bool \<Rightarrow> unit res" where
  "assertR e b = (if b then Inr () else Inl e)"

lemma assertR_simps [simp]:
  "assertR e True = Inr ()"
  "assertR e False = Inl e"
  by (simp_all add: assertR_def)

subsection \<open>Total correctness\<close>

definition okR :: "'a res \<Rightarrow> ('a \<Rightarrow> bool) \<Rightarrow> bool" where
  "okR r P = (case r of Inl e \<Rightarrow> False | Inr x \<Rightarrow> P x)"

lemma okR_simps [simp]:
  "okR (Inl e) P = False"
  "okR (Inr x) P = P x"
  by (simp_all add: okR_def)

lemma okR_iff: "okR r P \<longleftrightarrow> (\<exists>x. r = Inr x \<and> P x)"
  by (cases r) simp_all

lemma okR_bind [simp]: "okR (bindR r f) P \<longleftrightarrow> okR r (\<lambda>x. okR (f x) P)"
  by (cases r) simp_all

lemma okR_assert [simp]: "okR (assertR e b) P \<longleftrightarrow> b \<and> P ()"
  by (simp add: assertR_def)

lemma okR_if [simp]: "okR (if b then r else r') P \<longleftrightarrow> (if b then okR r P else okR r' P)"
  by simp

lemma okR_mono: "okR r P \<Longrightarrow> (\<And>x. P x \<Longrightarrow> Q x) \<Longrightarrow> okR r Q"
  by (cases r) simp_all

lemma okR_conj: "okR r (\<lambda>x. P x \<and> Q x) \<longleftrightarrow> okR r P \<and> okR r Q"
  by (cases r) simp_all

lemma okR_bindI [ok_rules]: "okR r P \<Longrightarrow> (\<And>x. P x \<Longrightarrow> okR (f x) Q) \<Longrightarrow> okR (bindR r f) Q"
  by (cases r) simp_all

lemma okR_let [simp]: "okR (let x = t in r x) P \<longleftrightarrow> (let x = t in okR (r x) P)"
  by (simp add: Let_def)

subsection \<open>Bounds-checked arrays\<close>

definition idx :: "'a list \<Rightarrow> int \<Rightarrow> 'a res" where
  "idx xs i = (if 0 \<le> i \<and> i < int (length xs) then Inr (xs ! nat i) else Inl Out_Of_Bounds)"

definition store :: "'a list \<Rightarrow> int \<Rightarrow> 'a \<Rightarrow> 'a list res" where
  "store xs i v = (if 0 \<le> i \<and> i < int (length xs) then Inr (xs[nat i := v]) else Inl Out_Of_Bounds)"

lemma idx_in [simp]: "0 \<le> i \<Longrightarrow> i < int (length xs) \<Longrightarrow> idx xs i = Inr (xs ! nat i)"
  by (simp add: idx_def)

lemma idx_out: "i < 0 \<or> int (length xs) \<le> i \<Longrightarrow> idx xs i = Inl Out_Of_Bounds"
  by (auto simp: idx_def)

lemma store_in [simp]: "0 \<le> i \<Longrightarrow> i < int (length xs) \<Longrightarrow> store xs i v = Inr (xs[nat i := v])"
  by (simp add: store_def)

lemma okR_idx: "okR (idx xs i) P \<longleftrightarrow> 0 \<le> i \<and> i < int (length xs) \<and> P (xs ! nat i)"
  by (auto simp: idx_def)

lemma okR_store:
  "okR (store xs i v) P \<longleftrightarrow> 0 \<le> i \<and> i < int (length xs) \<and> P (xs[nat i := v])"
  by (auto simp: store_def)

subsection \<open>Loops\<close>

text \<open>\<open>foldR f xs s\<close> is \<open>for (x in xs) s = f(x, s)\<close>; it stops at the first fault.\<close>

fun foldR :: "('x \<Rightarrow> 's \<Rightarrow> 's res) \<Rightarrow> 'x list \<Rightarrow> 's \<Rightarrow> 's res" where
  "foldR f [] s = Inr s"
| "foldR f (x # xs) s = bindR (f x s) (foldR f xs)"

text \<open>\<open>loopR\<close> is the same loop with a body that may \<open>break\<close>.\<close>

datatype 's flow = Next 's | Break 's

fun loopR :: "('x \<Rightarrow> 's \<Rightarrow> 's flow res) \<Rightarrow> 'x list \<Rightarrow> 's \<Rightarrow> 's res" where
  "loopR f [] s = Inr s"
| "loopR f (x # xs) s =
     bindR (f x s) (\<lambda>r. case r of Next s' \<Rightarrow> loopR f xs s' | Break s' \<Rightarrow> Inr s')"

fun flow_state :: "'s flow \<Rightarrow> 's" where
  "flow_state (Next s) = s"
| "flow_state (Break s) = s"

lemma foldR_append: "foldR f (xs @ ys) s = bindR (foldR f xs s) (foldR f ys)"
proof (induction xs arbitrary: s)
  case Nil
  then show ?case by simp
next
  case (Cons x xs)
  then show ?case by (cases "f x s") simp_all
qed

lemma okR_foldR [ok_rules]:
  assumes "\<And>x s. x \<in> set xs \<Longrightarrow> I s \<Longrightarrow> okR (f x s) I" and "I s"
  shows "okR (foldR f xs s) I"
  using assms
proof (induction xs arbitrary: s)
  case Nil
  then show ?case by simp
next
  case (Cons x xs)
  have "okR (f x s) I" using Cons.prems by simp
  then show ?case
    using Cons.IH Cons.prems(1) by (auto elim!: okR_mono)
qed

text \<open>The same rule with an invariant that knows which elements are done.\<close>

lemma okR_foldR_upt:
  assumes "m \<le> n"
    and "\<And>i s. m \<le> i \<Longrightarrow> i < n \<Longrightarrow> I i s \<Longrightarrow> okR (f i s) (I (Suc i))" and "I m s"
  shows "okR (foldR f [m..<n] s) (I n)"
  using assms
proof (induction n rule: dec_induct)
  case base
  then show ?case by simp
next
  case (step k)
  then have "okR (foldR f [m..<k] s) (I k)" by simp
  then show ?case
    using step by (auto simp: foldR_append bindR_assoc elim!: okR_mono)
qed

lemma okR_loopR [ok_rules]:
  assumes "\<And>x s. x \<in> set xs \<Longrightarrow> I s \<Longrightarrow> okR (f x s) (\<lambda>r. I (flow_state r))" and "I s"
  shows "okR (loopR f xs s) I"
  using assms
proof (induction xs arbitrary: s)
  case Nil
  then show ?case by simp
next
  case (Cons x xs)
  have "okR (f x s) (\<lambda>r. I (flow_state r))" using Cons.prems by simp
  then show ?case
    using Cons.IH Cons.prems(1) by (auto elim!: okR_mono split: flow.splits)
qed

subsection \<open>C scalars\<close>

text \<open>C's logical negation on an integer.\<close>

definition c_not :: "int \<Rightarrow> int" where
  "c_not b = (if b = 0 then 1 else 0)"

lemma c_not_simps [simp]: "c_not 0 = 1" "c_not 1 = 0"
  by (simp_all add: c_not_def)

lemma c_not_bit: "c_not b \<in> {0, 1}"
  by (simp add: c_not_def)

lemma c_not_c_not: "b \<in> {0, 1} \<Longrightarrow> c_not (c_not b) = b"
  by (auto simp: c_not_def)

text \<open>The conversion to a 32-bit \<open>int\<close>, which wraps.\<close>

definition c_int :: "int \<Rightarrow> int" where
  "c_int v = (v + 2 ^ 31) mod 2 ^ 32 - 2 ^ 31"

lemma c_int_id: "- (2 ^ 31) \<le> v \<Longrightarrow> v < 2 ^ 31 \<Longrightarrow> c_int v = v"
  by (simp add: c_int_def)

lemma c_int_range: "- (2 ^ 31) \<le> c_int v \<and> c_int v < 2 ^ 31"
proof -
  have "0 \<le> (v + 2 ^ 31) mod 2 ^ 32" "(v + 2 ^ 31) mod 2 ^ 32 < (2::int) ^ 32" by simp_all
  then show ?thesis unfolding c_int_def by simp
qed

text \<open>C's \<open>/\<close> and \<open>%\<close> truncate towards zero; on the non-negative values they are \<open>div\<close> and \<open>mod\<close>.\<close>

lemma sdiv_nonneg: "0 \<le> a \<Longrightarrow> 0 < b \<Longrightarrow> a sdiv b = a div (b::int)"
  by (cases "a = 0") (auto simp: signed_divide_int_def)

lemma smod_nonneg: "0 \<le> a \<Longrightarrow> 0 < b \<Longrightarrow> a smod b = a mod (b::int)"
  by (cases "a = 0") (auto simp: signed_modulo_int_def)

subsection \<open>Lists\<close>

lemma sum_list_map_update:
  fixes f :: "'a \<Rightarrow> int"
  assumes "i < length xs"
  shows "sum_list (map f (xs[i := x])) = sum_list (map f xs) - f (xs ! i) + f x"
  using assms
proof (induction xs arbitrary: i)
  case Nil
  then show ?case by simp
next
  case (Cons y ys)
  then show ?case by (cases i) auto
qed

lemma list_all_update: "list_all P xs \<Longrightarrow> P x \<Longrightarrow> list_all P (xs[i := x])"
  by (auto simp: list_all_iff dest!: set_update_subset_insert [THEN subsetD])

lemma nth_update_if: "xs[i := x] ! j = (if i = j \<and> j < length xs then x else xs ! j)"
  by (cases "i = j") (auto simp: list_update_beyond not_less)

lemma list_all_replicate [simp]: "list_all P (replicate n x) \<longleftrightarrow> n = 0 \<or> P x"
  by (auto simp: list_all_iff)

lemma list_all_nth: "list_all P xs \<Longrightarrow> i < length xs \<Longrightarrow> P (xs ! i)"
  by (simp add: list_all_length)

lemma all_below_nat: "(\<forall>i < nat n. P i) \<longleftrightarrow> (\<forall>i. 0 \<le> i \<and> i < n \<longrightarrow> P (nat i))"
proof
  assume "\<forall>i < nat n. P i"
  then show "\<forall>i. 0 \<le> i \<and> i < n \<longrightarrow> P (nat i)" by simp
next
  assume *: "\<forall>i. 0 \<le> i \<and> i < n \<longrightarrow> P (nat i)"
  show "\<forall>i < nat n. P i"
  proof (intro allI impI)
    fix i assume "i < nat n"
    then show "P i" using * [rule_format, of "int i"] by simp
  qed
qed

subsection \<open>C strings in buffers\<close>

abbreviation NUL :: char where
  "NUL \<equiv> CHR 0x00"

text \<open>The string a buffer holds: the bytes before the first NUL.\<close>

definition cstr :: "string \<Rightarrow> string" where
  "cstr buf = takeWhile (\<lambda>c. c \<noteq> NUL) buf"

definition c_strlen :: "string \<Rightarrow> nat" where
  "c_strlen buf = length (cstr buf)"

text \<open>\<open>strncpy(dst, src, n)\<close>: the string of \<open>src\<close>, cut at \<open>n\<close> bytes and padded with NULs to
  \<open>n\<close> bytes; the rest of \<open>dst\<close> stays.\<close>

definition c_strncpy :: "string \<Rightarrow> string \<Rightarrow> nat \<Rightarrow> string res" where
  "c_strncpy dst src n =
     (if n \<le> length dst then Inr (take n (cstr src @ replicate n NUL) @ drop n dst)
      else Inl Out_Of_Bounds)"

lemma cstr_no_NUL: "NUL \<notin> set (cstr buf)"
  by (auto simp: cstr_def dest: set_takeWhileD)

lemma cstr_id: "NUL \<notin> set s \<Longrightarrow> cstr s = s"
  unfolding cstr_def by (subst takeWhile_eq_all_conv) auto

lemma cstr_append_NUL: "NUL \<notin> set s \<Longrightarrow> cstr (s @ NUL # rest) = s"
  unfolding cstr_def by (subst takeWhile_append2) auto

lemma cstr_cstr [simp]: "cstr (cstr s) = cstr s"
  by (rule cstr_id) (rule cstr_no_NUL)

lemma c_strncpy_length: "c_strncpy dst src n = Inr d \<Longrightarrow> length d = length dst"
  by (auto simp: c_strncpy_def split: if_splits)

text \<open>A string shorter than the copied range survives the copy.\<close>

lemma cstr_strncpy:
  assumes "c_strncpy dst src n = Inr d" and "length (cstr src) < n"
  shows "cstr d = cstr src"
proof -
  from assms have "d = cstr src @ NUL # (replicate (n - length (cstr src) - 1) NUL @ drop n dst)"
    by (auto simp: c_strncpy_def replicate_Suc [symmetric] Suc_diff_Suc split: if_splits
        simp del: replicate_Suc)
  then show ?thesis
    by (simp add: cstr_append_NUL cstr_no_NUL)
qed

text \<open>\<open>fgets(buffer, n, file)\<close> on what is left of the file: a line with its newline, or its first
  \<open>n - 1\<close> bytes; None at the end of the file.\<close>

abbreviation (input) newline :: char where
  "newline \<equiv> CHR 0x0A"

definition fgets :: "nat \<Rightarrow> string \<Rightarrow> (string \<times> string) option" where
  "fgets n s =
     (if s = [] then None
      else
        let line = takeWhile (\<lambda>c. c \<noteq> newline) s @ (if newline \<in> set s then [newline] else []);
            buffer = take (n - 1) line in
        Some (buffer, drop (length buffer) s))"

lemma fgets_shorter:
  assumes "fgets n s = Some (line, rest)" and "2 \<le> n"
  shows "length rest < length s \<and> length line < n"
proof -
  let ?l = "takeWhile (\<lambda>c. c \<noteq> newline) s @ (if newline \<in> set s then [newline] else [])"
  have "fgets n s = (if s = [] then None else Some (take (n - 1) ?l, drop (length (take (n - 1) ?l)) s))"
    by (simp only: fgets_def Let_def)
  then have "Some (line, rest) = Some (take (n - 1) ?l, drop (length (take (n - 1) ?l)) s) \<and> s \<noteq> []"
    using assms(1) by (metis option.distinct(1))
  then have "s \<noteq> []" "line = take (n - 1) ?l" "rest = drop (length line) s" by blast+
  moreover from this have "?l \<noteq> []" by (cases s) auto
  ultimately show ?thesis using assms(2) by auto
qed

end
