(* ===== verification/Rand48.thy ===== *)
theory Rand48
  imports Prelude Complex_Main
begin

text \<open>
  The pseudo-random numbers of \<open>assignments/pa7/simulator.c\<close>: the C library's 48-bit generator
  (\<open>srand48\<close>, \<open>drand48\<close>, \<open>lrand48\<close>, documented by POSIX as one linear congruential step modulo
  \<open>2 ^ 48\<close>) and the program's own \<open>binary\<close>. The state is kept as a \<open>nat\<close> with the reduction
  written out. The main result is that the generator has full period, so a probability strictly
  between 0 and 1 eventually yields both decisions from every seed.
\<close>

type_synonym rand48 = nat

definition lcg_modulus :: nat where
  "lcg_modulus = 2 ^ 48"

definition lcg :: "rand48 \<Rightarrow> rand48" where
  "lcg x = (25214903917 * x + 11) mod lcg_modulus"

definition srand48 :: "int \<Rightarrow> rand48" where
  "srand48 seed = nat (seed mod 2 ^ 32) * 2 ^ 16 + 13070"

text \<open>\<open>drand48() < prob\<close>: the state read as a fraction of \<open>2 ^ 48\<close>.\<close>

definition drand48_less :: "rand48 \<Rightarrow> rat \<Rightarrow> bool" where
  "drand48_less x p \<longleftrightarrow> of_nat x < p * 281474976710656"

text \<open>\<open>lrand48()\<close>: the high 31 bits of the state.\<close>

definition lrand48 :: "rand48 \<Rightarrow> int" where
  "lrand48 x = int (x div 2 ^ 17)"

definition binary :: "rat \<Rightarrow> rand48 \<Rightarrow> int \<times> rand48" where
  "binary p x = (let x' = lcg x in (if drand48_less x' p then 1 else 0, x'))"

lemma binary_simps [simp]:
  "snd (binary p x) = lcg x"
  "fst (binary p x) = (if drand48_less (lcg x) p then 1 else 0)"
  by (simp_all add: binary_def Let_def)

lemma binary_bit: "fst (binary p x) \<in> {0, 1}"
  by simp

lemma lcg_less: "lcg x < lcg_modulus"
  by (simp add: lcg_def lcg_modulus_def)

lemma lrand48_nonneg: "0 \<le> lrand48 x"
  by (simp add: lrand48_def)

text \<open>The list of the next \<open>n\<close> decisions.\<close>

fun draws :: "rat \<Rightarrow> nat \<Rightarrow> rand48 \<Rightarrow> int list" where
  "draws p 0 x = []"
| "draws p (Suc n) x = fst (binary p x) # draws p n (snd (binary p x))"

lemma length_draws [simp]: "length (draws p n x) = n"
  by (induction n arbitrary: x) simp_all

lemma draws_Suc: "draws p (Suc n) x = draws p n x @ [fst (binary p ((lcg ^^ n) x))]"
  by (induction n arbitrary: x) (simp_all add: funpow_swap1)

subsection \<open>The generator has full period\<close>

text \<open>The closed form of \<open>n\<close> steps uses \<open>geo a n = 1 + a + \<dots> + a ^ (n - 1)\<close>.\<close>

fun geo :: "int \<Rightarrow> nat \<Rightarrow> int" where
  "geo a 0 = 0"
| "geo a (Suc n) = geo a n + a ^ n"

lemma geo_closed: "(a - 1) * geo a n = a ^ n - 1"
  by (induction n) (simp_all add: algebra_simps)

lemma geo_add: "geo a (m + k) = geo a m + a ^ m * geo a k"
  by (induction k) (simp_all add: algebra_simps power_add)

lemma geo_double: "geo a (2 * n) = geo a n * (1 + a ^ n)"
  using geo_add [of a n n] unfolding mult_2 by (simp add: algebra_simps)

lemma odd_geo: "odd a \<Longrightarrow> odd (geo a n) \<longleftrightarrow> odd n"
  by (induction n) simp_all

lemma power_mod_4: "a mod 4 = 1 \<Longrightarrow> a ^ n mod 4 = (1::int)"
  using power_mod [of a 4 n] by simp

lemma power_two_dvd_geo:
  assumes "a mod 4 = (1::int)"
  shows "2 ^ k dvd geo a n \<Longrightarrow> 2 ^ k dvd n"
proof (induction k arbitrary: n)
  case 0
  then show ?case by simp
next
  case (Suc k)
  have "odd a" using assms by presburger
  have "even (geo a n)" using Suc.prems by (metis dvd_mult_left power_Suc)
  then obtain m where m: "n = 2 * m"
    using odd_geo [OF \<open>odd a\<close>] by blast
  define w where "w = 2 * (a ^ m div 4) + 1"
  have "1 + a ^ m = 2 * w"
    unfolding w_def using power_mod_4 [OF assms, of m] by presburger
  then have "2 * 2 ^ k dvd 2 * (geo a m * w)"
    using Suc.prems unfolding m geo_double by (simp add: ac_simps)
  then have "2 ^ k dvd geo a m * w" by simp
  moreover have "coprime (2 ^ k) w" by (simp add: w_def)
  ultimately have "2 ^ k dvd geo a m" by (simp add: coprime_dvd_mult_left_iff)
  then show ?case using Suc.IH [of m] by (simp add: m)
qed

text \<open>The generator over the integers, and its distance after \<open>n\<close> steps.\<close>

lemma int_lcg: "int (lcg x) = (25214903917 * int x + 11) mod 2 ^ 48"
  by (simp add: lcg_def lcg_modulus_def zmod_int)

lemma affine_mod: "(a * (z mod m) + c) mod m = (a * z + c) mod (m::int)"
  using mod_mult_right_eq [of a z m] by (metis mod_add_left_eq)

lemma lcg_iterate:
  "int ((lcg ^^ n) x) mod 2 ^ 48
   = (int x + geo 25214903917 n * (25214903916 * int x + 11)) mod 2 ^ 48"
proof (induction n)
  case 0
  then show ?case by simp
next
  case (Suc n)
  let ?a = "25214903917 :: int"
  let ?g = "geo ?a n"
  have p: "?a ^ n = 25214903916 * ?g + 1" using geo_closed [of ?a n] by simp
  have "int ((lcg ^^ Suc n) x) mod 2 ^ 48
      = (?a * (int ((lcg ^^ n) x) mod 2 ^ 48) + 11) mod 2 ^ 48"
    by (simp add: int_lcg affine_mod)
  also have "\<dots> = (?a * (int x + ?g * (25214903916 * int x + 11)) + 11) mod 2 ^ 48"
    unfolding Suc.IH by (rule affine_mod)
  also have "?a * (int x + ?g * (25214903916 * int x + 11)) + 11
      = int x + (?g + ?a ^ n) * (25214903916 * int x + 11)"
    unfolding p by (simp add: algebra_simps)
  finally show ?case by simp
qed

lemma lcg_iterate_less: "x < lcg_modulus \<Longrightarrow> (lcg ^^ n) x < lcg_modulus"
  by (cases n) (simp_all add: lcg_less)

lemma lcg_cycle_dvd:
  assumes "(lcg ^^ n) x = x"
  shows "2 ^ 48 dvd n"
proof -
  let ?w = "25214903916 * int x + 11"
  have "(int x + geo 25214903917 n * ?w) mod 2 ^ 48 = int x mod 2 ^ 48"
    using lcg_iterate [of n x] assms by simp
  then have "2 ^ 48 dvd geo 25214903917 n * ?w"
    by (simp add: mod_eq_dvd_iff)
  moreover have "odd ?w" by simp
  then have "coprime (2 ^ 48) ?w"
    by (simp only: coprime_power_left_iff coprime_left_2_iff_odd simp_thms)
  ultimately have "2 ^ 48 dvd geo 25214903917 n" by (simp only: coprime_dvd_mult_left_iff)
  then show ?thesis by (intro power_two_dvd_geo [of 25214903917]) simp_all
qed

text \<open>A full period: from every state below the modulus, every such state is reached.\<close>

lemma lcg_inj_on:
  assumes "x < lcg_modulus"
  shows "inj_on (\<lambda>n. (lcg ^^ n) x) {..<lcg_modulus}"
proof -
  have *: "m = n" if "m \<le> n" "n < lcg_modulus" "(lcg ^^ m) x = (lcg ^^ n) x" for m n
  proof -
    let ?y = "(lcg ^^ m) x"
    have "(lcg ^^ (n - m)) ?y = (lcg ^^ n) x"
      using that(1) by (metis funpow_add comp_apply le_add_diff_inverse2)
    then have "(lcg ^^ (n - m)) ?y = ?y" using that(3) by simp
    then have "2 ^ 48 dvd n - m" by (rule lcg_cycle_dvd)
    moreover have "n - m < 2 ^ 48" using that(2) by (simp add: lcg_modulus_def)
    ultimately show "m = n" using that(1) by (auto dest: dvd_imp_le)
  qed
  show ?thesis
  proof (rule inj_onI)
    fix m n assume mn: "m \<in> {..<lcg_modulus}" "n \<in> {..<lcg_modulus}"
      and eq: "(lcg ^^ m) x = (lcg ^^ n) x"
    show "m = n"
    proof (cases "m \<le> n")
      case True
      then show ?thesis using * [of m n] mn eq by simp
    next
      case False
      then show ?thesis using * [of n m] mn eq by simp
    qed
  qed
qed

lemma lcg_full_period:
  assumes "x < lcg_modulus" and "y < lcg_modulus"
  shows "\<exists>n < lcg_modulus. (lcg ^^ n) x = y"
proof -
  let ?f = "\<lambda>n. (lcg ^^ n) x"
  have "?f ` {..<lcg_modulus} \<subseteq> {..<lcg_modulus}"
    using lcg_iterate_less [OF assms(1)] by blast
  moreover have "card (?f ` {..<lcg_modulus}) = card {..<lcg_modulus}"
    using lcg_inj_on [OF assms(1)] by (rule card_image)
  ultimately have "?f ` {..<lcg_modulus} = {..<lcg_modulus}"
    by (intro card_subset_eq) simp_all
  then have "y \<in> ?f ` {..<lcg_modulus}" using assms(2) by (simp del: image_iff)
  then show ?thesis by blast
qed

text \<open>Hence, for a probability that the 48-bit fraction can fall on either side of, both
  decisions come up after every state.\<close>

definition fair :: "rat \<Rightarrow> bool" where
  "fair p \<longleftrightarrow> 0 < p \<and> p * 281474976710656 \<le> 281474976710655"

lemma lcg_reaches_Suc:
  assumes "y < lcg_modulus"
  shows "\<exists>n. (lcg ^^ Suc n) x = y"
proof -
  obtain n where "(lcg ^^ n) (lcg x) = y"
    using lcg_full_period [OF lcg_less assms] by blast
  then show ?thesis by (auto simp: funpow_swap1 intro!: exI [of _ n])
qed

lemma fair_both:
  assumes "fair p" and "v \<in> {0, 1}"
  shows "\<exists>n. fst (binary p ((lcg ^^ n) x)) = v"
proof -
  have small: "drand48_less 0 p" and large: "\<not> drand48_less 281474976710655 p"
    using assms(1) by (simp_all add: fair_def drand48_less_def)
  let ?y = "if v = 1 then 0 else 281474976710655 :: nat"
  have "?y < lcg_modulus" by (simp add: lcg_modulus_def)
  then obtain n where "(lcg ^^ Suc n) x = ?y" using lcg_reaches_Suc by blast
  then have "fst (binary p ((lcg ^^ n) x)) = v"
    using small large assms(2) by (auto split: if_splits)
  then show ?thesis ..
qed

end
