(* ===== verification/Branching.thy ===== *)
theory Branching
  imports Rand48
begin

text \<open>
  The branching engine of \<open>assignments/pa7/simulator.c\<close>: \<open>Branch\<close> and \<open>Bcontext\<close> of
  \<open>simulator.h\<close>, and \<open>bcontext_clear\<close>, \<open>bcontext_init\<close>, \<open>bcontext_decide\<close>. A context holds the
  lengths of the runs of equal decisions in \<open>brings\<close>. The lemmas relate the decisions it gives
  to the run lengths, and for an \<open>IF\<close> branch to the random draws the run lengths were made from.
\<close>

abbreviation (input) MAXBRINGS :: nat where
  "MAXBRINGS \<equiv> 100"

abbreviation (input) MAXBRANCHES :: nat where
  "MAXBRANCHES \<equiv> 40"

subsection \<open>Data\<close>

datatype btype = GOTO | FOR | NFOR | IF

record branch =
  b_wherefrom :: int
  b_whereto :: int
  b_btype :: btype
  b_min :: int
  b_max :: int
  b_prob :: rat
  b_extent :: int

record bcontext =
  c_btype :: btype
  c_boffset :: int
  c_bsize :: int
  c_bvalue :: int
  c_bcount :: int
  c_brings :: "int list"

definition bcontext_clear :: "bcontext \<Rightarrow> bcontext" where
  "bcontext_clear c = c\<lparr>c_bcount := 0, c_boffset := 0, c_bsize := 1, c_bvalue := 1,
     c_brings := 1 # replicate (MAXBRINGS - 1) 0\<rparr>"

subsection \<open>Initialising a context\<close>

text \<open>The value drawn for one loop of a \<open>FOR\<close> or \<open>NFOR\<close> branch.\<close>

definition draw_trip :: "branch \<Rightarrow> rand48 \<Rightarrow> int \<times> rand48" where
  "draw_trip b x =
     (if b_max b > b_min b
      then (lrand48 (lcg x) smod (b_max b - b_min b) + b_min b, lcg x)
      else (b_min b, x))"

text \<open>The \<open>while (c->bsize < MAXBRINGS)\<close> loop of the \<open>FOR\<close> and \<open>NFOR\<close> cases; two slots a turn.\<close>

function for_fill :: "branch \<Rightarrow> nat \<Rightarrow> int list \<Rightarrow> rand48 \<Rightarrow> nat \<times> int list \<times> rand48" where
  "for_fill b k bs x =
     (if k < MAXBRINGS
      then let (m, x') = draw_trip b x in for_fill b (k + 2) (bs[k := m, Suc k := 1]) x'
      else (k, bs, x))"
  by pat_completeness auto
termination
  by (relation "measure (\<lambda>(b, k, bs, x). MAXBRINGS - k)") auto

declare for_fill.simps [simp del]

text \<open>The \<open>while\<close> loop of the \<open>IF\<close> case. It ends when \<open>bsize\<close> has reached \<open>MAXBRINGS\<close>, and the
  store \<open>c->brings[c->bsize] = 1\<close> that precedes the last test of the loop then goes to slot
  \<open>MAXBRINGS\<close>, one past the array; the Boolean says whether that store was made.\<close>

partial_function (option) if_fill ::
  "rat \<Rightarrow> int \<Rightarrow> nat \<Rightarrow> int list \<Rightarrow> bool \<Rightarrow> rand48 \<Rightarrow> (nat \<times> int list \<times> bool \<times> rand48) option" where
  "if_fill p cvalue k bs spill x =
     (if k < MAXBRINGS then
        (if fst (binary p x) = cvalue
         then if_fill p cvalue k (bs[k := bs ! k + 1]) spill (snd (binary p x))
         else if_fill p (c_not cvalue) (Suc k) (bs[Suc k := 1])
                (spill \<or> Suc k = MAXBRINGS) (snd (binary p x)))
      else Some (k, bs, spill, x))"

text \<open>
  \<open>bcontext_init\<close> on \<open>bcontexts + i\<close>. On the LP64 layout the slot past \<open>brings\<close> is the first
  eight bytes of the next context, its \<open>btype\<close>, and the stored 1 is the enumerator \<open>FOR\<close>.
\<close>

definition spill_store :: "bool \<Rightarrow> nat \<Rightarrow> bcontext list \<Rightarrow> bcontext list" where
  "spill_store spill i cs =
     (if spill \<and> Suc i < length cs then cs[Suc i := (cs ! Suc i)\<lparr>c_btype := FOR\<rparr>] else cs)"

definition bcontext_init ::
  "bcontext list \<Rightarrow> nat \<Rightarrow> branch \<Rightarrow> rand48 \<Rightarrow> (bcontext list \<times> rand48) res" where
  "bcontext_init cs i b x =
     bindR (idx cs (int i)) (\<lambda>c0.
     let c = c0\<lparr>c_bcount := 0, c_btype := b_btype b\<rparr> in
     case b_btype b of
       GOTO \<Rightarrow> Inr (cs[i := c\<lparr>c_boffset := 0, c_bsize := 1, c_bvalue := 1,
                 c_brings := 2147483647 # replicate (MAXBRINGS - 1) 0\<rparr>], x)
     | IF \<Rightarrow>
         (let v = fst (binary (b_prob b) x) in
          case if_fill (b_prob b) v 0 (c_brings c) False (snd (binary (b_prob b) x)) of
            None \<Rightarrow> Inl No_Return
          | Some (k, bs, spill, x') \<Rightarrow>
              Inr (spill_store spill i
                     (cs[i := c\<lparr>c_boffset := 0, c_bsize := int k, c_bvalue := v, c_brings := bs\<rparr>]),
                   x'))
     | FOR \<Rightarrow>
         (let (k, bs, x') = for_fill b 0 (c_brings c) x
          in Inr (cs[i := c\<lparr>c_boffset := 0, c_bvalue := 1, c_bsize := int k, c_brings := bs\<rparr>], x'))
     | NFOR \<Rightarrow>
         (let (k, bs, x') = for_fill b 0 (c_brings c) x
          in Inr (cs[i := c\<lparr>c_boffset := 0, c_bvalue := 0, c_bsize := int k, c_brings := bs\<rparr>], x')))"

subsection \<open>Deciding\<close>

definition bcontext_decide :: "bcontext \<Rightarrow> (int \<times> bcontext) res" where
  "bcontext_decide c =
     (let ret = c_bvalue c;
          c1 = c\<lparr>c_bcount := c_bcount c + 1\<rparr>
      in bindR (assertR Assert_Failed (c_boffset c1 \<ge> 0 \<and> c_boffset c1 < int MAXBRINGS)) (\<lambda>_.
         bindR (idx (c_brings c1) (c_boffset c1)) (\<lambda>br.
         if c_bcount c1 \<ge> br
         then if c_bsize c1 = 0 then Inl Div_By_Zero
              else Inr (ret, c1\<lparr>c_boffset := (c_boffset c1 + 1) smod c_bsize c1,
                               c_bcount := 0, c_bvalue := c_not (c_bvalue c1)\<rparr>)
         else Inr (ret, c1))))"

text \<open>The next \<open>n\<close> decisions of a context, and the context after them.\<close>

fun decisions :: "nat \<Rightarrow> bcontext \<Rightarrow> (int list \<times> bcontext) res" where
  "decisions 0 c = Inr ([], c)"
| "decisions (Suc n) c =
     bindR (bcontext_decide c) (\<lambda>(d, c').
     bindR (decisions n c') (\<lambda>(ds, c''). Inr (d # ds, c'')))"

definition wf_bcontext :: "bcontext \<Rightarrow> bool" where
  "wf_bcontext c \<longleftrightarrow> length (c_brings c) = MAXBRINGS \<and> 0 \<le> c_boffset c \<and> c_boffset c < c_bsize c
     \<and> c_bsize c \<le> int MAXBRINGS \<and> 0 \<le> c_bcount c \<and> c_bvalue c \<in> {0, 1}"

lemma wf_bcontext_clear: "wf_bcontext (bcontext_clear c)"
  by (simp add: wf_bcontext_def bcontext_clear_def)

lemma bcontext_decide_wf:
  assumes "wf_bcontext c"
  shows "okR (bcontext_decide c) (\<lambda>(d, c'). d \<in> {0, 1} \<and> d = c_bvalue c \<and> wf_bcontext c')"
  using assms c_not_bit [of "c_bvalue c"]
  by (auto simp: wf_bcontext_def bcontext_decide_def Let_def smod_nonneg)

subsection \<open>The decisions are the run-length code in \<open>brings\<close>\<close>

text \<open>\<open>expand v rs\<close>: runs of the lengths \<open>rs\<close>, alternating, the first of value \<open>v\<close>. A run length
  below 1 still gives one decision, because the counter is increased before it is compared.\<close>

fun expand :: "int \<Rightarrow> int list \<Rightarrow> int list" where
  "expand v [] = []"
| "expand v (r # rs) = replicate (nat (max 1 r)) v @ expand (c_not v) rs"

lemma length_expand_ge: "length rs \<le> length (expand v rs)"
proof (induction rs arbitrary: v)
  case Nil
  then show ?case by simp
next
  case (Cons r rs)
  have "1 \<le> nat (max 1 r)" by simp
  then show ?case using Cons.IH [of "c_not v"] by simp
qed

definition flips :: "nat \<Rightarrow> int \<Rightarrow> int" where
  "flips n v = (if even n then v else c_not v)"

lemma flips_Suc: "v \<in> {0, 1} \<Longrightarrow> flips (Suc n) v = c_not (flips n v)"
  by (auto simp: flips_def)

lemma flips_c_not: "v \<in> {0, 1} \<Longrightarrow> flips n (c_not v) = flips (Suc n) v"
  by (auto simp: flips_def)

lemma expand_append: "v \<in> {0, 1} \<Longrightarrow> expand v (rs @ ss) = expand v rs @ expand (flips (length rs) v) ss"
proof (induction rs arbitrary: v)
  case Nil
  then show ?case by (simp add: flips_def)
next
  case (Cons r rs)
  then show ?case using Cons.IH [OF c_not_bit, of v] by (simp add: flips_c_not)
qed

lemma decisions_add:
  "decisions (m + n) c = bindR (decisions m c) (\<lambda>(ds, c').
     bindR (decisions n c') (\<lambda>(es, c''). Inr (ds @ es, c'')))"
proof (induction m arbitrary: c)
  case 0
  then show ?case by (cases "decisions n c") auto
next
  case (Suc m)
  then show ?case
    by (cases "bcontext_decide c") (auto simp: bindR_assoc split_def)
qed

text \<open>One run, from any point inside it.\<close>

lemma decisions_run:
  assumes "wf_bcontext c" and "nat (max 1 (c_brings c ! nat (c_boffset c) - c_bcount c)) = n"
    and "c_bcount c < max 1 (c_brings c ! nat (c_boffset c))"
  shows "decisions n c = Inr (replicate n (c_bvalue c),
     c\<lparr>c_boffset := (c_boffset c + 1) mod c_bsize c, c_bcount := 0, c_bvalue := c_not (c_bvalue c)\<rparr>)"
  using assms
proof (induction n arbitrary: c)
  case 0
  then show ?case by simp
next
  case (Suc n)
  let ?r = "c_brings c ! nat (c_boffset c)"
  let ?c1 = "c\<lparr>c_bcount := c_bcount c + 1\<rparr>"
  show ?case
  proof (cases "c_bcount c + 1 \<ge> ?r")
    case True
    then have "n = 0" using Suc.prems by auto
    moreover have "bcontext_decide c = Inr (c_bvalue c, c\<lparr>c_boffset := (c_boffset c + 1) mod c_bsize c,
        c_bcount := 0, c_bvalue := c_not (c_bvalue c)\<rparr>)"
      using Suc.prems(1) True by (simp add: bcontext_decide_def wf_bcontext_def Let_def smod_nonneg)
    ultimately show ?thesis by simp
  next
    case False
    then have d: "bcontext_decide c = Inr (c_bvalue c, ?c1)"
      using Suc.prems(1) by (simp add: bcontext_decide_def wf_bcontext_def Let_def)
    have "decisions n ?c1 = Inr (replicate n (c_bvalue ?c1), ?c1\<lparr>
        c_boffset := (c_boffset ?c1 + 1) mod c_bsize ?c1, c_bcount := 0, c_bvalue := c_not (c_bvalue ?c1)\<rparr>)"
      using Suc.prems False by (intro Suc.IH) (auto simp: wf_bcontext_def)
    then show ?thesis by (simp add: d)
  qed
qed

lemma decisions_runs:
  assumes "wf_bcontext c" and "c_bcount c = 0" and "k \<le> nat (c_bsize c)" and "c_boffset c = 0"
  shows "decisions (length (expand (c_bvalue c) (take k (c_brings c)))) c
     = Inr (expand (c_bvalue c) (take k (c_brings c)),
            c\<lparr>c_boffset := int k mod c_bsize c, c_bvalue := flips k (c_bvalue c)\<rparr>)"
  using assms(3)
proof (induction k)
  case 0
  then show ?case using assms by (simp add: flips_def)
next
  case (Suc k)
  let ?v = "c_bvalue c"
  let ?c' = "c\<lparr>c_boffset := int k, c_bvalue := flips k ?v\<rparr>"
  have v: "?v \<in> {0, 1}" and len: "k < length (c_brings c)"
    using assms(1) Suc.prems by (auto simp: wf_bcontext_def)
  have wf': "wf_bcontext ?c'"
    using assms(1) Suc.prems c_not_bit [of ?v] by (auto simp: wf_bcontext_def flips_def)
  have km: "int k mod c_bsize c = int k" using Suc.prems by simp
  let ?n = "nat (max 1 (c_brings c ! k))"
  have run: "decisions ?n ?c' = Inr (replicate ?n (flips k ?v), ?c'\<lparr>
      c_boffset := (int k + 1) mod c_bsize c, c_bcount := 0, c_bvalue := c_not (flips k ?v)\<rparr>)"
    using decisions_run [OF wf', of ?n] assms(2) by simp
  have e: "expand ?v (take (Suc k) (c_brings c)) = expand ?v (take k (c_brings c)) @ replicate ?n (flips k ?v)"
    using len v by (simp add: take_Suc_conv_app_nth expand_append min_def)
  have z: "c\<lparr>c_boffset := a, c_bcount := 0, c_bvalue := b\<rparr> = c\<lparr>c_boffset := a, c_bvalue := b\<rparr>" for a b
    using assms(2) by (cases c) simp
  show ?case
    using Suc run v by (simp add: e decisions_add km flips_Suc z add.commute [of 1 "int k"])
qed

lemma decisions_expand:
  assumes "wf_bcontext c" and "c_bcount c = 0" and "c_boffset c = 0" and "c_bsize c = int MAXBRINGS"
  shows "decisions (length (expand (c_bvalue c) (c_brings c))) c = Inr (expand (c_bvalue c) (c_brings c), c)"
  using decisions_runs [OF assms(1,2) _ assms(3), of MAXBRINGS] assms
  by (simp add: wf_bcontext_def flips_def)

subsection \<open>\<open>FOR\<close> and \<open>NFOR\<close> contexts\<close>

definition trip_ok :: "branch \<Rightarrow> int \<Rightarrow> bool" where
  "trip_ok b m \<longleftrightarrow> (if b_max b > b_min b then b_min b \<le> m \<and> m < b_max b else m = b_min b)"

lemma draw_trip_ok: "trip_ok b (fst (draw_trip b x))"
proof (cases "b_max b > b_min b")
  case True
  then have "lrand48 (lcg x) mod (b_max b - b_min b) < b_max b - b_min b"
    by (intro pos_mod_bound) simp
  then have "lrand48 (lcg x) mod (b_max b - b_min b) + b_min b < b_max b" by linarith
  with True show ?thesis
    by (simp add: trip_ok_def draw_trip_def smod_nonneg lrand48_nonneg)
next
  case False
  then show ?thesis by (simp add: trip_ok_def draw_trip_def)
qed

text \<open>\<open>trips b bs\<close>: the list holds pairs of a drawn run length and a run of one escape.\<close>

definition trips :: "branch \<Rightarrow> nat \<Rightarrow> int list \<Rightarrow> bool" where
  "trips b k bs \<longleftrightarrow> (\<forall>j < k. even j \<longrightarrow> trip_ok b (bs ! j) \<and> bs ! Suc j = 1)"

lemma trips_extend:
  assumes "trip_ok b m" and "Suc k < MAXBRINGS" and "length bs = MAXBRINGS" and "even k" and "trips b k bs"
  shows "trips b (k + 2) (bs[k := m, Suc k := 1])"
  unfolding trips_def
proof (intro allI impI)
  fix j assume "j < k + 2" and "even j"
  then consider "j = k" | "j < k" "Suc j < k" using assms(4) by (cases "Suc j = k") (auto simp: less_Suc_eq)
  then show "trip_ok b (bs[k := m, Suc k := 1] ! j) \<and> bs[k := m, Suc k := 1] ! Suc j = 1"
    using assms \<open>even j\<close> by cases (auto simp: trips_def)
qed

lemma for_fill_spec:
  assumes "for_fill b k bs x = (k', bs', x')" and "length bs = MAXBRINGS" and "even k"
    and "k \<le> MAXBRINGS" and "trips b k bs"
  shows "k' = MAXBRINGS \<and> length bs' = MAXBRINGS \<and> trips b MAXBRINGS bs'"
  using assms
proof (induction b k bs x rule: for_fill.induct)
  case (1 b k bs x)
  obtain m y where d: "draw_trip b x = (m, y)" by fastforce
  show ?case
  proof (cases "k < MAXBRINGS")
    case True
    let ?bs = "bs[k := m, Suc k := 1]"
    have "Suc k < MAXBRINGS" using True "1.prems"(3) by presburger
    have "trip_ok b m" using draw_trip_ok [of b x] d by simp
    then have "trips b (k + 2) ?bs"
      using \<open>Suc k < MAXBRINGS\<close> "1.prems"(2,3,5) by (rule trips_extend)
    moreover have "for_fill b (k + 2) ?bs y = (k', bs', x')"
      using "1.prems"(1) True d by (simp add: for_fill.simps [of b k])
    ultimately show ?thesis
      using "1.IH" [OF True d [symmetric]] "1.prems" \<open>Suc k < MAXBRINGS\<close> by simp
  next
    case False
    then have "for_fill b k bs x = (k, bs, x)" by (simp add: for_fill.simps [of b k bs x])
    then show ?thesis using "1.prems" False by simp
  qed
qed

definition loop_value :: "btype \<Rightarrow> int" where
  "loop_value t = (if t = NFOR then 0 else 1)"

lemma bcontext_init_loop:
  assumes "i < length cs" and "length (c_brings (cs ! i)) = MAXBRINGS" and "b_btype b \<in> {FOR, NFOR}"
  shows "okR (bcontext_init cs i b x) (\<lambda>(cs', x'). \<exists>bs. trips b MAXBRINGS bs \<and> length bs = MAXBRINGS
     \<and> cs' = cs[i := \<lparr>c_btype = b_btype b, c_boffset = 0, c_bsize = int MAXBRINGS,
          c_bvalue = loop_value (b_btype b), c_bcount = 0, c_brings = bs\<rparr>])"
proof -
  obtain k bs x' where f: "for_fill b 0 (c_brings (cs ! i)) x = (k, bs, x')"
    by (metis prod_cases3)
  have "k = MAXBRINGS \<and> length bs = MAXBRINGS \<and> trips b MAXBRINGS bs"
    by (rule for_fill_spec [OF f]) (use assms in \<open>simp_all add: trips_def\<close>)
  then show ?thesis
    using assms f by (cases "cs ! i") (auto simp: bcontext_init_def Let_def loop_value_def)
qed

text \<open>A loop context gives the first drawn number of equal decisions and then one escape.\<close>

lemma decisions_first_run:
  assumes "wf_bcontext c" and "c_bcount c = 0" and "c_boffset c = 0" and "2 \<le> c_bsize c"
    and "c_brings c ! 1 = 1"
  shows "okR (decisions (nat (max 1 (c_brings c ! 0)) + 1) c)
     (\<lambda>(ds, c'). ds = replicate (nat (max 1 (c_brings c ! 0))) (c_bvalue c) @ [c_not (c_bvalue c)])"
proof -
  have two: "take 2 (c_brings c) = [c_brings c ! 0, c_brings c ! 1]"
    using assms(1,4) by (cases "c_brings c"; cases "tl (c_brings c)") (auto simp: wf_bcontext_def)
  have "okR (decisions (length (expand (c_bvalue c) (take 2 (c_brings c)))) c)
     (\<lambda>(ds, c'). ds = expand (c_bvalue c) (take 2 (c_brings c)))"
    using decisions_runs [OF assms(1,2) _ assms(3), of 2] assms(4) by simp
  then show ?thesis
    unfolding two using assms(5) by simp
qed

subsection \<open>\<open>IF\<close> contexts\<close>

text \<open>The state of the loop of the \<open>IF\<close> case after any number of turns: the run lengths up to the
  current one expand to the draws made so far.\<close>

definition if_state :: "rat \<Rightarrow> rand48 \<Rightarrow> int \<Rightarrow> nat \<Rightarrow> nat \<Rightarrow> int list \<Rightarrow> rand48 \<Rightarrow> bool" where
  "if_state p x0 v n k bs x \<longleftrightarrow> length bs = MAXBRINGS \<and> x = (lcg ^^ n) x0 \<and> k \<le> MAXBRINGS
     \<and> (\<forall>j \<le> k. j < MAXBRINGS \<longrightarrow> 1 \<le> bs ! j)
     \<and> draws p n x0 = expand v (take (Suc k) bs) @ (if k = MAXBRINGS then [flips k v] else [])"

lemma expand_bump:
  assumes "v \<in> {0, 1}" and "k < length bs" and "1 \<le> bs ! k"
  shows "expand v (take (Suc k) (bs[k := bs ! k + 1])) = expand v (take (Suc k) bs) @ [flips k v]"
proof -
  have "replicate (nat (bs ! k + 1)) w = w # replicate (nat (bs ! k)) w" for w :: int
    using assms(3) by (simp add: nat_add_distrib)
  then show ?thesis using assms
    by (simp add: take_Suc_conv_app_nth expand_append min_def replicate_append_same)
qed

lemma expand_next:
  assumes "v \<in> {0, 1}" and "Suc k < length bs"
  shows "expand v (take (Suc (Suc k)) (bs[Suc k := 1])) = expand v (take (Suc k) bs) @ [flips (Suc k) v]"
  using assms by (simp add: take_Suc_conv_app_nth [of "Suc k"] expand_append min_def)

lemma if_state_start:
  assumes "length bs = MAXBRINGS" and "bs ! 0 = 1" and "v = fst (binary p x0)"
  shows "if_state p x0 v 1 0 bs (lcg x0)"
  using assms by (cases bs) (auto simp: if_state_def)

lemma if_state_same:
  assumes "if_state p x0 v n k bs x" and "v \<in> {0, 1}" and "k < MAXBRINGS"
    and "fst (binary p x) = flips k v"
  shows "if_state p x0 v (Suc n) k (bs[k := bs ! k + 1]) (lcg x)"
proof -
  have "1 \<le> bs ! k" and "k < length bs" using assms by (auto simp: if_state_def)
  then have "expand v (take (Suc k) (bs[k := bs ! k + 1])) = expand v (take (Suc k) bs) @ [flips k v]"
    by (intro expand_bump [OF assms(2)])
  then show ?thesis
    using assms \<open>1 \<le> bs ! k\<close>
    by (auto simp: if_state_def draws_Suc nth_list_update simp del: draws.simps)
qed

lemma if_state_next:
  assumes "if_state p x0 v n k bs x" and "v \<in> {0, 1}" and "k < MAXBRINGS"
    and "fst (binary p x) = flips (Suc k) v"
  shows "if_state p x0 v (Suc n) (Suc k) (bs[Suc k := 1]) (lcg x)"
proof (cases "Suc k = MAXBRINGS")
  case True
  then show ?thesis
    using assms
    by (auto simp: if_state_def draws_Suc less_Suc_eq_le list_update_beyond simp del: draws.simps)
next
  case False
  then show ?thesis
    using assms expand_next [OF assms(2), of k bs]
    by (auto simp: if_state_def draws_Suc nth_list_update le_Suc_eq simp del: draws.simps)
qed

text \<open>Partial correctness: a fact kept by every turn of the loop holds of what it returns.\<close>

lemma if_fill_partial:
  assumes ret: "if_fill p cv k bs sp x = Some r"
    and stop: "\<And>p cv k bs sp x. MAXBRINGS \<le> k \<Longrightarrow> P p cv k bs sp x (k, bs, sp, x)"
    and same: "\<And>p cv k bs sp x r. k < MAXBRINGS \<Longrightarrow> fst (binary p x) = cv \<Longrightarrow>
      P p cv k (bs[k := bs ! k + 1]) sp (lcg x) r \<Longrightarrow> P p cv k bs sp x r"
    and other: "\<And>p cv k bs sp x r. k < MAXBRINGS \<Longrightarrow> fst (binary p x) \<noteq> cv \<Longrightarrow>
      P p (c_not cv) (Suc k) (bs[Suc k := 1]) (sp \<or> Suc k = MAXBRINGS) (lcg x) r \<Longrightarrow> P p cv k bs sp x r"
  shows "P p cv k bs sp x r"
proof -
  have step: "P p cv k bs sp x r"
    if IH: "\<And>p cv k bs sp x r. f p cv k bs sp x = Some r \<Longrightarrow> P p cv k bs sp x r"
      and eq: "(if k < MAXBRINGS then
          (if fst (binary p x) = cv then f p cv k (bs[k := bs ! k + 1]) sp (snd (binary p x))
           else f p (c_not cv) (Suc k) (bs[Suc k := 1]) (sp \<or> Suc k = MAXBRINGS) (snd (binary p x)))
        else Some (k, bs, sp, x)) = Some r"
    for f p cv k bs sp x r
  proof (cases "k < MAXBRINGS")
    case False
    then show ?thesis using eq stop by auto
  next
    case k: True
    show ?thesis
    proof (cases "fst (binary p x) = cv")
      case True
      then show ?thesis using eq k IH same [OF k True] by (simp only: if_True binary_simps simp_thms)
    next
      case False
      then show ?thesis using eq k IH other [OF k False] by (simp only: if_True if_False binary_simps simp_thms)
    qed
  qed
  have "if_fill p cv k bs sp x = Some r \<Longrightarrow> P p cv k bs sp x r"
    by (rule if_fill.raw_induct [of P "(((((p, cv), k), bs), sp), x)" r, unfolded prod.case])
      (rule step)
  then show ?thesis using ret by simp
qed

lemma if_fill_state:
  assumes "if_fill p cv k bs sp x = Some r"
    and "if_state p x0 v n k bs x" and "v \<in> {0, 1}" and "cv = flips k v" and "sp = (k = MAXBRINGS)"
  shows "\<exists>n bs x. r = (MAXBRINGS, bs, True, x) \<and> if_state p x0 v n MAXBRINGS bs x"
proof -
  have "\<forall>n. if_state p x0 v n k bs x \<longrightarrow> cv = flips k v \<longrightarrow> sp = (k = MAXBRINGS) \<longrightarrow>
     (\<exists>n bs x. r = (MAXBRINGS, bs, True, x) \<and> if_state p x0 v n MAXBRINGS bs x)"
    using assms(1)
  proof (rule if_fill_partial)
    fix p cv k bs sp x assume "MAXBRINGS \<le> k"
    then show "\<forall>n. if_state p x0 v n k bs x \<longrightarrow> cv = flips k v \<longrightarrow> sp = (k = MAXBRINGS) \<longrightarrow>
      (\<exists>n bs' x'. (k, bs, sp, x) = (MAXBRINGS, bs', True, x') \<and> if_state p x0 v n MAXBRINGS bs' x')"
      by (auto simp: if_state_def)
  next
    fix p cv k bs sp x and r :: "nat \<times> int list \<times> bool \<times> nat"
    assume "k < MAXBRINGS" "fst (binary p x) = cv"
      and IH: "\<forall>n. if_state p x0 v n k (bs[k := bs ! k + 1]) (lcg x) \<longrightarrow> cv = flips k v \<longrightarrow>
        sp = (k = MAXBRINGS) \<longrightarrow> (\<exists>n bs x. r = (MAXBRINGS, bs, True, x) \<and> if_state p x0 v n MAXBRINGS bs x)"
    then show "\<forall>n. if_state p x0 v n k bs x \<longrightarrow> cv = flips k v \<longrightarrow> sp = (k = MAXBRINGS) \<longrightarrow>
        (\<exists>n bs x. r = (MAXBRINGS, bs, True, x) \<and> if_state p x0 v n MAXBRINGS bs x)"
      using if_state_same [OF _ assms(3)] by blast
  next
    fix p cv k bs sp x and r :: "nat \<times> int list \<times> bool \<times> nat"
    assume k: "k < MAXBRINGS" and ne: "fst (binary p x) \<noteq> cv"
      and IH: "\<forall>n. if_state p x0 v n (Suc k) (bs[Suc k := 1]) (lcg x) \<longrightarrow> c_not cv = flips (Suc k) v \<longrightarrow>
        (sp \<or> Suc k = MAXBRINGS) = (Suc k = MAXBRINGS) \<longrightarrow>
        (\<exists>n bs x. r = (MAXBRINGS, bs, True, x) \<and> if_state p x0 v n MAXBRINGS bs x)"
    show "\<forall>n. if_state p x0 v n k bs x \<longrightarrow> cv = flips k v \<longrightarrow> sp = (k = MAXBRINGS) \<longrightarrow>
        (\<exists>n bs x. r = (MAXBRINGS, bs, True, x) \<and> if_state p x0 v n MAXBRINGS bs x)"
    proof (intro allI impI)
      fix n assume st: "if_state p x0 v n k bs x" and cv: "cv = flips k v" and sp: "sp = (k = MAXBRINGS)"
      have "fst (binary p x) = flips (Suc k) v"
        using ne cv assms(3) by (auto simp: flips_def split: if_splits)
      then have "if_state p x0 v (Suc n) (Suc k) (bs[Suc k := 1]) (lcg x)"
        by (rule if_state_next [OF st assms(3) k])
      then show "\<exists>n bs x. r = (MAXBRINGS, bs, True, x) \<and> if_state p x0 v n MAXBRINGS bs x"
        using IH cv sp k flips_Suc [OF assms(3), of k] by (metis less_irrefl)
    qed
  qed
  then show ?thesis using assms by blast
qed

text \<open>Termination: a fair probability always brings the differing draw that closes a run.\<close>

lemma if_fill_until:
  assumes "fst (binary p ((lcg ^^ n) x)) \<noteq> cv" and "k < MAXBRINGS"
    and rest: "\<And>bs sp x. \<exists>r. if_fill p (c_not cv) (Suc k) bs sp x = Some r"
  shows "\<exists>r. if_fill p cv k bs sp x = Some r"
  using assms(1)
proof (induction n arbitrary: bs x)
  case 0
  then show ?case using rest assms(2) by (simp add: if_fill.simps [of p cv k])
next
  case (Suc n)
  then have "fst (binary p ((lcg ^^ n) (lcg x))) \<noteq> cv" by (simp add: funpow_swap1)
  from Suc.IH [OF this] rest assms(2) show ?case by (simp add: if_fill.simps [of p cv k])
qed

lemma if_fill_returns:
  assumes "fair p" and "cv \<in> {0, 1}"
  shows "\<exists>r. if_fill p cv k bs sp x = Some r"
  using assms(2)
proof (induction "MAXBRINGS - k" arbitrary: k cv bs sp x)
  case 0
  then show ?case by (simp add: if_fill.simps [of p cv k])
next
  case (Suc m)
  obtain n where "fst (binary p ((lcg ^^ n) x)) = c_not cv"
    using fair_both [OF assms(1) c_not_bit] by blast
  then have "fst (binary p ((lcg ^^ n) x)) \<noteq> cv" using Suc.prems by auto
  then show ?case
  proof (rule if_fill_until)
    show "k < MAXBRINGS" using Suc.hyps(2) by simp
    show "\<exists>r. if_fill p (c_not cv) (Suc k) bs sp x = Some r" for bs sp x
      using Suc.hyps(2) c_not_bit by (intro Suc.hyps(1)) simp_all
  qed
qed

text \<open>A probability that allows one decision only makes the loop endless.\<close>

definition stuck :: "rat \<Rightarrow> int \<Rightarrow> bool" where
  "stuck p v \<longleftrightarrow> (\<forall>x. fst (binary p x) = v)"

lemma stuck_zero: "p \<le> 0 \<Longrightarrow> stuck p 0"
  unfolding stuck_def by (auto simp: drand48_less_def dest: order_less_le_trans)

lemma stuck_one:
  assumes "1 \<le> p"
  shows "stuck p 1"
proof -
  have "drand48_less (lcg x) p" for x
  proof -
    have "lcg x < 281474976710656" using lcg_less [of x] by (simp add: lcg_modulus_def)
    then have "(of_nat (lcg x) :: rat) < of_nat 281474976710656" by (simp only: of_nat_less_iff)
    also have "\<dots> \<le> p * 281474976710656" using assms by simp
    finally show ?thesis by (simp add: drand48_less_def)
  qed
  then show ?thesis by (simp add: stuck_def)
qed

lemma if_fill_stuck:
  assumes "stuck p cv" and "k < MAXBRINGS"
  shows "if_fill p cv k bs sp x = None"
proof (rule ccontr)
  assume "if_fill p cv k bs sp x \<noteq> None"
  then obtain r where "if_fill p cv k bs sp x = Some r" by blast
  then have "\<not> (stuck p cv \<and> k < MAXBRINGS)"
    by (rule if_fill_partial) (auto simp: stuck_def simp del: binary_simps)
  with assms show False by simp
qed

subsection \<open>What initialisation establishes\<close>

lemma bcontext_init_if:
  assumes "i < length cs" and "b_btype b = IF" and "fair (b_prob b)"
    and "length (c_brings (cs ! i)) = MAXBRINGS" and "c_brings (cs ! i) ! 0 = 1"
  shows "\<exists>bs n x' c. bcontext_init cs i b x = Inr (spill_store True i (cs[i := c]), x')
    \<and> c = \<lparr>c_btype = IF, c_boffset = 0, c_bsize = int MAXBRINGS,
           c_bvalue = fst (binary (b_prob b) x), c_bcount = 0, c_brings = bs\<rparr>
    \<and> if_state (b_prob b) x (fst (binary (b_prob b) x)) n MAXBRINGS bs x'"
proof -
  let ?v = "fst (binary (b_prob b) x)" and ?bs = "c_brings (cs ! i)"
  have v: "?v \<in> {0, 1}" by (rule binary_bit)
  obtain r where r: "if_fill (b_prob b) ?v 0 ?bs False (lcg x) = Some r"
    using if_fill_returns [OF assms(3) v] by blast
  have st: "if_state (b_prob b) x ?v 1 0 ?bs (lcg x)"
    using assms(4,5) by (rule if_state_start) simp
  obtain n bs x' where "r = (MAXBRINGS, bs, True, x')"
      and "if_state (b_prob b) x ?v n MAXBRINGS bs x'"
    using if_fill_state [OF r st v] by (auto simp: flips_def simp del: binary_simps)
  then show ?thesis
    using assms r by (intro exI [of _ bs] exI [of _ n] exI [of _ x'])
      (cases "cs ! i", auto simp: bcontext_init_def Let_def)
qed

lemma spill_store_simps [simp]:
  "length (spill_store s i cs) = length cs"
  "j \<noteq> Suc i \<Longrightarrow> spill_store s i cs ! j = cs ! j"
  "c_brings (spill_store s i cs ! j) = c_brings (cs ! j)"
  by (auto simp: spill_store_def nth_update_if)

lemma wf_spill_store: "j < length cs \<Longrightarrow> wf_bcontext (spill_store s i cs ! j) \<longleftrightarrow> wf_bcontext (cs ! j)"
  by (auto simp: spill_store_def nth_update_if wf_bcontext_def)

lemma bcontext_init_goto:
  assumes "i < length cs" and "b_btype b = GOTO"
  shows "bcontext_init cs i b x = Inr (cs[i := \<lparr>c_btype = GOTO, c_boffset = 0, c_bsize = 1, c_bvalue = 1,
    c_bcount = 0, c_brings = 2147483647 # replicate (MAXBRINGS - 1) 0\<rparr>], x)"
  using assms by (cases "cs ! i") (simp add: bcontext_init_def Let_def)

text \<open>Whatever the kind of branch, a context that was cleared first is well-formed afterwards, and
  the other contexts keep everything but possibly their \<open>btype\<close>.\<close>

definition cleared :: "bcontext \<Rightarrow> bool" where
  "cleared c \<longleftrightarrow> length (c_brings c) = MAXBRINGS \<and> c_brings c ! 0 = 1"

lemma cleared_bcontext_clear [simp]: "cleared (bcontext_clear c)"
  by (simp add: cleared_def bcontext_clear_def)

lemma wf_init_bcontext:
  "v \<in> {0, 1} \<Longrightarrow> 0 < k \<Longrightarrow> k \<le> int MAXBRINGS \<Longrightarrow> length bs = MAXBRINGS \<Longrightarrow>
   wf_bcontext \<lparr>c_btype = t, c_boffset = 0, c_bsize = k, c_bvalue = v, c_bcount = 0, c_brings = bs\<rparr>"
  by (simp add: wf_bcontext_def)

definition same_but_btype :: "bcontext \<Rightarrow> bcontext \<Rightarrow> bool" where
  "same_but_btype c c' \<longleftrightarrow> c' = c\<lparr>c_btype := c_btype c'\<rparr>"

lemma same_but_btype_refl [simp]: "same_but_btype c c"
  by (simp add: same_but_btype_def)

lemma same_but_btype_wf: "same_but_btype c c' \<Longrightarrow> wf_bcontext c \<Longrightarrow> wf_bcontext c'"
  unfolding same_but_btype_def wf_bcontext_def
  by (metis bcontext.select_convs(2-6) bcontext.surjective bcontext.update_convs(1))

lemma same_but_btype_spill: "same_but_btype (cs ! j) (spill_store s i cs ! j)"
  by (auto simp: spill_store_def nth_update_if same_but_btype_def)

lemma same_but_btype_cleared: "same_but_btype c c' \<Longrightarrow> cleared c \<Longrightarrow> cleared c'"
  unfolding same_but_btype_def cleared_def
  by (metis bcontext.select_convs(6) bcontext.surjective bcontext.update_convs(1))

lemma bcontext_init_wf:
  assumes "i < length cs" and "cleared (cs ! i)" and "b_btype b = IF \<longrightarrow> fair (b_prob b)"
  shows "okR (bcontext_init cs i b x) (\<lambda>(cs', x'). length cs' = length cs \<and> wf_bcontext (cs' ! i)
     \<and> (\<forall>j. j \<noteq> i \<longrightarrow> same_but_btype (cs ! j) (cs' ! j)))"
proof (cases "b_btype b")
  case GOTO
  then show ?thesis using assms(1) by (simp add: bcontext_init_goto wf_init_bcontext)
next
  case IF
  then have "fair (b_prob b)" using assms(3) by simp
  then obtain bs n x' c where "bcontext_init cs i b x = Inr (spill_store True i (cs[i := c]), x')"
    and c: "c = \<lparr>c_btype = IF, c_boffset = 0, c_bsize = int MAXBRINGS,
           c_bvalue = fst (binary (b_prob b) x), c_bcount = 0, c_brings = bs\<rparr>"
    and "if_state (b_prob b) x (fst (binary (b_prob b) x)) n MAXBRINGS bs x'"
    using bcontext_init_if [OF assms(1) IF] assms(2) unfolding cleared_def by metis
  moreover have "wf_bcontext c"
    unfolding c by (rule wf_init_bcontext [OF binary_bit]) (use calculation in \<open>simp_all add: if_state_def\<close>)
  moreover have "same_but_btype (cs ! j) (spill_store True i (cs[i := c]) ! j)" if "j \<noteq> i" for j
    using same_but_btype_spill [of "cs[i := c]" j] that by simp
  ultimately show ?thesis using assms(1) by (simp add: wf_spill_store)
next
  case FOR
  then have "okR (bcontext_init cs i b x) (\<lambda>(cs', x'). \<exists>bs. trips b MAXBRINGS bs \<and> length bs = MAXBRINGS
     \<and> cs' = cs[i := \<lparr>c_btype = b_btype b, c_boffset = 0, c_bsize = int MAXBRINGS,
          c_bvalue = loop_value (b_btype b), c_bcount = 0, c_brings = bs\<rparr>])"
    using assms by (intro bcontext_init_loop) (simp_all add: cleared_def)
  then show ?thesis
    using assms(1) by (auto simp: loop_value_def elim!: okR_mono intro!: wf_init_bcontext)
next
  case NFOR
  then have "okR (bcontext_init cs i b x) (\<lambda>(cs', x'). \<exists>bs. trips b MAXBRINGS bs \<and> length bs = MAXBRINGS
     \<and> cs' = cs[i := \<lparr>c_btype = b_btype b, c_boffset = 0, c_bsize = int MAXBRINGS,
          c_bvalue = loop_value (b_btype b), c_bcount = 0, c_brings = bs\<rparr>])"
    using assms by (intro bcontext_init_loop) (simp_all add: cleared_def)
  then show ?thesis
    using assms(1) by (auto simp: loop_value_def elim!: okR_mono intro!: wf_init_bcontext)
qed

subsection \<open>Properties\<close>

text \<open>C24: Loading an \<open>IF\<close> branch into a cleared context returns for every probability that both
  sides of the 48-bit fraction can fall on, and the decisions the context gives afterwards are
  exactly the random draws that the precomputed run lengths were made from, in their order, after
  which the context is back in the state it started from.\<close>

theorem if_context_replays_draws:
  assumes "i < length cs" and "cleared (cs ! i)" and "b_btype b = IF" and "fair (b_prob b)"
  shows "\<exists>n \<ge> MAXBRINGS. okR (bcontext_init cs i b x) (\<lambda>(cs', x'). x' = (lcg ^^ Suc n) x
     \<and> decisions n (cs' ! i) = Inr (draws (b_prob b) n x, cs' ! i))"
proof -
  let ?v = "fst (binary (b_prob b) x)"
  obtain bs n x' c where init: "bcontext_init cs i b x = Inr (spill_store True i (cs[i := c]), x')"
    and c: "c = \<lparr>c_btype = IF, c_boffset = 0, c_bsize = int MAXBRINGS, c_bvalue = ?v,
           c_bcount = 0, c_brings = bs\<rparr>"
    and st: "if_state (b_prob b) x ?v n MAXBRINGS bs x'"
    using bcontext_init_if [OF assms(1,3,4)] assms(2) unfolding cleared_def by metis
  let ?e = "expand ?v bs"
  have len: "length bs = MAXBRINGS" and d: "draws (b_prob b) n x = ?e @ [flips MAXBRINGS ?v]"
    and x': "x' = (lcg ^^ n) x"
    using st by (simp_all add: if_state_def)
  have n: "n = Suc (length ?e)" using arg_cong [OF d, of length] by simp
  then have e: "draws (b_prob b) (length ?e) x = ?e" using d by (simp add: draws_Suc del: draws.simps)
  have "wf_bcontext c" unfolding c by (rule wf_init_bcontext [OF binary_bit]) (use len in simp_all)
  then have "decisions (length ?e) c = Inr (?e, c)"
    using decisions_expand [of c] by (simp add: c)
  moreover have "MAXBRINGS \<le> length ?e" using len length_expand_ge [of bs ?v] by simp
  ultimately show ?thesis
    using init x' n e assms(1) by (intro exI [of _ "length ?e"]) simp
qed

text \<open>A zero-initialised context, as the static job queue holds before the first clear.\<close>

definition zero_bcontext :: bcontext where
  "zero_bcontext = \<lparr>c_btype = GOTO, c_boffset = 0, c_bsize = 0, c_bvalue = 0, c_bcount = 0,
     c_brings = replicate MAXBRINGS 0\<rparr>"

theorem if_context_replays_draws_witness:
  "\<exists>n \<ge> MAXBRINGS. okR (bcontext_init [bcontext_clear zero_bcontext] 0
       \<lparr>b_wherefrom = 500, b_whereto = 1402, b_btype = IF, b_min = 0, b_max = 0, b_prob = 3 / 5, b_extent = 0\<rparr>
       (srand48 512)) (\<lambda>(cs', x'). x' = (lcg ^^ Suc n) (srand48 512)
     \<and> decisions n (cs' ! 0) = Inr (draws (3 / 5) n (srand48 512), cs' ! 0))"
  using if_context_replays_draws
    [of 0 "[bcontext_clear zero_bcontext]"
      "\<lparr>b_wherefrom = 500, b_whereto = 1402, b_btype = IF, b_min = 0, b_max = 0, b_prob = 3 / 5, b_extent = 0\<rparr>"
      "srand48 512"]
  by (simp add: fair_def)

text \<open>An \<open>IF\<close> branch whose probability leaves one decision only (at most 0, or at least 1)
  makes \<open>bcontext_init\<close> loop for ever, from every state of the generator.\<close>

lemma if_context_degenerate_diverges:
  assumes "i < length cs" and "b_btype b = IF" and "b_prob b \<le> 0 \<or> 1 \<le> b_prob b"
  shows "bcontext_init cs i b x = Inl No_Return"
proof -
  obtain v where v: "stuck (b_prob b) v"
    using assms(3) stuck_zero stuck_one by blast
  then have "fst (binary (b_prob b) x) = v" by (simp add: stuck_def del: binary_simps)
  with if_fill_stuck [OF v] show ?thesis
    using assms(1,2) by (simp add: bcontext_init_def Let_def del: binary_simps)
qed

lemma if_context_degenerate_diverges_witness:
  "bcontext_init [bcontext_clear zero_bcontext] 0
     \<lparr>b_wherefrom = 7, b_whereto = 0, b_btype = IF, b_min = 0, b_max = 0, b_prob = 1, b_extent = 0\<rparr> 5
   = Inl No_Return"
  by (rule if_context_degenerate_diverges) simp_all

lemma expand_pairs:
  "v \<in> {0, 1} \<Longrightarrow> expand v (concat (map (\<lambda>m. [m, 1]) ms))
   = concat (map (\<lambda>m. replicate (nat (max 1 m)) v @ [c_not v]) ms)"
  by (induction ms) (simp_all add: c_not_c_not)

lemma trips_pairs:
  "trips b (2 * n) bs \<Longrightarrow> length bs = 2 * n \<Longrightarrow>
   \<exists>ms. length ms = n \<and> (\<forall>m \<in> set ms. trip_ok b m) \<and> bs = concat (map (\<lambda>m. [m, 1]) ms)"
proof (induction n arbitrary: bs)
  case 0
  then show ?case by simp
next
  case (Suc n)
  then obtain m y rs where bs: "bs = m # y # rs" and len: "length rs = 2 * n"
    by (cases bs; cases "tl bs") auto
  have "trip_ok b m" and "y = 1"
    using Suc.prems(1) by (auto simp: trips_def bs dest: spec [of _ 0])
  moreover have "trips b (2 * n) rs"
    unfolding trips_def
  proof (intro allI impI)
    fix j assume "j < 2 * n" and "even j"
    then show "trip_ok b (rs ! j) \<and> rs ! Suc j = 1"
      using Suc.prems(1) by (auto simp: trips_def bs dest!: spec [of _ "j + 2"])
  qed
  ultimately show ?case using Suc.IH [of rs] len by (fastforce simp: bs intro: exI [of _ "m # _"])
qed

text \<open>A \<open>FOR\<close> or \<open>NFOR\<close> context holds fifty drawn trip counts, each within the bounds of the
  branch (from \<open>min\<close>, below \<open>max\<close>, or exactly \<open>min\<close> when \<open>max\<close> is not larger), and its decisions
  are, for each trip count in turn, that many times the loop decision (taken for \<open>FOR\<close>, not taken
  for \<open>NFOR\<close>) and then one escape; after the fifty loops the context is back where it started.\<close>

lemma loop_context_decisions:
  assumes "i < length cs" and "length (c_brings (cs ! i)) = MAXBRINGS" and "b_btype b \<in> {FOR, NFOR}"
  shows "okR (bcontext_init cs i b x) (\<lambda>(cs', x'). \<exists>ms. length ms = 50 \<and> (\<forall>m \<in> set ms. trip_ok b m)
     \<and> (let v = loop_value (b_btype b);
            ds = concat (map (\<lambda>m. replicate (nat (max 1 m)) v @ [c_not v]) ms)
        in decisions (length ds) (cs' ! i) = Inr (ds, cs' ! i)))"
  using bcontext_init_loop [OF assms, of x]
proof (rule okR_mono, clarify)
  fix bs assume bs: "trips b MAXBRINGS bs" "length bs = MAXBRINGS"
  let ?v = "loop_value (b_btype b)"
  let ?c = "\<lparr>c_btype = b_btype b, c_boffset = 0, c_bsize = int MAXBRINGS, c_bvalue = ?v, c_bcount = 0, c_brings = bs\<rparr>"
  have v: "?v \<in> {0, 1}" by (simp add: loop_value_def)
  obtain ms where "length ms = 50" "\<forall>m \<in> set ms. trip_ok b m" and ms: "bs = concat (map (\<lambda>m. [m, 1]) ms)"
    using trips_pairs [of b 50 bs] bs by auto
  moreover have "wf_bcontext ?c" using v bs by (intro wf_init_bcontext) simp_all
  then have "decisions (length (expand ?v bs)) ?c = Inr (expand ?v bs, ?c)"
    using decisions_expand [of ?c] by simp
  ultimately show "\<exists>ms. length ms = 50 \<and> (\<forall>m \<in> set ms. trip_ok b m)
     \<and> (let v = ?v; ds = concat (map (\<lambda>m. replicate (nat (max 1 m)) v @ [c_not v]) ms)
        in decisions (length ds) (cs[i := ?c] ! i) = Inr (ds, cs[i := ?c] ! i))"
    using assms(1) by (intro exI [of _ ms]) (simp add: Let_def expand_pairs [OF v])
qed

lemma loop_context_decisions_witness:
  "okR (bcontext_init [bcontext_clear zero_bcontext] 0
     \<lparr>b_wherefrom = 1129, b_whereto = 0, b_btype = FOR, b_min = 20, b_max = 50, b_prob = 0, b_extent = 0\<rparr> 9)
     (\<lambda>(cs', x'). \<exists>ms. length ms = 50 \<and> (\<forall>m \<in> set ms. 20 \<le> m \<and> m < 50)
     \<and> (let ds = concat (map (\<lambda>m. replicate (nat (max 1 m)) 1 @ [0]) ms)
        in decisions (length ds) (cs' ! 0) = Inr (ds, cs' ! 0)))"
  using loop_context_decisions [of 0 "[bcontext_clear zero_bcontext]"
     "\<lparr>b_wherefrom = 1129, b_whereto = 0, b_btype = FOR, b_min = 20, b_max = 50, b_prob = 0, b_extent = 0\<rparr>" 9]
  by (simp add: trip_ok_def loop_value_def bcontext_clear_def)

lemma decisions_single_run:
  assumes "wf_bcontext c" and "c_bcount c = 0" and "c_boffset c = 0" and "c_bsize c = 1"
    and "c_brings c ! 0 = int m" and "2 \<le> m"
  shows "okR (decisions (m + 1) c) (\<lambda>(ds, c'). ds = replicate m (c_bvalue c) @ [c_not (c_bvalue c)])"
proof -
  let ?c' = "c\<lparr>c_bvalue := c_not (c_bvalue c)\<rparr>"
  have "decisions m c = Inr (replicate m (c_bvalue c), c\<lparr>c_boffset := 0, c_bcount := 0, c_bvalue := c_not (c_bvalue c)\<rparr>)"
    using decisions_run [OF assms(1), of m] assms by simp
  moreover have "c\<lparr>c_boffset := 0, c_bcount := 0, c_bvalue := c_not (c_bvalue c)\<rparr> = ?c'"
    using assms(2,3) by (cases c) simp
  moreover have "wf_bcontext ?c'" using assms(1) by (simp add: wf_bcontext_def c_not_def)
  then have "okR (bcontext_decide ?c') (\<lambda>(d, c''). d = c_not (c_bvalue c))"
    using bcontext_decide_wf [of ?c'] by (auto elim!: okR_mono)
  then have "okR (decisions 1 ?c') (\<lambda>(ds, c''). ds = [c_not (c_bvalue c)])"
    unfolding One_nat_def by (auto elim!: okR_mono)
  ultimately show ?thesis
    unfolding decisions_add by (auto elim!: okR_mono)
qed

text \<open>A \<open>GOTO\<close> context is not taken for ever: it is taken \<open>0x7fffffff\<close> times and falls through
  at the next decision.\<close>

lemma goto_context_decisions:
  assumes "i < length cs" and "b_btype b = GOTO"
  shows "okR (bcontext_init cs i b x) (\<lambda>(cs', x'). okR (decisions (2147483647 + 1) (cs' ! i))
     (\<lambda>(ds, c). ds = replicate 2147483647 1 @ [0]))"
proof -
  let ?c = "\<lparr>c_btype = GOTO, c_boffset = 0, c_bsize = 1, c_bvalue = 1,
    c_bcount = 0, c_brings = 2147483647 # replicate (MAXBRINGS - 1) 0\<rparr>"
  have "okR (decisions (2147483647 + 1) ?c)
     (\<lambda>(ds, c'). ds = replicate 2147483647 (c_bvalue ?c) @ [c_not (c_bvalue ?c)])"
    by (rule decisions_single_run) (simp_all add: wf_init_bcontext)
  then show ?thesis
    unfolding bcontext_init_goto [OF assms] using assms(1)
    by (simp only: okR_simps prod.case nth_list_update_eq bcontext.simps c_not_simps)
qed

lemma goto_context_decisions_witness:
  "okR (bcontext_init [bcontext_clear zero_bcontext] 0
     \<lparr>b_wherefrom = 501, b_whereto = 0, b_btype = GOTO, b_min = 0, b_max = 0, b_prob = 1, b_extent = 0\<rparr> 9)
     (\<lambda>(cs', x'). okR (decisions (2147483647 + 1) (cs' ! 0))
     (\<lambda>(ds, c). ds = replicate 2147483647 1 @ [0]))"
  by (rule goto_context_decisions) simp_all

text \<open>Initialising an \<open>IF\<close> context stores one past the end of \<open>brings\<close>: the next context of the
  array comes out with its \<open>btype\<close> overwritten, and the probability is the only thing that matters
  for it (every fair one does it, from every state of the generator).\<close>

lemma if_context_overruns_brings:
  assumes "Suc i < length cs" and "cleared (cs ! i)" and "b_btype b = IF" and "fair (b_prob b)"
  shows "okR (bcontext_init cs i b x) (\<lambda>(cs', x'). cs' ! Suc i = (cs ! Suc i)\<lparr>c_btype := FOR\<rparr>)"
proof -
  obtain bs n x' c where "bcontext_init cs i b x = Inr (spill_store True i (cs[i := c]), x')"
    using bcontext_init_if [of i cs b x] assms unfolding cleared_def by fastforce
  then show ?thesis using assms(1) by (simp add: spill_store_def)
qed

lemma if_context_overruns_brings_witness:
  "okR (bcontext_init [bcontext_clear zero_bcontext, bcontext_clear zero_bcontext] 0
     \<lparr>b_wherefrom = 500, b_whereto = 503, b_btype = IF, b_min = 0, b_max = 0, b_prob = 1 / 2, b_extent = 0\<rparr> 1)
     (\<lambda>(cs', x'). cs' ! Suc 0 = (bcontext_clear zero_bcontext)\<lparr>c_btype := FOR\<rparr>)"
  using if_context_overruns_brings
    [of 0 "[bcontext_clear zero_bcontext, bcontext_clear zero_bcontext]"
      "\<lparr>b_wherefrom = 500, b_whereto = 503, b_btype = IF, b_min = 0, b_max = 0, b_prob = 1 / 2, b_extent = 0\<rparr>" 1]
  by (simp add: fair_def)

end
