(* ===== verification/Process.thy ===== *)
theory Process
  imports Branching
begin

text \<open>
  Processes of \<open>assignments/pa7/simulator.c\<close> and the program table of \<open>programs.c\<close>: \<open>Program\<close> and
  \<open>Process\<close> of \<open>simulator.h\<close>, \<open>process_clear\<close>, \<open>process_load\<close>, \<open>process_unload\<close>,
  \<open>process_dobranch\<close> and \<open>process_step\<close> with its two binary searches. A \<open>Program *\<close> is an index
  into the program table. Reads just outside \<open>exits\<close> and \<open>branches\<close> are resolved by the layout of
  the structures, and anything further out is a fault.
\<close>

abbreviation (input) MAXPROCPAGES :: nat where "MAXPROCPAGES \<equiv> 20"
abbreviation (input) MAXEXITS :: nat where "MAXEXITS \<equiv> 10"
abbreviation (input) PAGESIZE :: int where "PAGESIZE \<equiv> 128"
abbreviation (input) PAGEWAIT :: int where "PAGEWAIT \<equiv> 100"
abbreviation (input) PHYSICALPAGES :: int where "PHYSICALPAGES \<equiv> 100"

subsection \<open>Data\<close>

record program =
  g_size :: int
  g_nbranches :: int
  g_branches :: "branch list"
  g_nexits :: int
  g_exits :: "int list"

record process =
  p_program :: "nat option"
  p_nbcontexts :: int
  p_bcontexts :: "bcontext list"
  p_pc :: int
  p_npages :: int
  p_pages :: "int list"
  p_blocked :: "bool list"
  p_active :: bool
  p_compute :: int
  p_block :: int
  p_pid :: int
  p_kind :: int

definition zero_branch :: branch where
  "zero_branch = \<lparr>b_wherefrom = 0, b_whereto = 0, b_btype = GOTO, b_min = 0, b_max = 0, b_prob = 0, b_extent = 0\<rparr>"

definition mk_branch :: "int \<Rightarrow> int \<Rightarrow> btype \<Rightarrow> int \<Rightarrow> int \<Rightarrow> rat \<Rightarrow> branch" where
  "mk_branch f t k lo hi p =
     \<lparr>b_wherefrom = f, b_whereto = t, b_btype = k, b_min = lo, b_max = hi, b_prob = p, b_extent = 0\<rparr>"

definition mk_program :: "int \<Rightarrow> branch list \<Rightarrow> int list \<Rightarrow> program" where
  "mk_program sz bs es =
     \<lparr>g_size = sz, g_nbranches = int (length bs),
      g_branches = bs @ replicate (MAXBRANCHES - length bs) zero_branch,
      g_nexits = int (length es), g_exits = es @ replicate (MAXEXITS - length es) 0\<rparr>"

text \<open>The table of \<open>programs.c\<close>; the parts of an initialiser that are left out are zero.\<close>

definition programs :: "program list" where
  "programs =
    [mk_program 1535
       [mk_branch 500 1402 IF 0 0 (3 / 5), mk_branch 1401 1533 GOTO 0 0 1, mk_branch 1533 0 FOR 10 30 0] [1534],
     mk_program 1131 [mk_branch 1129 0 FOR 20 50 0] [1130],
     mk_program 1685 [mk_branch 1682 1166 FOR 10 20 0, mk_branch 1683 0 FOR 10 20 0] [1684],
     mk_program 1912 [] [1911],
     mk_program 505
       [mk_branch 500 503 IF 0 0 (1 / 2), mk_branch 501 0 GOTO 0 0 1, mk_branch 502 503 GOTO 0 0 1,
        mk_branch 503 0 FOR 10 20 0] [504]]"

subsection \<open>Clearing, loading, unloading\<close>

definition process_clear :: "process \<Rightarrow> process" where
  "process_clear q = q\<lparr>p_pc := 0, p_compute := 0, p_block := 0, p_program := None, p_pid := -1,
     p_kind := -1, p_nbcontexts := 0, p_bcontexts := map bcontext_clear (p_bcontexts q), p_npages := 0,
     p_pages := replicate MAXPROCPAGES (-PAGEWAIT - 1),
     p_blocked := replicate MAXPROCPAGES False, p_active := False\<rparr>"

definition process_load ::
  "program list \<Rightarrow> process \<Rightarrow> nat \<Rightarrow> int \<Rightarrow> int \<Rightarrow> rand48 \<Rightarrow> (process \<times> rand48) res" where
  "process_load progs q p pid kind x =
     bindR (idx progs (int p)) (\<lambda>g.
     let q1 = q\<lparr>p_pc := 0, p_compute := 0, p_block := 0, p_program := Some p, p_pid := pid,
                p_kind := kind, p_nbcontexts := g_nbranches g\<rparr> in
     bindR (assertR Assert_Failed (g_nbranches g \<ge> 0 \<and> g_nbranches g < int MAXBRANCHES)) (\<lambda>_.
     bindR (foldR (\<lambda>i (cs, x). bcontext_init cs i (g_branches g ! i) x)
              [0..<nat (g_nbranches g)] (p_bcontexts q1, x)) (\<lambda>(cs, x').
     Inr (q1\<lparr>p_bcontexts := cs, p_npages := int MAXPROCPAGES,
             p_pages := replicate MAXPROCPAGES (-PAGEWAIT - 1),
             p_blocked := replicate MAXPROCPAGES False, p_active := True\<rparr>, x'))))"

text \<open>\<open>process_unload\<close> changes the global \<open>pagesavail\<close>, which is passed and returned.\<close>

definition unload_page :: "nat \<Rightarrow> int \<times> process \<Rightarrow> (int \<times> process) res" where
  "unload_page i = (\<lambda>(avail, q).
     bindR (idx (p_pages q) (int i)) (\<lambda>st.
     if st \<ge> -PAGEWAIT
     then Inr (avail + 1, q\<lparr>p_pages := (p_pages q)[i := -PAGEWAIT - 1],
                             p_blocked := (p_blocked q)[i := True]\<rparr>)
     else Inr (avail, q)))"

definition process_unload :: "int \<Rightarrow> process \<Rightarrow> (int \<times> process) res" where
  "process_unload avail q =
     bindR (foldR unload_page [0..<nat (p_npages q)] (avail, q)) (\<lambda>(avail', q').
     Inr (avail', q'\<lparr>p_active := False\<rparr>))"

subsection \<open>Running one step\<close>

text \<open>The two searches of \<open>process_step\<close> share this loop: \<open>Inl mid\<close> is a hit inside the loop,
  \<open>Inr (min, max)\<close> the bounds it ends with.\<close>

lemma sdiv_2_bounds: "2 * (a sdiv 2) \<le> a + 1 \<and> a - 1 \<le> 2 * (a sdiv (2::int))"
proof (cases "0 \<le> a")
  case True
  then show ?thesis by (simp add: sdiv_nonneg) presburger
next
  case False
  then have "a sdiv 2 = - ((- a) div 2)" by (simp add: signed_divide_int_def)
  then show ?thesis by presburger
qed

function bsearch :: "int \<Rightarrow> (int \<Rightarrow> int) \<Rightarrow> int \<Rightarrow> int \<Rightarrow> int + int \<times> int" where
  "bsearch key rd mn mx =
     (if mn + 1 < mx then
        let mid = (mn + mx) sdiv 2 in
        if key = rd mid then Inl mid
        else if key < rd mid then bsearch key rd mn mid
        else bsearch key rd mid mx
      else Inr (mn, mx))"
  by pat_completeness auto
termination
proof (relation "measure (\<lambda>(key, rd, mn, mx). nat (mx - mn))")
  fix key mn mx mid :: int and rd :: "int \<Rightarrow> int"
  assume *: "mn + 1 < mx" "mid = (mn + mx) sdiv 2"
  have "mn < mid" and "mid < mx" using * sdiv_2_bounds [of "mn + mx"] by linarith+
  then show "((key, rd, mn, mid), key, rd, mn, mx) \<in> measure (\<lambda>(key, rd, mn, mx). nat (mx - mn))"
    and "((key, rd, mid, mx), key, rd, mn, mx) \<in> measure (\<lambda>(key, rd, mn, mx). nat (mx - mn))"
    by simp_all
qed simp

declare bsearch.simps [simp del]

text \<open>\<open>exits[-1]\<close> is the field \<open>nexits\<close> that precedes the array. \<open>branches[-1].wherefrom\<close> lies 40
  bytes before the end of the preceding element of the program table, which is its \<open>exits[5]\<close>.\<close>

definition exit_at :: "program \<Rightarrow> int \<Rightarrow> int" where
  "exit_at g i = (if i = -1 then g_nexits g else g_exits g ! nat i)"

definition branch_from :: "program list \<Rightarrow> nat \<Rightarrow> program \<Rightarrow> int \<Rightarrow> int res" where
  "branch_from progs k g i =
     (if i = -1 then (if k = 0 then Inl Out_Of_Bounds else Inr (g_exits (progs ! (k - 1)) ! 5))
      else Inr (b_wherefrom (g_branches g ! nat i)))"

definition should_exit :: "program \<Rightarrow> int \<Rightarrow> bool" where
  "should_exit g pc =
     (case bsearch pc (exit_at g) 0 (g_nexits g - 1) of
        Inl mid \<Rightarrow> True
      | Inr (mn, mx) \<Rightarrow> pc = exit_at g mn \<or> pc = exit_at g mx)"

definition pick_branch :: "program list \<Rightarrow> nat \<Rightarrow> program \<Rightarrow> int \<Rightarrow> int option res" where
  "pick_branch progs k g pc =
     (case bsearch pc (\<lambda>i. b_wherefrom (g_branches g ! nat i)) 0 (g_nbranches g - 1) of
        Inl mid \<Rightarrow> Inr (Some mid)
      | Inr (mn, mx) \<Rightarrow>
          bindR (branch_from progs k g mn) (\<lambda>f.
          if pc = f then Inr (Some mn)
          else bindR (branch_from progs k g mx) (\<lambda>f.
          if pc = f then Inr (Some mx) else Inr None)))"

definition process_dobranch :: "program \<Rightarrow> process \<Rightarrow> int \<Rightarrow> (bool \<times> process) res" where
  "process_dobranch g q j =
     bindR (idx (g_branches g) j) (\<lambda>b.
     bindR (idx (p_bcontexts q) j) (\<lambda>c.
     bindR (bcontext_decide c) (\<lambda>(d, c').
     let q1 = q\<lparr>p_bcontexts := (p_bcontexts q)[nat j := c']\<rparr>;
         q2 = (if d \<noteq> 0 then q1\<lparr>p_pc := b_whereto b\<rparr> else q1\<lparr>p_pc := p_pc q1 + 1\<rparr>);
         q3 = (if p_pc q2 < 0 \<or> p_pc q2 \<ge> g_size g then q2\<lparr>p_pc := 0\<rparr> else q2)
     in Inr (True, q3))))"

definition process_step :: "program list \<Rightarrow> process \<Rightarrow> (bool \<times> process) res" where
  "process_step progs q =
     (let pc = p_pc q; page = p_pc q sdiv PAGESIZE in
      if \<not> p_active q then Inr (False, q)
      else bindR (idx (p_pages q) page) (\<lambda>st.
        if st \<noteq> 0 then
          let q1 = (if \<not> p_blocked q ! nat page
                    then q\<lparr>p_blocked := (p_blocked q)[nat page := True]\<rparr> else q)
          in Inr (True, q1\<lparr>p_block := p_block q1 + 1\<rparr>)
        else
          let q1 = (if p_blocked q ! nat page
                    then q\<lparr>p_blocked := (p_blocked q)[nat page := False]\<rparr> else q);
              q2 = q1\<lparr>p_compute := p_compute q1 + 1\<rparr>
          in case p_program q2 of None \<Rightarrow> Inl Null_Deref
             | Some k \<Rightarrow>
          bindR (idx progs (int k)) (\<lambda>g.
          bindR (assertR Assert_Failed (g_nexits g \<ge> 0 \<and> g_nexits g \<le> int MAXEXITS)) (\<lambda>_.
          if should_exit g pc then Inr (False, q2)
          else
          bindR (assertR Assert_Failed (g_nbranches g \<ge> 0 \<and> g_nbranches g \<le> int MAXBRANCHES)) (\<lambda>_.
          bindR (pick_branch progs k g pc) (\<lambda>r.
          case r of Some j \<Rightarrow> process_dobranch g q2 j
          | None \<Rightarrow>
              let q3 = q2\<lparr>p_pc := p_pc q2 + 1\<rparr>
              in Inr (True, if p_pc q3 < 0 \<or> p_pc q3 > g_size g then q3\<lparr>p_pc := 0\<rparr> else q3)))))))"

subsection \<open>The searches find what a linear scan would\<close>

definition ascending :: "(int \<Rightarrow> int) \<Rightarrow> int \<Rightarrow> int \<Rightarrow> bool" where
  "ascending rd mn mx \<longleftrightarrow> (\<forall>i j. mn \<le> i \<longrightarrow> i < j \<longrightarrow> j \<le> mx \<longrightarrow> rd i < rd j)"

lemma bsearch_hit: "bsearch key rd mn mx = Inl i \<Longrightarrow> mn < i \<and> i < mx \<and> rd i = key"
proof (induction key rd mn mx rule: bsearch.induct)
  case (1 key rd mn mx)
  define mid where "mid = (mn + mx) sdiv 2"
  have b: "mn < mid \<and> mid < mx" if "mn + 1 < mx"
    using that sdiv_2_bounds [of "mn + mx"] unfolding mid_def by linarith
  show ?case
    using "1.prems" "1.IH" [OF _ mid_def] b
    by (force simp: bsearch.simps [of key rd mn mx] mid_def [symmetric] Let_def split: if_splits)
qed

lemma bsearch_bounds:
  "bsearch key rd mn mx = Inr (lo, hi) \<Longrightarrow> mn \<le> mx \<Longrightarrow> mn \<le> lo \<and> lo \<le> hi \<and> hi \<le> mx"
proof (induction key rd mn mx rule: bsearch.induct)
  case (1 key rd mn mx)
  define mid where "mid = (mn + mx) sdiv 2"
  have b: "mn < mid \<and> mid < mx" if "mn + 1 < mx"
    using that sdiv_2_bounds [of "mn + mx"] unfolding mid_def by linarith
  show ?case
    using "1.prems" "1.IH" [OF _ mid_def] b
    by (force simp: bsearch.simps [of key rd mn mx] mid_def [symmetric] Let_def split: if_splits)
qed

lemma bsearch_complete:
  assumes "ascending rd mn mx" and "mn \<le> t" and "t \<le> mx" and "rd t = key"
  shows "bsearch key rd mn mx = Inl t \<or> (\<exists>lo hi. bsearch key rd mn mx = Inr (lo, hi) \<and> t \<in> {lo, hi})"
  using assms
proof (induction key rd mn mx rule: bsearch.induct)
  case (1 key rd mn mx)
  define mid where "mid = (mn + mx) sdiv 2"
  show ?case
  proof (cases "mn + 1 < mx")
    case True
    have b: "mn < mid" "mid < mx"
      using True sdiv_2_bounds [of "mn + mx"] unfolding mid_def by linarith+
    have sub: "ascending rd mn mid" "ascending rd mid mx"
      using "1.prems"(1) b by (auto simp: ascending_def)
    have asc: "i < j \<Longrightarrow> mn \<le> i \<Longrightarrow> j \<le> mx \<Longrightarrow> rd i < rd j" for i j
      using "1.prems"(1) by (simp add: ascending_def)
    consider "t = mid" | "t < mid" | "mid < t" by linarith
    then show ?thesis
    proof cases
      case 1
      then show ?thesis using True "1.prems"(4)
        by (simp add: bsearch.simps [of key rd mn mx] mid_def [symmetric] Let_def)
    next
      case 2
      then have "key < rd mid" using asc [of t mid] "1.prems"(2,4) b by simp
      then show ?thesis
        using True "1.IH"(1) [OF True mid_def] sub(1) "1.prems"(2,4) 2
        by (simp add: bsearch.simps [of key rd mn mx] mid_def [symmetric] Let_def)
    next
      case 3
      then have "rd mid < key" using asc [of mid t] "1.prems"(3,4) b by simp
      then show ?thesis
        using True "1.IH"(2) [OF True mid_def] sub(2) "1.prems"(3,4) 3
        by (simp add: bsearch.simps [of key rd mn mx] mid_def [symmetric] Let_def)
    qed
  next
    case False
    then have "t = mn \<or> t = mx" using "1.prems"(2,3) by linarith
    then show ?thesis using False by (auto simp: bsearch.simps [of key rd mn mx])
  qed
qed

subsection \<open>Well-formed programs and processes\<close>

definition wf_program :: "program \<Rightarrow> bool" where
  "wf_program g \<longleftrightarrow> length (g_branches g) = MAXBRANCHES \<and> length (g_exits g) = MAXEXITS
     \<and> 0 \<le> g_nbranches g \<and> g_nbranches g < int MAXBRANCHES \<and> 1 \<le> g_nexits g \<and> g_nexits g \<le> int MAXEXITS
     \<and> 0 \<le> g_size g \<and> g_size g < int MAXPROCPAGES * PAGESIZE
     \<and> sorted_wrt (<) (map b_wherefrom (take (nat (g_nbranches g)) (g_branches g)))
     \<and> sorted_wrt (<) (take (nat (g_nexits g)) (g_exits g))
     \<and> list_all (\<lambda>b. b_btype b = IF \<longrightarrow> fair (b_prob b)) (take (nat (g_nbranches g)) (g_branches g))"

text \<open>A program without branches relies on what lies around its \<open>branches\<close> array.\<close>

definition wf_link :: "program list \<Rightarrow> nat \<Rightarrow> bool" where
  "wf_link progs k \<longleftrightarrow> g_nbranches (progs ! k) = 0 \<longrightarrow>
     k > 0 \<and> g_exits (progs ! (k - 1)) ! 5 = 0 \<and> b_wherefrom (g_branches (progs ! k) ! 0) = 0"

definition wf_programs :: "program list \<Rightarrow> bool" where
  "wf_programs progs \<longleftrightarrow> (\<forall>k < length progs. wf_program (progs ! k) \<and> wf_link progs k)"

lemmas programs_eval = programs_def mk_program_def mk_branch_def zero_branch_def

lemma wf_programs_programs: "wf_programs programs"
  unfolding wf_programs_def
  by (simp add: programs_eval less_Suc_eq all_conj_distrib imp_disjL disj_imp wf_program_def wf_link_def
      fair_def numeral_eq_Suc nth_Cons')

definition wf_process :: "program list \<Rightarrow> process \<Rightarrow> bool" where
  "wf_process progs q \<longleftrightarrow>
     (case p_program q of None \<Rightarrow> False
      | Some k \<Rightarrow> k < length progs \<and> 0 \<le> p_pc q \<and> p_pc q \<le> g_size (progs ! k))
     \<and> length (p_bcontexts q) = MAXBRANCHES \<and> list_all wf_bcontext (p_bcontexts q)
     \<and> p_npages q = int MAXPROCPAGES \<and> length (p_pages q) = MAXPROCPAGES
     \<and> length (p_blocked q) = MAXPROCPAGES
     \<and> list_all (\<lambda>v. -PAGEWAIT - 1 \<le> v \<and> v \<le> PAGEWAIT) (p_pages q)"

definition cur_page :: "process \<Rightarrow> nat" where
  "cur_page q = nat (p_pc q div PAGESIZE)"

lemma wf_process_prog:
  "wf_process progs q \<Longrightarrow> wf_programs progs \<Longrightarrow>
   \<exists>k. p_program q = Some k \<and> k < length progs \<and> wf_program (progs ! k) \<and> wf_link progs k
     \<and> 0 \<le> p_pc q \<and> p_pc q \<le> g_size (progs ! k)"
  by (auto simp: wf_process_def wf_programs_def split: option.splits)

lemma wf_process_page:
  assumes "wf_process progs q" and "wf_programs progs"
  shows "p_pc q sdiv PAGESIZE = int (cur_page q)" and "cur_page q < MAXPROCPAGES"
  using wf_process_prog [OF assms] by (auto simp: cur_page_def sdiv_nonneg wf_program_def)

lemma ascending_list:
  assumes "sorted_wrt (<) (map f (take n xs))" and "n \<le> length xs"
  shows "ascending (\<lambda>i. f (xs ! nat i)) 0 (int n - 1)"
  using assms sorted_wrt_nth_less [OF assms(1)] by (auto simp: ascending_def)

lemma should_exit_iff:
  assumes "wf_program g"
  shows "should_exit g pc \<longleftrightarrow> pc \<in> set (take (nat (g_nexits g)) (g_exits g))"
proof -
  let ?n = "nat (g_nexits g)"
  have n: "1 \<le> g_nexits g" "g_nexits g \<le> 10" "length (g_exits g) = 10"
    using assms by (simp_all add: wf_program_def)
  have "ascending (\<lambda>i. g_exits g ! nat i) 0 (int ?n - 1)"
    using ascending_list [of id ?n "g_exits g"] assms
    by (simp add: wf_program_def nat_le_iff)
  then have asc: "ascending (exit_at g) 0 (g_nexits g - 1)"
    using n by (simp add: ascending_def exit_at_def)
  have mem: "pc \<in> set (take ?n (g_exits g)) \<longleftrightarrow> (\<exists>t. 0 \<le> t \<and> t \<le> g_nexits g - 1 \<and> exit_at g t = pc)"
  proof
    assume "pc \<in> set (take ?n (g_exits g))"
    then obtain i where "i < ?n" "g_exits g ! i = pc" using n by (auto simp: in_set_conv_nth)
    then show "\<exists>t. 0 \<le> t \<and> t \<le> g_nexits g - 1 \<and> exit_at g t = pc"
      by (intro exI [of _ "int i"]) (auto simp: exit_at_def)
  next
    assume "\<exists>t. 0 \<le> t \<and> t \<le> g_nexits g - 1 \<and> exit_at g t = pc"
    then obtain t where t: "0 \<le> t" "t \<le> g_nexits g - 1" "exit_at g t = pc" by blast
    then show "pc \<in> set (take ?n (g_exits g))"
      using n by (auto simp: exit_at_def in_set_conv_nth intro!: exI [of _ "nat t"])
  qed
  show ?thesis
  proof (cases "bsearch pc (exit_at g) 0 (g_nexits g - 1)")
    case (Inl mid)
    then show ?thesis
      using bsearch_hit [OF Inl] by (auto simp: should_exit_def mem intro!: exI [of _ mid])
  next
    case (Inr p)
    then obtain lo hi where p: "bsearch pc (exit_at g) 0 (g_nexits g - 1) = Inr (lo, hi)"
      by (cases p) auto
    have "0 \<le> lo \<and> lo \<le> hi \<and> hi \<le> g_nexits g - 1" using bsearch_bounds [OF p] n by simp
    moreover have "t \<in> {lo, hi}" if "0 \<le> t" "t \<le> g_nexits g - 1" "exit_at g t = pc" for t
      using bsearch_complete [OF asc that] p by auto
    moreover have "\<exists>t. 0 \<le> t \<and> t \<le> g_nexits g - 1 \<and> exit_at g t = pc"
      if "pc = exit_at g lo \<or> pc = exit_at g hi"
      using that calculation(1) by (auto intro: exI [of _ lo] exI [of _ hi])
    moreover have "should_exit g pc \<longleftrightarrow> pc = exit_at g lo \<or> pc = exit_at g hi"
      by (simp add: should_exit_def p)
    ultimately show ?thesis unfolding mem by blast
  qed
qed

text \<open>The specification of the branch search: the first entry with the given \<open>wherefrom\<close>.\<close>

definition branch_index :: "program \<Rightarrow> int \<Rightarrow> int option" where
  "branch_index g pc =
     map_option int (List.find (\<lambda>i. b_wherefrom (g_branches g ! i) = pc) [0..<nat (g_nbranches g)])"

lemma branch_index_None:
  "branch_index g pc = None \<longleftrightarrow> (\<forall>i. 0 \<le> i \<and> i < g_nbranches g \<longrightarrow> b_wherefrom (g_branches g ! nat i) \<noteq> pc)"
  using all_below_nat [of "g_nbranches g" "\<lambda>i. b_wherefrom (g_branches g ! i) \<noteq> pc"]
  by (simp add: branch_index_def find_None_iff)

lemma branch_index_Some:
  "branch_index g pc = Some j \<Longrightarrow> 0 \<le> j \<and> j < g_nbranches g \<and> b_wherefrom (g_branches g ! nat j) = pc"
  by (auto simp: branch_index_def find_Some_iff)

lemma branch_index_unique:
  assumes "wf_program g" and "0 \<le> j" and "j < g_nbranches g" and "b_wherefrom (g_branches g ! nat j) = pc"
  shows "branch_index g pc = Some j"
proof (cases "branch_index g pc")
  case None
  then show ?thesis using assms branch_index_None by blast
next
  case (Some i)
  have asc: "ascending (\<lambda>i. b_wherefrom (g_branches g ! nat i)) 0 (int (nat (g_nbranches g)) - 1)"
    using assms(1) by (intro ascending_list) (auto simp: wf_program_def)
  have i: "0 \<le> i" "i < g_nbranches g" "b_wherefrom (g_branches g ! nat i) = pc"
    using branch_index_Some [OF Some] by simp_all
  have "\<not> i < j" "\<not> j < i"
    using asc [unfolded ascending_def, rule_format, of i j]
      asc [unfolded ascending_def, rule_format, of j i] i assms by auto
  then show ?thesis using Some by simp
qed

lemma pick_branch_spec:
  assumes "wf_program g" and "1 \<le> g_nbranches g"
  shows "pick_branch progs k g pc = Inr (branch_index g pc)"
proof -
  let ?rd = "\<lambda>i. b_wherefrom (g_branches g ! nat i)"
  have asc: "ascending ?rd 0 (g_nbranches g - 1)"
    using ascending_list [of b_wherefrom "nat (g_nbranches g)" "g_branches g"] assms
    by (simp add: wf_program_def nat_le_iff)
  show ?thesis
  proof (cases "bsearch pc ?rd 0 (g_nbranches g - 1)")
    case (Inl mid)
    then show ?thesis
      using bsearch_hit [OF Inl] branch_index_unique [OF assms(1), of mid pc] by (simp add: pick_branch_def)
  next
    case (Inr p)
    then obtain lo hi where p: "bsearch pc ?rd 0 (g_nbranches g - 1) = Inr (lo, hi)"
      by (cases p) auto
    have r: "0 \<le> lo" "lo \<le> hi" "hi \<le> g_nbranches g - 1"
      using bsearch_bounds [OF p] assms(2) by simp_all
    then have f: "branch_from progs k g lo = Inr (?rd lo)" "branch_from progs k g hi = Inr (?rd hi)"
      by (simp_all add: branch_from_def)
    have "t \<in> {lo, hi}" if "0 \<le> t" "t \<le> g_nbranches g - 1" "?rd t = pc" for t
      using bsearch_complete [OF asc that] p by auto
    then have "branch_index g pc = None" if "pc \<noteq> ?rd lo" "pc \<noteq> ?rd hi"
      using that by (subst branch_index_None) force
    moreover have "branch_index g pc = Some lo" if "pc = ?rd lo"
      using r that by (intro branch_index_unique [OF assms(1)]) auto
    moreover have "branch_index g pc = Some hi" if "pc = ?rd hi"
      using r that by (intro branch_index_unique [OF assms(1)]) auto
    ultimately show ?thesis
      using f by (simp add: pick_branch_def p)
  qed
qed

text \<open>Without branches the search still compares \<open>branches[0]\<close> and \<open>branches[-1]\<close>: address 0 looks
  like the source of a branch.\<close>

lemma pick_branch_none:
  assumes "wf_link progs k" and "g_nbranches (progs ! k) = 0"
  shows "pick_branch progs k (progs ! k) pc = Inr (if pc = 0 then Some 0 else None)"
  using assms by (simp add: pick_branch_def wf_link_def bsearch.simps [of pc _ 0 "-1"] branch_from_def)

definition branch_taken :: "program \<Rightarrow> int \<Rightarrow> int option" where
  "branch_taken g pc = (if g_nbranches g = 0 then (if pc = 0 then Some 0 else None) else branch_index g pc)"

lemma pick_branch_taken:
  assumes "wf_programs progs" and "k < length progs"
  shows "pick_branch progs k (progs ! k) pc = Inr (branch_taken (progs ! k) pc)"
proof (cases "g_nbranches (progs ! k) = 0")
  case True
  then show ?thesis using assms pick_branch_none by (simp add: branch_taken_def wf_programs_def)
next
  case False
  then have "1 \<le> g_nbranches (progs ! k)"
    using assms by (force simp: wf_programs_def wf_program_def)
  then show ?thesis
    using False assms pick_branch_spec by (simp add: branch_taken_def wf_programs_def)
qed

lemma branch_taken_range:
  "wf_program g \<Longrightarrow> branch_taken g pc = Some j \<Longrightarrow> 0 \<le> j \<and> j < int MAXBRANCHES"
  using branch_index_Some [of g pc j] by (auto simp: branch_taken_def wf_program_def split: if_splits)

subsection \<open>What each operation does\<close>

definition wrap_branch :: "program \<Rightarrow> int \<Rightarrow> int" where
  "wrap_branch g pc = (if pc < 0 \<or> pc \<ge> g_size g then 0 else pc)"

definition wrap_step :: "program \<Rightarrow> int \<Rightarrow> int" where
  "wrap_step g pc = (if pc < 0 \<or> pc > g_size g then 0 else pc)"

text \<open>The process as a step on a resident page leaves it before the program counter moves.\<close>

definition ticked :: "process \<Rightarrow> process" where
  "ticked q = q\<lparr>p_blocked := (p_blocked q)[cur_page q := False], p_compute := p_compute q + 1\<rparr>"

definition stalled :: "process \<Rightarrow> process" where
  "stalled q = q\<lparr>p_blocked := (p_blocked q)[cur_page q := True], p_block := p_block q + 1\<rparr>"

lemma process_dobranch_spec:
  assumes "wf_program g" and "branch_taken g pc = Some j" and "length (p_bcontexts q) = MAXBRANCHES"
    and "list_all wf_bcontext (p_bcontexts q)"
  shows "\<exists>d c'. bcontext_decide (p_bcontexts q ! nat j) = Inr (d, c') \<and> wf_bcontext c'
    \<and> process_dobranch g q j = Inr (True, q\<lparr>p_bcontexts := (p_bcontexts q)[nat j := c'],
        p_pc := wrap_branch g (if d \<noteq> 0 then b_whereto (g_branches g ! nat j) else p_pc q + 1)\<rparr>)"
proof -
  have j: "0 \<le> j" "j < 40" using branch_taken_range [OF assms(1,2)] by simp_all
  then have "wf_bcontext (p_bcontexts q ! nat j)" using assms(3,4) by (simp add: list_all_length)
  then obtain d c' where d: "bcontext_decide (p_bcontexts q ! nat j) = Inr (d, c')" "wf_bcontext c'"
    using bcontext_decide_wf by (fastforce simp: okR_iff)
  moreover have "length (g_branches g) = 40" using assms(1) by (simp add: wf_program_def)
  ultimately show ?thesis
    using j assms(3) by (auto simp: process_dobranch_def Let_def wrap_branch_def)
qed

text \<open>The behaviour of a step on every branch of the code.\<close>

lemma process_step_inactive: "\<not> p_active q \<Longrightarrow> process_step progs q = Inr (False, q)"
  by (simp add: process_step_def Let_def)

lemma list_update_same: "xs ! i = x \<Longrightarrow> xs[i := x] = xs"
  by auto

lemma process_step_stalled:
  assumes "wf_programs progs" and "wf_process progs q" and "p_active q" and "p_pages q ! cur_page q \<noteq> 0"
  shows "process_step progs q = Inr (True, stalled q)"
proof -
  have "length (p_pages q) = 20" using assms(2) by (simp add: wf_process_def)
  then show ?thesis
    using assms wf_process_page [OF assms(2,1)]
    by (cases q) (auto simp: process_step_def Let_def stalled_def list_update_same)
qed

lemma process_step_running:
  assumes "wf_programs progs" and "wf_process progs q" and "p_active q" and "p_pages q ! cur_page q = 0"
    and "p_program q = Some k" and "g = progs ! k"
  shows "process_step progs q =
     (if p_pc q \<in> set (take (nat (g_nexits g)) (g_exits g)) then Inr (False, ticked q)
      else case branch_taken g (p_pc q) of
        Some j \<Rightarrow> process_dobranch g (ticked q) j
      | None \<Rightarrow> Inr (True, (ticked q)\<lparr>p_pc := wrap_step g (p_pc q + 1)\<rparr>))"
proof -
  have k: "k < length progs" and g: "wf_program g"
    using wf_process_prog [OF assms(2,1)] assms(5,6) by auto
  have "length (p_pages q) = 20" using assms(2) by (simp add: wf_process_def)
  moreover have "(if p_blocked q ! cur_page q then q\<lparr>p_blocked := (p_blocked q)[cur_page q := False]\<rparr> else q)
      \<lparr>p_compute := p_compute q + 1\<rparr> = ticked q"
    by (cases q) (auto simp: ticked_def list_update_same)
  moreover have "0 \<le> g_nexits g" "g_nexits g \<le> 10" "0 \<le> g_nbranches g" "g_nbranches g \<le> 40"
    using g by (simp_all add: wf_program_def)
  ultimately show ?thesis
    using assms(3-6) k g wf_process_page [OF assms(2,1)] should_exit_iff [OF g]
      pick_branch_taken [OF assms(1) k]
    by (auto simp: process_step_def Let_def wrap_step_def ticked_def list_update_same split: option.split)
qed

lemmas process_step_cases = process_step_inactive process_step_stalled process_step_running

subsection \<open>Well-formedness is kept\<close>

text \<open>What a step leaves alone: the memory state of the process and everything that identifies it.\<close>

definition same_memory :: "process \<Rightarrow> process \<Rightarrow> bool" where
  "same_memory q q' \<longleftrightarrow> p_pages q' = p_pages q \<and> p_npages q' = p_npages q \<and> p_active q' = p_active q
     \<and> p_program q' = p_program q \<and> p_pid q' = p_pid q \<and> p_kind q' = p_kind q"

lemma same_memory_refl [simp]: "same_memory q q"
  by (simp add: same_memory_def)

lemma wf_process_ticked: "wf_process progs (ticked q) \<longleftrightarrow> wf_process progs q"
  and wf_process_stalled: "wf_process progs (stalled q) \<longleftrightarrow> wf_process progs q"
  by (simp_all add: wf_process_def ticked_def stalled_def split: option.split)

lemma same_memory_ticked: "same_memory q (ticked q)"
  and same_memory_stalled: "same_memory q (stalled q)"
  by (simp_all add: same_memory_def ticked_def stalled_def)

lemma ticked_simps [simp]:
  "p_pc (ticked q) = p_pc q" "p_bcontexts (ticked q) = p_bcontexts q" "p_program (ticked q) = p_program q"
  by (simp_all add: ticked_def)

lemma wrap_bounds:
  "0 \<le> g_size g \<Longrightarrow> 0 \<le> wrap_branch g pc \<and> wrap_branch g pc \<le> g_size g"
  "0 \<le> g_size g \<Longrightarrow> 0 \<le> wrap_step g pc \<and> wrap_step g pc \<le> g_size g"
  by (auto simp: wrap_branch_def wrap_step_def)

lemma process_step_wf:
  assumes "wf_programs progs" and "wf_process progs q"
  shows "okR (process_step progs q) (\<lambda>(r, q'). wf_process progs q' \<and> same_memory q q')"
proof (cases "p_active q \<and> p_pages q ! cur_page q = 0")
  case False
  then show ?thesis
    using assms process_step_stalled [OF assms] process_step_inactive [of q progs]
    by (cases "p_active q") (auto simp: wf_process_stalled same_memory_stalled)
next
  case run: True
  obtain k where k: "p_program q = Some k" "k < length progs" and g: "wf_program (progs ! k)"
    using wf_process_prog [OF assms(2,1)] by blast
  let ?g = "progs ! k"
  have wf: "wf_process progs (ticked q)" using assms(2) by (simp add: wf_process_ticked)
  have sz: "0 \<le> g_size ?g" using g by (simp add: wf_program_def)
  note step = process_step_running [OF assms _ _ k(1) refl]
  show ?thesis
  proof (cases "branch_taken ?g (p_pc q)")
    case None
    then show ?thesis
      using run wf wrap_bounds(2) [OF sz, of "p_pc q + 1"] k same_memory_ticked [of q]
      by (auto simp: step wf_process_def same_memory_def)
  next
    case (Some j)
    have l: "length (p_bcontexts (ticked q)) = 40" "list_all wf_bcontext (p_bcontexts (ticked q))"
      using wf by (simp_all add: wf_process_def)
    obtain d :: int and c' where "wf_bcontext c'"
      and db: "process_dobranch ?g (ticked q) j = Inr (True, (ticked q)\<lparr>
          p_bcontexts := (p_bcontexts (ticked q))[nat j := c'],
          p_pc := wrap_branch ?g (if d \<noteq> 0 then b_whereto (g_branches ?g ! nat j) else p_pc (ticked q) + 1)\<rparr>)"
      using process_dobranch_spec [OF g Some l] by blast
    then have "list_all wf_bcontext ((p_bcontexts q)[nat j := c'])"
      using assms(2) by (intro list_all_update) (simp_all add: wf_process_def)
    then show ?thesis
      using run wf wrap_bounds(1) [OF sz] k same_memory_ticked [of q] db Some
      by (simp add: step wf_process_def same_memory_def)
  qed
qed

text \<open>Loading a cleared process.\<close>

definition fresh_pages :: "int list" where
  "fresh_pages = replicate MAXPROCPAGES (-PAGEWAIT - 1)"

lemma process_load_wf:
  assumes "wf_programs progs" and "p < length progs" and "length (p_bcontexts q) = MAXBRANCHES"
  shows "okR (process_load progs (process_clear q) p pid kind x) (\<lambda>(q', x'). wf_process progs q'
    \<and> p_active q' \<and> p_pages q' = fresh_pages \<and> p_pc q' = 0 \<and> p_program q' = Some p
    \<and> p_pid q' = pid \<and> p_kind q' = kind \<and> p_compute q' = 0 \<and> p_block q' = 0)"
proof -
  let ?g = "progs ! p"
  have g: "wf_program ?g" using assms by (simp add: wf_programs_def)
  let ?I = "\<lambda>i (cs, x :: rand48). length cs = MAXBRANCHES \<and> list_all wf_bcontext cs
     \<and> (\<forall>j < MAXBRANCHES. i \<le> j \<longrightarrow> cleared (cs ! j))"
  have "okR (foldR (\<lambda>i (cs, x). bcontext_init cs i (g_branches ?g ! i) x) [0..<nat (g_nbranches ?g)]
      (map bcontext_clear (p_bcontexts q), x)) (?I (nat (g_nbranches ?g)))"
  proof (rule okR_foldR_upt [where I = ?I])
    show "?I 0 (map bcontext_clear (p_bcontexts q), x)"
      using assms(3) by (simp add: list_all_iff wf_bcontext_clear)
  next
    fix i and s :: "bcontext list \<times> rand48"
    assume i: "i < nat (g_nbranches ?g)" and I: "?I i s"
    obtain cs x where s: "s = (cs, x)" by fastforce
    have lt: "i < 40" "i < length (g_branches ?g)" using i g by (auto simp: wf_program_def)
    have "g_branches ?g ! i \<in> set (take (nat (g_nbranches ?g)) (g_branches ?g))"
      using i lt by (auto simp: in_set_conv_nth intro!: exI [of _ i])
    then have fair: "b_btype (g_branches ?g ! i) = IF \<longrightarrow> fair (b_prob (g_branches ?g ! i))"
      using g by (auto simp: wf_program_def list_all_iff)
    have *: "okR (bcontext_init cs i (g_branches ?g ! i) x) (\<lambda>(cs', x'). length cs' = length cs
       \<and> wf_bcontext (cs' ! i) \<and> (\<forall>j. j \<noteq> i \<longrightarrow> same_but_btype (cs ! j) (cs' ! j)))"
      using I lt fair by (intro bcontext_init_wf) (auto simp: s)
    have next_inv: "?I (Suc i) (cs', x')"
      if h: "length cs' = length cs" "wf_bcontext (cs' ! i)"
        "\<forall>j. j \<noteq> i \<longrightarrow> same_but_btype (cs ! j) (cs' ! j)" for cs' and x' :: rand48
    proof -
      have "wf_bcontext (cs' ! j)" if "j < 40" for j
        using h I that same_but_btype_wf [of "cs ! j" "cs' ! j"]
        by (cases "j = i") (auto simp: s list_all_length)
      moreover have "cleared (cs' ! j)" if "j < 40" "Suc i \<le> j" for j
        using h I that same_but_btype_cleared [of "cs ! j" "cs' ! j"] by (auto simp: s)
      ultimately show ?thesis using h I by (simp add: s list_all_length)
    qed
    show "okR (case s of (cs, x) \<Rightarrow> bcontext_init cs i (g_branches ?g ! i) x) (?I (Suc i))"
      unfolding s prod.case by (rule okR_mono [OF *]) (use next_inv in blast)
  qed simp
  then show ?thesis
    using assms(2) g
    by (auto simp: process_load_def process_clear_def wf_process_def wf_program_def fresh_pages_def
        Let_def elim!: okR_mono)
qed

text \<open>The complete case analysis of a step.\<close>

lemma process_step_spec:
  assumes "wf_programs progs" and "wf_process progs q"
  shows "okR (process_step progs q) (\<lambda>(r, q'). wf_process progs q' \<and> same_memory q q'
    \<and> (let g = progs ! the (p_program q); pc = p_pc q in
       if \<not> p_active q then \<not> r \<and> q' = q
       else if p_pages q ! cur_page q \<noteq> 0 then r \<and> q' = stalled q
       else if pc \<in> set (take (nat (g_nexits g)) (g_exits g)) then \<not> r \<and> q' = ticked q
       else case branch_taken g pc of
           None \<Rightarrow> r \<and> q' = (ticked q)\<lparr>p_pc := wrap_step g (pc + 1)\<rparr>
         | Some j \<Rightarrow> \<exists>d c'. bcontext_decide (p_bcontexts q ! nat j) = Inr (d, c')
             \<and> r \<and> q' = (ticked q)\<lparr>p_bcontexts := (p_bcontexts q)[nat j := c'],
                   p_pc := wrap_branch g (if d \<noteq> 0 then b_whereto (g_branches g ! nat j) else pc + 1)\<rparr>))"
proof -
  obtain k where k: "p_program q = Some k" and g: "wf_program (progs ! k)"
    using wf_process_prog [OF assms(2,1)] by blast
  have l: "length (p_bcontexts (ticked q)) = 40" "list_all wf_bcontext (p_bcontexts (ticked q))"
    using assms(2) by (simp_all add: wf_process_def)
  show ?thesis
  proof (cases "p_active q \<and> p_pages q ! cur_page q = 0")
    case False
    then show ?thesis
      using process_step_wf [OF assms] process_step_inactive [of q progs] process_step_stalled [OF assms] k
      by (cases "p_active q") (simp_all add: Let_def)
  next
    case True
    then have run: "p_active q" "p_pages q ! cur_page q = 0" by simp_all
    show ?thesis
      using process_step_wf [OF assms] process_dobranch_spec [OF g _ l, of "p_pc q"] run
      unfolding process_step_running [OF assms run k refl]
      by (fastforce simp: Let_def k split: option.splits if_splits)
  qed
qed

subsection \<open>Frames\<close>

text \<open>A page of a process holds a frame of physical memory from the start of its page-in until its
  page-out is complete.\<close>

definition holds_frame :: "int \<Rightarrow> int" where
  "holds_frame v = (if v \<ge> -PAGEWAIT then 1 else 0)"

definition frames :: "process \<Rightarrow> int" where
  "frames q = sum_list (map holds_frame (p_pages q))"

lemma frames_nonneg: "0 \<le> frames q"
  unfolding frames_def by (rule sum_list_nonneg) (auto simp: holds_frame_def)

lemma frames_le: "length (p_pages q) = n \<Longrightarrow> frames q \<le> int n"
proof -
  have "sum_list (map holds_frame xs) \<le> int (length xs)" for xs
    by (induction xs) (auto simp: holds_frame_def)
  then show "length (p_pages q) = n \<Longrightarrow> frames q \<le> int n" unfolding frames_def by blast
qed

lemma frames_fresh [simp]: "p_pages q = fresh_pages \<Longrightarrow> frames q = 0"
  by (simp add: frames_def fresh_pages_def holds_frame_def sum_list_replicate)

lemma frames_same_memory: "same_memory q q' \<Longrightarrow> frames q' = frames q"
  by (simp add: frames_def same_memory_def)

lemma frames_update:
  "i < length (p_pages q) \<Longrightarrow> p_pages q' = (p_pages q)[i := v] \<Longrightarrow>
   frames q' = frames q - holds_frame (p_pages q ! i) + holds_frame v"
  by (simp add: frames_def sum_list_map_update)

lemma process_unload_spec:
  assumes "wf_process progs q"
  shows "okR (process_unload avail q) (\<lambda>(avail', q'). avail' = avail + frames q \<and> frames q' = 0
    \<and> wf_process progs q' \<and> p_pages q' = fresh_pages \<and> \<not> p_active q' \<and> p_pc q' = p_pc q
    \<and> p_compute q' = p_compute q \<and> p_block q' = p_block q \<and> p_program q' = p_program q \<and> p_pid q' = p_pid q)"
proof -
  let ?J = "\<lambda>i a q'. a + frames q' = avail + frames q \<and> wf_process progs q'
     \<and> (\<forall>j < i. p_pages q' ! j = -PAGEWAIT - 1)
     \<and> p_pc q' = p_pc q \<and> p_compute q' = p_compute q \<and> p_block q' = p_block q
     \<and> p_program q' = p_program q \<and> p_pid q' = p_pid q"
  let ?I = "\<lambda>i (a, q'). ?J i a q'"
  have step: "okR (unload_page i (a, q')) (?I (Suc i))" if "i < 20" "?I i (a, q')" for i a q'
  proof -
    have len: "length (p_pages q') = 20" and lo: "-101 \<le> p_pages q' ! i"
      using that by (auto simp: wf_process_def list_all_length)
    let ?q = "q'\<lparr>p_pages := (p_pages q')[i := -PAGEWAIT - 1], p_blocked := (p_blocked q')[i := True]\<rparr>"
    have "frames ?q = frames q' - holds_frame (p_pages q' ! i)"
      using that(1) len frames_update [of i q' ?q] by (simp add: holds_frame_def)
    moreover have "wf_process progs ?q"
      using that(2) by (auto simp: wf_process_def intro: list_all_update split: option.splits)
    ultimately show ?thesis
      using that len lo by (auto simp: unload_page_def less_Suc_eq holds_frame_def)
  qed
  have main: "okR (foldR unload_page [0..<20] (avail, q)) (?I 20)"
    by (rule okR_foldR_upt [where I = ?I]) (use assms step in auto)
  have np: "nat (p_npages q) = 20" using assms by (simp add: wf_process_def)
  have fin: "a = avail + frames q \<and> frames q2 = 0 \<and> wf_process progs q2 \<and> p_pages q2 = fresh_pages
      \<and> \<not> p_active q2 \<and> p_pc q2 = p_pc q \<and> p_compute q2 = p_compute q \<and> p_block q2 = p_block q
      \<and> p_program q2 = p_program q \<and> p_pid q2 = p_pid q"
    if I: "?J 20 a q'" and q2: "q2 = q'\<lparr>p_active := False\<rparr>" for a q' q2
  proof -
    have fresh: "p_pages q' = fresh_pages"
      using I by (intro nth_equalityI) (simp_all add: fresh_pages_def wf_process_def)
    then have "frames q' = 0" by simp
    moreover have "wf_process progs q2" using I by (simp add: q2 wf_process_def split: option.splits)
    ultimately show ?thesis using I fresh by (simp add: q2)
  qed
  show ?thesis
    unfolding process_unload_def okR_bind np
    by (rule okR_mono [OF main], simp only: split_paired_all prod.case okR_simps)
      (rule fin, assumption, rule refl)
qed

subsection \<open>Properties\<close>



text \<open>A process at address \<open>pc\<close> of program \<open>k\<close> with all its pages in memory.\<close>

definition resident_process :: "nat \<Rightarrow> int \<Rightarrow> process" where
  "resident_process k pc = \<lparr>p_program = Some k, p_nbcontexts = 0,
     p_bcontexts = replicate MAXBRANCHES (bcontext_clear zero_bcontext), p_pc = pc,
     p_npages = int MAXPROCPAGES, p_pages = replicate MAXPROCPAGES 0,
     p_blocked = replicate MAXPROCPAGES False, p_active = True, p_compute = 0, p_block = 0,
     p_pid = 0, p_kind = int k\<rparr>"

lemma wf_resident_process:
  "k < length programs \<Longrightarrow> 0 \<le> pc \<Longrightarrow> pc \<le> g_size (programs ! k) \<Longrightarrow> wf_process programs (resident_process k pc)"
  by (simp add: wf_process_def resident_process_def wf_bcontext_clear)

text \<open>C16: A step of a well-formed process is total and does exactly what its state calls for: nothing
  when inactive; a blocked tick when the current page is not in memory; an exit at an exit address; a
  branch decision, with the wrap to 0 outside \<open>[0, size)\<close>, where a branch starts; and the next
  address otherwise. It keeps the process well-formed and does not touch its pages.\<close>

theorem process_step_behaviour:
  assumes "wf_programs progs" and "wf_process progs q"
  shows "okR (process_step progs q) (\<lambda>(r, q'). wf_process progs q' \<and> same_memory q q'
    \<and> (let g = progs ! the (p_program q); pc = p_pc q in
       if \<not> p_active q then \<not> r \<and> q' = q
       else if p_pages q ! cur_page q \<noteq> 0 then r \<and> q' = stalled q
       else if pc \<in> set (take (nat (g_nexits g)) (g_exits g)) then \<not> r \<and> q' = ticked q
       else case branch_taken g pc of
           None \<Rightarrow> r \<and> q' = (ticked q)\<lparr>p_pc := wrap_step g (pc + 1)\<rparr>
         | Some j \<Rightarrow> \<exists>d c'. bcontext_decide (p_bcontexts q ! nat j) = Inr (d, c')
             \<and> r \<and> q' = (ticked q)\<lparr>p_bcontexts := (p_bcontexts q)[nat j := c'],
                   p_pc := wrap_branch g (if d \<noteq> 0 then b_whereto (g_branches g ! nat j) else pc + 1)\<rparr>))"
  by (rule process_step_spec [OF assms])

theorem process_step_behaviour_witness:
  "okR (process_step programs (resident_process 4 504)) (\<lambda>(r, q'). \<not> r \<and> q' = ticked (resident_process 4 504))"
proof -
  have wf: "wf_process programs (resident_process 4 504)"
    by (rule wf_resident_process) (simp_all add: programs_eval)
  show ?thesis
    by (rule okR_mono [OF process_step_behaviour [OF wf_programs_programs wf]])
      (auto simp: Let_def resident_process_def cur_page_def programs_eval)
qed

text \<open>A program without branches spends an extra tick at address 0: the search finds a branch
  there although the program has none, follows it to address 0, and only the second step moves on.\<close>

lemma branchless_program_lingers:
  "g_nbranches (programs ! 3) = 0 \<and>
   okR (process_step programs (resident_process 3 0)) (\<lambda>(r, q1). r \<and> p_pc q1 = 0 \<and> p_compute q1 = 1
     \<and> okR (process_step programs q1) (\<lambda>(r, q2). r \<and> p_pc q2 = 1 \<and> p_compute q2 = 2))"
  by (simp add: process_step_def process_dobranch_def bcontext_decide_def resident_process_def Let_def
      programs_eval should_exit_def exit_at_def pick_branch_def branch_from_def bcontext_clear_def
      bsearch.simps [of _ _ 0 0] bsearch.simps [of _ _ 0 "-1"] nth_Cons' numeral_eq_Suc smod_nonneg sdiv_nonneg)

end
