(* ===== verification/Paging.thy ===== *)
theory Paging
  imports Process
begin

text \<open>
  The simulator's state and its paging routines (\<open>assignments/pa7/simulator.c\<close>): the static
  variables as one record, \<open>pageout\<close> and \<open>pagein\<close>, which the pagers call, and \<open>allage\<close>, the clock of
  page waits. A \<open>Process *\<close> in \<open>processes\<close> is an index into the job queue, so that the table and
  the queue share the process, as in the code. The invariant \<open>sim_inv\<close> accounts for every physical
  frame; \<open>abs_page\<close> gives the four-state machine that the integer page states implement.
\<close>

abbreviation (input) MAXPROCESSES :: nat where "MAXPROCESSES \<equiv> 20"
abbreviation (input) QUEUESIZE :: nat where "QUEUESIZE \<equiv> 40"

subsection \<open>State\<close>

record sim =
  s_sysclock :: int
  s_procs :: nat
  s_pageouts :: "int list"
  s_pagesavail :: int
  s_processes :: "nat option list"
  s_queue :: "process list"
  s_queueend :: nat
  s_rng :: rand48

definition put_process :: "nat \<Rightarrow> int \<Rightarrow> process \<Rightarrow> sim \<Rightarrow> sim" where
  "put_process j avail q s = s\<lparr>s_pagesavail := avail, s_queue := (s_queue s)[j := q]\<rparr>"

text \<open>\<open>processes[i]\<close>, where it is not NULL and the process is active.\<close>

definition active_at :: "sim \<Rightarrow> nat \<Rightarrow> nat option" where
  "active_at s i =
     (case s_processes s ! i of None \<Rightarrow> None
      | Some j \<Rightarrow> if p_active (s_queue s ! j) then Some j else None)"

subsection \<open>Operations\<close>

definition pageout :: "int \<Rightarrow> int \<Rightarrow> sim \<Rightarrow> bool \<times> sim" where
  "pageout process page s =
     (if process < 0 \<or> process \<ge> int (s_procs s) then (False, s)
      else case active_at s (nat process) of None \<Rightarrow> (False, s)
      | Some j \<Rightarrow>
          let q = s_queue s ! j in
          if page < 0 \<or> page \<ge> p_npages q then (False, s)
          else if p_pages q ! nat page < 0 then (True, s)
          else if p_pages q ! nat page > 0 then (False, s)
          else (True, put_process j (s_pagesavail s) (q\<lparr>p_pages := (p_pages q)[nat page := -1]\<rparr>)
                  (s\<lparr>s_pageouts := (s_pageouts s)[nat process := 1]\<rparr>)))"

definition pagein :: "int \<Rightarrow> int \<Rightarrow> sim \<Rightarrow> bool \<times> sim" where
  "pagein process page s =
     (if process < 0 \<or> process \<ge> int (s_procs s) then (False, s)
      else case active_at s (nat process) of None \<Rightarrow> (False, s)
      | Some j \<Rightarrow>
          let q = s_queue s ! j in
          if p_pc q sdiv PAGESIZE \<noteq> page \<or> page < 0 \<or> page \<ge> p_npages q then (False, s)
          else if p_pages q ! nat page \<ge> 0 then (True, s)
          else if s_pagesavail s = 0 then (False, s)
          else if p_pages q ! nat page \<ge> -PAGEWAIT then (False, s)
          else (True, put_process j (s_pagesavail s - 1)
                  (q\<lparr>p_pages := (p_pages q)[nat page := PAGEWAIT]\<rparr>) s))"

text \<open>One turn of the inner loop of \<open>allage\<close>, on the page count and the process.\<close>

definition age_page :: "nat \<Rightarrow> int \<times> process \<Rightarrow> int \<times> process" where
  "age_page j = (\<lambda>(avail, q).
     let v = p_pages q ! j in
     if v = 0 then (avail, q)
     else if v < -PAGEWAIT then (avail, q)
     else if v > 0 then (avail, q\<lparr>p_pages := (p_pages q)[j := v - 1]\<rparr>)
     else if v < 0 \<and> v \<ge> -PAGEWAIT then
       (if v - 1 < -PAGEWAIT then avail + 1 else avail, q\<lparr>p_pages := (p_pages q)[j := v - 1]\<rparr>)
     else (avail, q))"

definition age_process :: "int \<times> process \<Rightarrow> int \<times> process" where
  "age_process aq = fold age_page [0..<nat (p_npages (snd aq))] aq"

definition age_slot :: "nat \<Rightarrow> sim \<Rightarrow> sim" where
  "age_slot i s =
     (case active_at s i of None \<Rightarrow> s
      | Some j \<Rightarrow>
          let (avail, q) = age_process (s_pagesavail s, s_queue s ! j) in put_process j avail q s)"

definition allage :: "sim \<Rightarrow> sim" where
  "allage s = fold age_slot [0..<s_procs s] s"

subsection \<open>The life of a page\<close>

datatype page_state = Out | Coming nat | In | Going nat

definition abs_page :: "int \<Rightarrow> page_state" where
  "abs_page v =
     (if v < -PAGEWAIT then Out
      else if v < 0 then Going (nat (v + PAGEWAIT + 1))
      else if v = 0 then In
      else Coming (nat v))"

fun tick_page :: "page_state \<Rightarrow> page_state" where
  "tick_page Out = Out"
| "tick_page In = In"
| "tick_page (Coming n) = (if n \<le> 1 then In else Coming (n - 1))"
| "tick_page (Going n) = (if n \<le> 1 then Out else Going (n - 1))"

definition age :: "int \<Rightarrow> int" where
  "age v = (if v = 0 \<or> v < -PAGEWAIT then v else v - 1)"

lemma abs_page_age: "abs_page (age v) = tick_page (abs_page v)"
  by (auto simp: abs_page_def age_def nat_diff_distrib)

lemma abs_page_simps [simp]:
  "abs_page 0 = In" "abs_page PAGEWAIT = Coming 100" "abs_page (-1) = Going 100"
  "abs_page v = In \<longleftrightarrow> v = 0" "abs_page v = Out \<longleftrightarrow> v < -PAGEWAIT"
  by (auto simp: abs_page_def)

lemma holds_frame_abs: "holds_frame v = (if abs_page v = Out then 0 else 1)"
  by (simp add: holds_frame_def)

lemma tick_Coming: "n < m \<Longrightarrow> (tick_page ^^ n) (Coming m) = Coming (m - n)"
  and tick_Going: "n < m \<Longrightarrow> (tick_page ^^ n) (Going m) = Going (m - n)"
  by (induction n) auto

lemma age_iterate: "abs_page ((age ^^ n) v) = (tick_page ^^ n) (abs_page v)"
  by (induction n) (simp_all add: abs_page_age)

lemma age_page_spec:
  "j < length (p_pages q) \<Longrightarrow> age_page j (avail, q) =
   (avail + holds_frame (p_pages q ! j) - holds_frame (age (p_pages q ! j)),
    q\<lparr>p_pages := (p_pages q)[j := age (p_pages q ! j)]\<rparr>)"
  by (cases q) (auto simp: age_page_def age_def holds_frame_def Let_def list_update_same)

lemma age_pages_upto:
  assumes "n \<le> length (p_pages q)"
  shows "fold age_page [0..<n] (avail, q) =
    (let q' = q\<lparr>p_pages := map age (take n (p_pages q)) @ drop n (p_pages q)\<rparr>
     in (avail + frames q - frames q', q'))"
  using assms
proof (induction n)
  case 0
  then show ?case by (simp add: Let_def)
next
  case (Suc n)
  let ?q = "\<lambda>n. q\<lparr>p_pages := map age (take n (p_pages q)) @ drop n (p_pages q)\<rparr>"
  have n: "n < length (p_pages q)" using Suc.prems by simp
  have nth: "p_pages (?q n) ! n = p_pages q ! n" using n by (simp add: nth_append)
  have upd: "(p_pages (?q n))[n := age (p_pages q ! n)] = p_pages (?q (Suc n))"
    using n by (simp add: list_update_append take_Suc_conv_app_nth Cons_nth_drop_Suc [symmetric])
  have "frames (?q (Suc n)) = frames (?q n) - holds_frame (p_pages q ! n) + holds_frame (age (p_pages q ! n))"
    using n nth upd by (subst frames_update [of n "?q n" _ "age (p_pages q ! n)"]) simp_all
  moreover have "age_page n (avail + frames q - frames (?q n), ?q n) =
      (avail + frames q - frames (?q n) + holds_frame (p_pages q ! n) - holds_frame (age (p_pages q ! n)),
       ?q (Suc n))"
    using n nth upd by (subst age_page_spec) simp_all
  ultimately show ?case using Suc n by (simp add: Let_def)
qed

lemma age_process_spec:
  assumes "p_npages q = int (length (p_pages q))"
  shows "age_process (avail, q) =
    (avail + frames q - frames (q\<lparr>p_pages := map age (p_pages q)\<rparr>), q\<lparr>p_pages := map age (p_pages q)\<rparr>)"
  using assms age_pages_upto [of "length (p_pages q)" q avail]
  by (simp add: age_process_def Let_def)

subsection \<open>The invariant\<close>

definition total_frames :: "sim \<Rightarrow> int" where
  "total_frames s = sum_list (map frames (s_queue s))"

definition sim_shape :: "sim \<Rightarrow> bool" where
  "sim_shape s \<longleftrightarrow> s_procs s \<le> MAXPROCESSES \<and> length (s_processes s) = MAXPROCESSES
     \<and> length (s_queue s) = QUEUESIZE \<and> length (s_pageouts s) = MAXPROCESSES
     \<and> s_queueend s \<le> QUEUESIZE \<and> list_all (wf_process programs) (s_queue s)"

text \<open>Every frame is free or held by a page of some process, and never more than there are.\<close>

definition sim_frames :: "sim \<Rightarrow> bool" where
  "sim_frames s \<longleftrightarrow> s_pagesavail s + total_frames s = PHYSICALPAGES \<and> 0 \<le> s_pagesavail s"

text \<open>The table points to started jobs, each at most once, and only those can hold frames.\<close>

definition sim_table :: "sim \<Rightarrow> bool" where
  "sim_table s \<longleftrightarrow>
     (\<forall>i < MAXPROCESSES. \<forall>j. s_processes s ! i = Some j \<longrightarrow> j < s_queueend s \<and> p_active (s_queue s ! j))
     \<and> (\<forall>i < MAXPROCESSES. \<forall>i' < MAXPROCESSES. s_processes s ! i \<noteq> None \<longrightarrow>
          s_processes s ! i = s_processes s ! i' \<longrightarrow> i = i')
     \<and> (\<forall>j < QUEUESIZE. Some j \<notin> set (s_processes s) \<longrightarrow> frames (s_queue s ! j) = 0)"

definition sim_inv :: "sim \<Rightarrow> bool" where
  "sim_inv s \<longleftrightarrow> sim_shape s \<and> sim_frames s \<and> sim_table s"

lemma put_process_simps [simp]:
  "s_sysclock (put_process j a q s) = s_sysclock s"
  "s_procs (put_process j a q s) = s_procs s"
  "s_pageouts (put_process j a q s) = s_pageouts s"
  "s_pagesavail (put_process j a q s) = a"
  "s_processes (put_process j a q s) = s_processes s"
  "s_queue (put_process j a q s) = (s_queue s)[j := q]"
  "s_queueend (put_process j a q s) = s_queueend s"
  "s_rng (put_process j a q s) = s_rng s"
  by (simp_all add: put_process_def)

lemma sim_inv_slot:
  assumes "sim_inv s" and "i < MAXPROCESSES" and "s_processes s ! i = Some j"
  shows "j < QUEUESIZE" and "j < length (s_queue s)" and "j < s_queueend s"
    and "p_active (s_queue s ! j)" and "wf_process programs (s_queue s ! j)"
proof -
  show a: "j < s_queueend s" "p_active (s_queue s ! j)"
    using assms by (auto simp: sim_inv_def sim_table_def)
  then show "j < QUEUESIZE" "j < length (s_queue s)"
    using assms(1) by (auto simp: sim_inv_def sim_shape_def)
  then show "wf_process programs (s_queue s ! j)"
    using assms(1) by (auto simp: sim_inv_def sim_shape_def list_all_length)
qed

lemma active_at_Some:
  assumes "sim_inv s" and "i < MAXPROCESSES"
  shows "active_at s i = s_processes s ! i"
  using sim_inv_slot [OF assms] by (auto simp: active_at_def split: option.split)

lemma total_frames_put:
  "j < length (s_queue s) \<Longrightarrow>
   total_frames (put_process j a q s) = total_frames s - frames (s_queue s ! j) + frames q"
  by (simp add: total_frames_def sum_list_map_update)

text \<open>The rule behind every operation on a loaded process: it suffices that the process stays
  well-formed and active and that the frames balance.\<close>

lemma sim_inv_put:
  assumes "sim_inv s" and "i < MAXPROCESSES" and "s_processes s ! i = Some j"
    and "wf_process programs q" and "p_active q"
    and "a + frames q = s_pagesavail s + frames (s_queue s ! j)" and "0 \<le> a"
  shows "sim_inv (put_process j a q s)"
proof -
  note slot = sim_inv_slot [OF assms(1-3)]
  have "sim_shape (put_process j a q s)"
    using assms(1,4) by (auto simp: sim_inv_def sim_shape_def intro: list_all_update)
  moreover have "sim_frames (put_process j a q s)"
    using assms(1,6,7) total_frames_put [OF slot(2), of a q] by (simp add: sim_inv_def sim_frames_def)
  moreover have "Some j \<in> set (s_processes s)"
    using assms(1-3) by (metis nth_mem sim_inv_def sim_shape_def)
  then have "sim_table (put_process j a q s)"
    using assms(1,5) slot(2) by (auto simp: sim_inv_def sim_table_def nth_list_update)
  ultimately show ?thesis by (simp add: sim_inv_def)
qed

lemma sim_inv_pageouts:
  "sim_inv (s\<lparr>s_pageouts := ps\<rparr>) \<longleftrightarrow> sim_inv s \<and> length ps = MAXPROCESSES" if "length (s_pageouts s) = MAXPROCESSES"
  using that by (auto simp: sim_inv_def sim_shape_def sim_frames_def sim_table_def total_frames_def)

lemma wf_process_set_page:
  "wf_process progs q \<Longrightarrow> -PAGEWAIT - 1 \<le> v \<Longrightarrow> v \<le> PAGEWAIT \<Longrightarrow>
   wf_process progs (q\<lparr>p_pages := (p_pages q)[i := v]\<rparr>)"
  by (auto simp: wf_process_def intro: list_all_update split: option.splits)

lemma frames_set_page:
  "i < length (p_pages q) \<Longrightarrow>
   frames (q\<lparr>p_pages := (p_pages q)[i := v]\<rparr>) = frames q - holds_frame (p_pages q ! i) + holds_frame v"
  by (simp add: frames_update)

lemma pageout_inv:
  assumes "sim_inv s"
  shows "sim_inv (snd (pageout process page s))"
proof -
  have len: "s_procs s \<le> 20" "length (s_pageouts s) = 20"
    using assms by (simp_all add: sim_inv_def sim_shape_def)
  show ?thesis
  proof (cases "0 \<le> process \<and> process < int (s_procs s) \<and> s_processes s ! nat process \<noteq> None")
    case False
    then show ?thesis using assms len by (auto simp: pageout_def active_at_Some split: option.splits)
  next
    case True
    let ?i = "nat process"
    obtain j where j: "s_processes s ! ?i = Some j" and i: "?i < 20" using True len by auto
    let ?q = "s_queue s ! j"
    let ?s = "s\<lparr>s_pageouts := (s_pageouts s)[?i := 1]\<rparr>"
    note slot = sim_inv_slot [OF assms i j]
    have "sim_inv ?s" using assms len by (simp add: sim_inv_pageouts)
    moreover have "p_npages ?q = 20" "length (p_pages ?q) = 20" using slot(5) by (simp_all add: wf_process_def)
    ultimately have "sim_inv (put_process j (s_pagesavail s) (?q\<lparr>p_pages := (p_pages ?q)[nat page := -1]\<rparr>) ?s)"
      if "0 \<le> page" "page < p_npages ?q" "p_pages ?q ! nat page = 0"
      using that i j slot assms
      by (intro sim_inv_put [of ?s ?i]) (simp_all add: wf_process_set_page frames_set_page holds_frame_def
          sim_inv_def sim_frames_def)
    then show ?thesis
      using True assms i j by (auto simp: pageout_def active_at_Some Let_def)
  qed
qed

lemma pagein_inv:
  assumes "sim_inv s"
  shows "sim_inv (snd (pagein process page s))"
proof -
  have len: "s_procs s \<le> 20" "0 \<le> s_pagesavail s"
    using assms by (simp_all add: sim_inv_def sim_shape_def sim_frames_def)
  show ?thesis
  proof (cases "0 \<le> process \<and> process < int (s_procs s) \<and> s_processes s ! nat process \<noteq> None")
    case False
    then show ?thesis using assms len by (auto simp: pagein_def active_at_Some split: option.splits)
  next
    case True
    let ?i = "nat process"
    obtain j where j: "s_processes s ! ?i = Some j" and i: "?i < 20" using True len by auto
    let ?q = "s_queue s ! j"
    note slot = sim_inv_slot [OF assms i j]
    have "p_npages ?q = 20" "length (p_pages ?q) = 20" using slot(5) by (simp_all add: wf_process_def)
    then have "sim_inv (put_process j (s_pagesavail s - 1) (?q\<lparr>p_pages := (p_pages ?q)[nat page := PAGEWAIT]\<rparr>) s)"
      if "0 \<le> page" "page < p_npages ?q" "p_pages ?q ! nat page < -PAGEWAIT" "s_pagesavail s \<noteq> 0"
      using that i j slot assms len
      by (intro sim_inv_put [of s ?i]) (simp_all add: wf_process_set_page frames_set_page holds_frame_def)
    then show ?thesis
      using True assms i j by (auto simp: pagein_def active_at_Some Let_def)
  qed
qed

subsection \<open>What aging does to the whole system\<close>

lemma age_range: "-PAGEWAIT - 1 \<le> v \<Longrightarrow> v \<le> PAGEWAIT \<Longrightarrow> -PAGEWAIT - 1 \<le> age v \<and> age v \<le> PAGEWAIT"
  by (auto simp: age_def)

lemma holds_frame_age: "holds_frame (age v) \<le> holds_frame v"
  by (auto simp: holds_frame_def age_def)

definition aged :: "process \<Rightarrow> process" where
  "aged q = q\<lparr>p_pages := map age (p_pages q)\<rparr>"

lemma frames_aged: "frames (aged q) \<le> frames q"
  unfolding frames_def aged_def by (auto intro!: sum_list_mono holds_frame_age simp: comp_def)

lemma wf_process_aged: "wf_process progs q \<Longrightarrow> wf_process progs (aged q)"
  using age_range by (auto simp: wf_process_def aged_def list_all_iff split: option.splits)

lemma age_slot_loaded:
  assumes "sim_inv s" and "i < MAXPROCESSES" and "s_processes s ! i = Some j"
  shows "age_slot i s = put_process j (s_pagesavail s + frames (s_queue s ! j) - frames (aged (s_queue s ! j)))
     (aged (s_queue s ! j)) s"
proof -
  have "p_npages (s_queue s ! j) = int (length (p_pages (s_queue s ! j)))"
    using sim_inv_slot [OF assms] by (simp add: wf_process_def)
  from age_process_spec [OF this] show ?thesis
    using assms by (simp add: age_slot_def active_at_Some aged_def)
qed

lemma age_slot_inv:
  assumes "sim_inv s" and "i < MAXPROCESSES"
  shows "sim_inv (age_slot i s)"
proof (cases "s_processes s ! i")
  case None
  then show ?thesis using assms by (simp add: age_slot_def active_at_Some)
next
  case (Some j)
  have "0 \<le> s_pagesavail s" using assms(1) by (simp add: sim_inv_def sim_frames_def)
  then show ?thesis
    using sim_inv_slot [OF assms Some] frames_aged [of "s_queue s ! j"] assms
    unfolding age_slot_loaded [OF assms Some]
    by (intro sim_inv_put [OF assms Some]) (simp_all add: wf_process_aged, simp add: aged_def)
qed

lemma age_slot_frame [simp]:
  "s_processes (age_slot i s) = s_processes s" "s_procs (age_slot i s) = s_procs s"
  "s_queueend (age_slot i s) = s_queueend s" "s_sysclock (age_slot i s) = s_sysclock s"
  "s_rng (age_slot i s) = s_rng s"
  by (simp_all add: age_slot_def split: option.split prod.split)

lemma age_slots_upto:
  assumes "sim_inv s" and "n \<le> MAXPROCESSES"
  shows "sim_inv (fold age_slot [0..<n] s) \<and> s_processes (fold age_slot [0..<n] s) = s_processes s
    \<and> s_procs (fold age_slot [0..<n] s) = s_procs s \<and> s_queueend (fold age_slot [0..<n] s) = s_queueend s
    \<and> (\<forall>j < QUEUESIZE. s_queue (fold age_slot [0..<n] s) ! j =
        (if Some j \<in> set (take n (s_processes s)) then aged (s_queue s ! j) else s_queue s ! j))"
  using assms(2)
proof (induction n)
  case 0
  then show ?case using assms(1) by simp
next
  case (Suc n)
  let ?s = "fold age_slot [0..<n] s"
  have IH: "sim_inv ?s" "s_processes ?s = s_processes s" and n: "n < 20" and len: "length (s_processes s) = 20"
    and q: "\<And>j. j < 40 \<Longrightarrow> s_queue ?s ! j =
        (if Some j \<in> set (take n (s_processes s)) then aged (s_queue s ! j) else s_queue s ! j)"
    using Suc assms(1) by (auto simp: sim_inv_def sim_shape_def)
  have take: "set (take (Suc n) (s_processes s)) = insert (s_processes s ! n) (set (take n (s_processes s)))"
    using n len by (simp add: take_Suc_conv_app_nth)
  show ?case
  proof (cases "s_processes s ! n")
    case None
    then have "age_slot n ?s = ?s" using IH n by (simp add: age_slot_def active_at_Some)
    then show ?thesis using Suc None take by simp
  next
    case (Some j)
    then have j: "s_processes ?s ! n = Some j" using IH(2) by simp
    have "Some j \<notin> set (take n (s_processes s))"
    proof
      assume "Some j \<in> set (take n (s_processes s))"
      then obtain i where "i < n" "s_processes s ! i = Some j"
        by (auto simp: in_set_conv_nth)
      then show False using assms(1) n Some unfolding sim_inv_def sim_table_def
        by (metis less_irrefl less_trans option.distinct(1))
    qed
    moreover have "s_queue (age_slot n ?s) = (s_queue ?s)[j := aged (s_queue ?s ! j)]"
      by (simp add: age_slot_loaded [OF IH(1) n j])
    ultimately show ?thesis
      using Suc age_slot_inv [OF IH(1) n] q Some take sim_inv_slot [OF IH(1) n j]
      by (auto simp: nth_list_update)
  qed
qed

lemma allage_inv: "sim_inv s \<Longrightarrow> sim_inv (allage s)"
  and allage_frame: "sim_inv s \<Longrightarrow> s_processes (allage s) = s_processes s \<and> s_procs (allage s) = s_procs s
     \<and> s_queueend (allage s) = s_queueend s"
  using age_slots_upto [of s "s_procs s"] by (auto simp: allage_def sim_inv_def sim_shape_def)

lemma allage_queue:
  assumes "sim_inv s" and "j < QUEUESIZE"
  shows "s_queue (allage s) ! j =
    (if Some j \<in> set (take (s_procs s) (s_processes s)) then aged (s_queue s ! j) else s_queue s ! j)"
  using age_slots_upto [OF assms(1), of "s_procs s"] assms by (auto simp: allage_def sim_inv_def sim_shape_def)

definition page_of :: "sim \<Rightarrow> nat \<Rightarrow> nat \<Rightarrow> int" where
  "page_of s i p = p_pages (s_queue s ! the (s_processes s ! i)) ! p"

lemma allage_page_of:
  assumes "sim_inv s" and "i < s_procs s" and "s_processes s ! i = Some j" and "p < MAXPROCPAGES"
  shows "page_of (allage s) i p = age (page_of s i p)"
proof -
  have i: "i < 20" and len: "length (s_processes s) = 20"
    using assms by (auto simp: sim_inv_def sim_shape_def)
  have "Some j \<in> set (take (s_procs s) (s_processes s))"
    using assms i len by (auto simp: in_set_conv_nth intro!: exI [of _ i])
  moreover have "length (p_pages (s_queue s ! j)) = 20"
    using sim_inv_slot [OF assms(1) i assms(3)] by (simp add: wf_process_def)
  ultimately show ?thesis
    using assms(3,4) allage_queue [OF assms(1) sim_inv_slot(1) [OF assms(1) i assms(3)]] allage_frame [OF assms(1)]
    by (simp add: page_of_def aged_def)
qed

lemma allages_page_of:
  assumes "sim_inv s" and "i < s_procs s" and "s_processes s ! i = Some j" and "p < MAXPROCPAGES"
  shows "abs_page (page_of ((allage ^^ n) s) i p) = (tick_page ^^ n) (abs_page (page_of s i p))"
proof -
  have "sim_inv ((allage ^^ n) s) \<and> s_procs ((allage ^^ n) s) = s_procs s
      \<and> s_processes ((allage ^^ n) s) = s_processes s \<and> page_of ((allage ^^ n) s) i p = (age ^^ n) (page_of s i p)"
  proof (induction n)
    case 0
    then show ?case using assms(1) by simp
  next
    case (Suc n)
    then show ?case
      using allage_inv allage_frame allage_page_of [of "(allage ^^ n) s" i j p] assms by simp
  qed
  then show ?thesis by (simp add: age_iterate)
qed

subsection \<open>Runs of paging calls and ticks\<close>

text \<open>What a pager can do to the simulator: call \<open>pagein\<close> and \<open>pageout\<close> with any arguments. A
  \<open>memory_run s n s'\<close> lets \<open>n\<close> ticks of \<open>allage\<close> pass with any calls before, between and after.\<close>

inductive paging_call :: "sim \<Rightarrow> sim \<Rightarrow> bool" where
  call_pagein: "paging_call s (snd (pagein i p s))"
| call_pageout: "paging_call s (snd (pageout i p s))"

inductive memory_run :: "sim \<Rightarrow> nat \<Rightarrow> sim \<Rightarrow> bool" where
  run_start: "memory_run s 0 s"
| run_call: "memory_run s n s' \<Longrightarrow> paging_call s' s'' \<Longrightarrow> memory_run s n s''"
| run_tick: "memory_run s n s' \<Longrightarrow> memory_run s (Suc n) (allage s')"

inductive_cases paging_callE: "paging_call s s'"
inductive_cases memory_run_ZeroE: "memory_run s 0 s'"
inductive_simps paging_call_iff: "paging_call s s'"

lemma paging_call_inv: "paging_call s s' \<Longrightarrow> sim_inv s \<Longrightarrow> sim_inv s'"
  by (auto elim!: paging_callE intro: pagein_inv pageout_inv)

lemma pageout_frame [simp]:
  "s_processes (snd (pageout i p s)) = s_processes s" "s_procs (snd (pageout i p s)) = s_procs s"
  "s_queueend (snd (pageout i p s)) = s_queueend s"
  by (auto simp: pageout_def Let_def split: option.split)

lemma pagein_frame [simp]:
  "s_processes (snd (pagein i p s)) = s_processes s" "s_procs (snd (pagein i p s)) = s_procs s"
  "s_queueend (snd (pagein i p s)) = s_queueend s"
  by (auto simp: pagein_def Let_def split: option.split)

definition same_table :: "sim \<Rightarrow> sim \<Rightarrow> bool" where
  "same_table s s' \<longleftrightarrow> s_processes s' = s_processes s \<and> s_procs s' = s_procs s \<and> s_queueend s' = s_queueend s"

lemma same_table_refl [simp]: "same_table s s"
  and same_table_trans: "same_table s s' \<Longrightarrow> same_table s' s'' \<Longrightarrow> same_table s s''"
  by (simp_all add: same_table_def)

lemma paging_call_table: "paging_call s s' \<Longrightarrow> same_table s s'"
  by (auto simp: same_table_def elim!: paging_callE)

lemma paging_calls_inv: "paging_call\<^sup>*\<^sup>* s s' \<Longrightarrow> sim_inv s \<Longrightarrow> sim_inv s' \<and> same_table s s'"
  by (induction rule: rtranclp_induct) (auto intro: paging_call_inv paging_call_table same_table_trans)

lemma memory_run_inv: "memory_run s n s' \<Longrightarrow> sim_inv s \<Longrightarrow> sim_inv s' \<and> same_table s s'"
proof (induction rule: memory_run.induct)
  case (run_call s n s' s'')
  then show ?case by (auto intro: paging_call_inv paging_call_table same_table_trans)
next
  case (run_tick s n s')
  then show ?case using allage_inv [of s'] allage_frame [of s'] by (simp add: same_table_def)
qed simp

text \<open>What a single call does to any page of the table.\<close>

lemma put_process_page_of:
  assumes "sim_inv s" and "i < MAXPROCESSES" and "i' < MAXPROCESSES" and "s_processes s ! i = Some j"
    and "s_processes s ! i' = Some j'" and "s_queue s' = s_queue s" and "s_processes s' = s_processes s"
    and "length (p_pages (s_queue s ! j')) = MAXPROCPAGES" and "p' < MAXPROCPAGES"
  shows "page_of (put_process j' a ((s_queue s ! j')\<lparr>p_pages := (p_pages (s_queue s ! j'))[p' := v]\<rparr>) s') i p
     = (if i = i' \<and> p = p' then v else page_of s i p)"
proof -
  have "i = i'" if "j = j'"
    using assms(1-5) that unfolding sim_inv_def sim_table_def by (metis option.distinct(1))
  moreover have "j' < length (s_queue s)" using sim_inv_slot [OF assms(1,3,5)] by simp
  ultimately show ?thesis
    using assms by (auto simp: page_of_def nth_list_update)
qed

lemma slot_active:
  assumes "sim_inv s" and "0 \<le> i" and "i < int (s_procs s)"
  shows "active_at s (nat i) = s_processes s ! nat i" and "nat i < MAXPROCESSES"
proof -
  show "nat i < MAXPROCESSES" using assms by (auto simp: sim_inv_def sim_shape_def)
  then show "active_at s (nat i) = s_processes s ! nat i" using active_at_Some assms(1) by blast
qed

text \<open>The contract of the two routines, on the page states.\<close>

definition valid_page :: "sim \<Rightarrow> int \<Rightarrow> int \<Rightarrow> bool" where
  "valid_page s i p \<longleftrightarrow> 0 \<le> i \<and> i < int (s_procs s) \<and> s_processes s ! nat i \<noteq> None
     \<and> 0 \<le> p \<and> p < int MAXPROCPAGES"

definition state_of :: "sim \<Rightarrow> int \<Rightarrow> int \<Rightarrow> page_state" where
  "state_of s i p = abs_page (page_of s (nat i) (nat p))"

definition pc_page :: "sim \<Rightarrow> int \<Rightarrow> int" where
  "pc_page s i = p_pc (s_queue s ! the (s_processes s ! nat i)) div PAGESIZE"

definition set_state :: "sim \<Rightarrow> int \<Rightarrow> int \<Rightarrow> page_state \<Rightarrow> sim \<Rightarrow> bool" where
  "set_state s i p v s' \<longleftrightarrow>
     (\<forall>i' p'. valid_page s i' p' \<longrightarrow> state_of s' i' p' = (if i' = i \<and> p' = p then v else state_of s i' p'))"

lemma abs_page_sign:
  "abs_page v = In \<or> (\<exists>n. abs_page v = Coming n) \<longleftrightarrow> 0 \<le> v"
  "(\<exists>n. abs_page v = Coming n) \<longleftrightarrow> 0 < v"
  "(\<exists>n. abs_page v = Going n) \<longleftrightarrow> -PAGEWAIT \<le> v \<and> v < 0"
  by (auto simp: abs_page_def)

lemma set_state_put:
  assumes "sim_inv s" and "valid_page s i p" and "s_processes s ! nat i = Some j"
    and "q = s_queue s ! j" and "abs_page v = x" and "s_queue s' = s_queue s" and "s_processes s' = s_processes s"
  shows "set_state s i p x (put_process j a (q\<lparr>p_pages := (p_pages q)[nat p := v]\<rparr>) s')"
  unfolding set_state_def state_of_def
proof (intro allI impI)
  fix i' p' assume v: "valid_page s i' p'"
  then obtain j' where j': "s_processes s ! nat i' = Some j'" by (auto simp: valid_page_def)
  have i: "nat i < 20" "nat i' < 20"
    using slot_active [OF assms(1), of i] slot_active [OF assms(1), of i'] v assms(2)
    by (auto simp: valid_page_def)
  have len: "length (p_pages (s_queue s ! j)) = 20"
    using sim_inv_slot(5) [OF assms(1) i(1) assms(3)] by (simp add: wf_process_def)
  show "abs_page (page_of (put_process j a (q\<lparr>p_pages := (p_pages q)[nat p := v]\<rparr>) s') (nat i') (nat p'))
      = (if i' = i \<and> p' = p then x else abs_page (page_of s (nat i') (nat p')))"
    using v assms j' i len unfolding assms(4)
    by (subst put_process_page_of [where i' = "nat i" and s = s]) (auto simp: valid_page_def)
qed

text \<open>A slot outside the table, or an empty one, makes both routines refuse.\<close>

lemma paging_invalid_slot:
  assumes "sim_inv s" and "\<not> (0 \<le> i \<and> i < int (s_procs s) \<and> s_processes s ! nat i \<noteq> None)"
  shows "pageout i p s = (False, s)" and "pagein i p s = (False, s)" and "\<not> valid_page s i p"
  using assms slot_active [OF assms(1), of i]
  by (auto simp: pageout_def pagein_def valid_page_def split: option.splits)

lemma paging_valid_slot:
  assumes "sim_inv s" and "0 \<le> i" and "i < int (s_procs s)" and "s_processes s ! nat i = Some j"
  shows "active_at s (nat i) = Some j" and "p_npages (s_queue s ! j) = 20"
    and "length (p_pages (s_queue s ! j)) = 20" and "0 \<le> p_pc (s_queue s ! j)"
    and "state_of s i p = abs_page (p_pages (s_queue s ! j) ! nat p)"
    and "pc_page s i = p_pc (s_queue s ! j) div 128"
proof -
  have "nat i < 20" using slot_active [OF assms(1-3)] by simp
  from sim_inv_slot [OF assms(1) this assms(4)] have "wf_process programs (s_queue s ! j)" by simp
  then show "p_npages (s_queue s ! j) = 20" "length (p_pages (s_queue s ! j)) = 20" "0 \<le> p_pc (s_queue s ! j)"
    by (auto simp: wf_process_def split: option.splits)
qed (use assms slot_active [OF assms(1-3)] in \<open>simp_all add: state_of_def page_of_def pc_page_def\<close>)

lemma pageout_spec:
  assumes "sim_inv s"
  shows "(fst (pageout i p s) \<longleftrightarrow> valid_page s i p \<and> \<not> (\<exists>n. state_of s i p = Coming n))
    \<and> (if valid_page s i p \<and> state_of s i p = In then set_state s i p (Going 100) (snd (pageout i p s))
         \<and> s_pagesavail (snd (pageout i p s)) = s_pagesavail s
       else snd (pageout i p s) = s)"
proof (cases "0 \<le> i \<and> i < int (s_procs s) \<and> s_processes s ! nat i \<noteq> None")
  case False
  then show ?thesis using paging_invalid_slot [OF assms] by simp
next
  case True
  then obtain j where j: "s_processes s ! nat i = Some j" by auto
  note slot = paging_valid_slot [OF assms _ _ j]
  have valid: "valid_page s i p \<longleftrightarrow> 0 \<le> p \<and> p < 20" using True by (simp add: valid_page_def)
  show ?thesis
    using True set_state_put [OF assms _ j refl, of p "-1"] slot
    unfolding pageout_def valid by (auto simp: Let_def abs_page_sign)
qed

lemma pagein_spec:
  assumes "sim_inv s"
  shows "(fst (pagein i p s) \<longleftrightarrow> valid_page s i p \<and> p = pc_page s i
            \<and> (state_of s i p = In \<or> (\<exists>n. state_of s i p = Coming n)
               \<or> state_of s i p = Out \<and> s_pagesavail s \<noteq> 0))
    \<and> (if valid_page s i p \<and> p = pc_page s i \<and> state_of s i p = Out \<and> s_pagesavail s \<noteq> 0
       then set_state s i p (Coming 100) (snd (pagein i p s))
         \<and> s_pagesavail (snd (pagein i p s)) = s_pagesavail s - 1
       else snd (pagein i p s) = s)"
proof (cases "0 \<le> i \<and> i < int (s_procs s) \<and> s_processes s ! nat i \<noteq> None")
  case False
  then show ?thesis using paging_invalid_slot [OF assms] by simp
next
  case True
  then obtain j where j: "s_processes s ! nat i = Some j" by auto
  note slot = paging_valid_slot [OF assms _ _ j]
  have valid: "valid_page s i p \<longleftrightarrow> 0 \<le> p \<and> p < 20" using True by (simp add: valid_page_def)
  let ?q = "s_queue s ! j" and ?v = "p_pages (s_queue s ! j) ! nat p"
  have e: "pagein i p s =
      (if \<not> (valid_page s i p \<and> p = pc_page s i) then (False, s)
       else if 0 \<le> ?v then (True, s)
       else if s_pagesavail s = 0 then (False, s)
       else if -100 \<le> ?v then (False, s)
       else (True, put_process j (s_pagesavail s - 1) (?q\<lparr>p_pages := (p_pages ?q)[nat p := 100]\<rparr>) s))"
    using True slot j by (simp add: pagein_def valid Let_def sdiv_nonneg)
  have st: "state_of s i p = abs_page ?v" if "valid_page s i p" using slot(5) True by simp
  have x: "abs_page ?v = In \<or> (\<exists>n. abs_page ?v = Coming n) \<longleftrightarrow> 0 \<le> ?v" "abs_page ?v = Out \<longleftrightarrow> ?v < -100"
    using abs_page_sign(1) by simp_all
  show ?thesis
    using set_state_put [OF assms _ j refl, of p 100 "Coming 100" s] st x
    unfolding e by (cases "valid_page s i p") auto
qed

text \<open>A transfer under way is not disturbed by any call, and each tick moves it on.\<close>

definition transit :: "page_state \<Rightarrow> bool" where
  "transit x \<longleftrightarrow> (\<exists>n. x = Coming n \<or> x = Going n)"

lemma paging_call_transit:
  assumes "sim_inv s" and "paging_call s s'" and "valid_page s i p" and "transit (state_of s i p)"
  shows "state_of s' i p = state_of s i p"
proof -
  have "state_of (snd (pagein i' p' s)) i p = state_of s i p"
    and "state_of (snd (pageout i' p' s)) i p = state_of s i p" for i' p'
    using pagein_spec [OF assms(1), of i' p'] pageout_spec [OF assms(1), of i' p'] assms(3,4)
    by (auto simp: set_state_def transit_def split: if_splits)
  then show ?thesis using assms(2) by (auto elim!: paging_callE)
qed

lemma allage_state_of:
  assumes "sim_inv s" and "valid_page s i p"
  shows "state_of (allage s) i p = tick_page (state_of s i p)"
  using assms allage_page_of [OF assms(1), of "nat i" _ "nat p"]
  by (auto simp: state_of_def valid_page_def abs_page_age nat_less_iff)

lemma same_table_valid: "same_table s s' \<Longrightarrow> valid_page s' i p \<longleftrightarrow> valid_page s i p"
  by (simp add: same_table_def valid_page_def)

lemma tick_transit: "n < m \<Longrightarrow> x = Coming m \<or> x = Going m \<Longrightarrow> transit ((tick_page ^^ n) x)"
  by (auto simp: transit_def tick_Coming tick_Going)

lemma memory_run_state:
  assumes "memory_run s n s'" and "sim_inv s" and "valid_page s i p"
    and "state_of s i p = Coming m \<or> state_of s i p = Going m" and "n < m"
  shows "state_of s' i p = (tick_page ^^ n) (state_of s i p)"
  using assms
proof (induction rule: memory_run.induct)
  case (run_start s)
  then show ?case by simp
next
  case (run_call s n s' s'')
  moreover have "sim_inv s'" "valid_page s' i p"
    using memory_run_inv [OF run_call.hyps(1)] run_call.prems same_table_valid by auto
  ultimately show ?case
    using paging_call_transit [of s' s'' i p] tick_transit [of n m "state_of s i p"] by simp
next
  case (run_tick s n s')
  moreover have "sim_inv s'" "valid_page s' i p"
    using memory_run_inv [OF run_tick.hyps(1)] run_tick.prems same_table_valid by auto
  ultimately show ?case using allage_state_of [of s' i p] by simp
qed

text \<open>No call moves a program counter, so a page that is out stays out unless it is the page of the
  program counter.\<close>

lemma put_pages_pc [simp]: "map p_pc (qs[j := (qs ! j)\<lparr>p_pages := pg\<rparr>]) = map p_pc qs"
  by (cases "j < length qs") (auto simp: map_update list_update_beyond not_less list_update_same)

lemma paging_call_pc: "paging_call s s' \<Longrightarrow> map p_pc (s_queue s') = map p_pc (s_queue s)"
  by (auto simp: pagein_def pageout_def Let_def elim!: paging_callE split: option.split)

lemma paging_call_pc_page:
  assumes "sim_inv s" and "paging_call s s'" and "valid_page s i p"
  shows "pc_page s' i = pc_page s i"
proof -
  obtain j where j: "s_processes s ! nat i = Some j" using assms(3) by (auto simp: valid_page_def)
  have "nat i < 20" using slot_active(2) [OF assms(1), of i] assms(3) by (simp add: valid_page_def)
  then have "j < length (s_queue s)" using sim_inv_slot [OF assms(1) _ j] by simp
  moreover have "length (s_queue s') = length (s_queue s)"
    using paging_call_pc [OF assms(2)] by (metis length_map)
  ultimately have "p_pc (s_queue s' ! j) = p_pc (s_queue s ! j)"
    using paging_call_pc [OF assms(2)] by (metis nth_map)
  then show ?thesis using paging_call_table [OF assms(2)] j by (simp add: pc_page_def same_table_def)
qed

lemma paging_call_out:
  assumes "sim_inv s" and "paging_call s s'" and "valid_page s i p" and "state_of s i p = Out" and "p \<noteq> pc_page s i"
  shows "state_of s' i p = Out"
proof -
  have "state_of (snd (pagein i' p' s)) i p = Out" and "state_of (snd (pageout i' p' s)) i p = Out" for i' p'
    using pagein_spec [OF assms(1), of i' p'] pageout_spec [OF assms(1), of i' p'] assms(3-5)
    by (auto simp: set_state_def split: if_splits)
  then show ?thesis using assms(2) by (auto elim!: paging_callE)
qed

lemma paging_calls_out:
  assumes "paging_call\<^sup>*\<^sup>* s s'" and "sim_inv s" and "valid_page s i p" and "state_of s i p = Out" and "p \<noteq> pc_page s i"
  shows "state_of s' i p = Out \<and> pc_page s' i = pc_page s i"
  using assms(1)
proof (induction rule: rtranclp_induct)
  case base
  then show ?case using assms by simp
next
  case (step y z)
  have "sim_inv y" "valid_page y i p"
    using paging_calls_inv [OF step.hyps(1) assms(2)] same_table_valid assms(3) by auto
  then show ?case
    using paging_call_out [of y z i p] paging_call_pc_page [of y z i p] step assms(5) by simp
qed

subsection \<open>Properties\<close>

text \<open>A small state for examples: one job in slot 0, at address 0 of program 4, whose page 0 is in
  the given state and whose other pages are out.\<close>

definition sample_job :: "int \<Rightarrow> process" where
  "sample_job v = (resident_process 4 0)\<lparr>p_pages := v # replicate 19 (-101)\<rparr>"

definition sample_sim :: "int \<Rightarrow> sim" where
  "sample_sim v = \<lparr>s_sysclock = 0, s_procs = 20, s_pageouts = replicate 20 0,
     s_pagesavail = 100 - holds_frame v, s_processes = Some 0 # replicate 19 None,
     s_queue = sample_job v # replicate 39 (sample_job (-101)), s_queueend = 1, s_rng = 0\<rparr>"

lemma sample_sim_inv:
  assumes "-101 \<le> v" and "v \<le> 100"
  shows "sim_inv (sample_sim v)" and "valid_page (sample_sim v) 0 0"
    and "state_of (sample_sim v) 0 0 = abs_page v" and "pc_page (sample_sim v) 0 = 0"
proof -
  have wf: "wf_process programs (sample_job u)" if "-101 \<le> u" "u \<le> 100" for u
    using that wf_resident_process [of 4 0]
    by (simp add: sample_job_def wf_process_def resident_process_def programs_eval)
  have fr: "frames (sample_job u) = holds_frame u" for u
    by (simp add: frames_def sample_job_def holds_frame_def sum_list_replicate)
  have "sim_shape (sample_sim v)"
    using wf [OF assms] wf [of "-101"] by (simp add: sim_shape_def sample_sim_def)
  moreover have "sim_frames (sample_sim v)"
    by (simp add: sim_frames_def sample_sim_def total_frames_def fr sum_list_replicate)
      (simp add: holds_frame_def)
  moreover have "sim_table (sample_sim v)"
    unfolding sim_table_def sample_sim_def
    by (auto simp: nth_Cons' fr sample_job_def resident_process_def split: if_splits)
      (simp_all add: frames_def holds_frame_def sum_list_replicate)
  ultimately show "sim_inv (sample_sim v)" by (simp add: sim_inv_def)
  show "valid_page (sample_sim v) 0 0" "state_of (sample_sim v) 0 0 = abs_page v" "pc_page (sample_sim v) 0 = 0"
    by (simp_all add: valid_page_def state_of_def pc_page_def page_of_def sample_sim_def sample_job_def
        resident_process_def)
qed

text \<open>C14: The contract of \<open>pagein\<close> and \<open>pageout\<close>. \<open>pageout\<close> says yes exactly when the page is in,
  going or out, and starts a transfer of 100 ticks when it is in; \<open>pagein\<close> serves only the page of
  the program counter, says yes when it is in, coming, or out with a free frame, and then takes one
  frame and starts a transfer. Every other page, and the state after a refusal, is unchanged.\<close>

theorem paging_requests_contract:
  assumes "sim_inv s"
  shows "(fst (pageout i p s) \<longleftrightarrow> valid_page s i p \<and> \<not> (\<exists>n. state_of s i p = Coming n))
    \<and> (if valid_page s i p \<and> state_of s i p = In then set_state s i p (Going 100) (snd (pageout i p s))
         \<and> s_pagesavail (snd (pageout i p s)) = s_pagesavail s
       else snd (pageout i p s) = s)
    \<and> (fst (pagein i p s) \<longleftrightarrow> valid_page s i p \<and> p = pc_page s i
         \<and> (state_of s i p = In \<or> (\<exists>n. state_of s i p = Coming n) \<or> state_of s i p = Out \<and> s_pagesavail s \<noteq> 0))
    \<and> (if valid_page s i p \<and> p = pc_page s i \<and> state_of s i p = Out \<and> s_pagesavail s \<noteq> 0
       then set_state s i p (Coming 100) (snd (pagein i p s))
         \<and> s_pagesavail (snd (pagein i p s)) = s_pagesavail s - 1
       else snd (pagein i p s) = s)"
  using pageout_spec [OF assms, of i p] pagein_spec [OF assms, of i p] by blast

theorem paging_requests_contract_witness:
  "fst (pageout 0 0 (sample_sim 0)) \<and> fst (pagein 0 0 (sample_sim (-101)))
   \<and> s_pagesavail (snd (pagein 0 0 (sample_sim (-101)))) = 99 \<and> \<not> fst (pagein 0 1 (sample_sim (-101)))"
proof -
  have avail: "s_pagesavail (sample_sim (-101)) = 100" by (simp add: sample_sim_def holds_frame_def)
  show ?thesis
    using paging_requests_contract [of "sample_sim 0" 0 0] paging_requests_contract [of "sample_sim (-101)" 0 0]
      paging_requests_contract [of "sample_sim (-101)" 0 1] sample_sim_inv [of 0] sample_sim_inv [of "-101"]
    by (simp add: avail)
qed

text \<open>C9: A transfer takes exactly 100 ticks and nothing can disturb it: whatever calls a pager makes
  in between, a page that started coming in (going out) is \<open>n\<close> ticks later still coming (going) with
  \<open>100 - n\<close> ticks left, and the hundredth tick completes it.\<close>

theorem transfers_complete_on_schedule:
  assumes "sim_inv s" and "valid_page s i p" and "memory_run s n s'" and "n < 100"
    and "state_of s i p \<in> {Coming 100, Going 100}"
  shows "state_of s' i p = (if state_of s i p = Coming 100 then Coming (100 - n) else Going (100 - n))
    \<and> state_of (allage s') i p =
        (if state_of s i p = Coming 100 then (if n = 99 then In else Coming (99 - n))
         else (if n = 99 then Out else Going (99 - n)))"
proof -
  have now: "state_of s' i p = (tick_page ^^ n) (state_of s i p)"
    using memory_run_state [OF assms(3,1,2) _ assms(4)] assms(5) by blast
  have "sim_inv s'" "valid_page s' i p"
    using memory_run_inv [OF assms(3,1)] same_table_valid assms(2) by auto
  then have "state_of (allage s') i p = tick_page (state_of s' i p)" by (rule allage_state_of)
  then show ?thesis using now assms(4,5) tick_Coming [of n 100] tick_Going [of n 100] by auto
qed

theorem transfers_complete_on_schedule_witness:
  "state_of (allage (sample_sim 100)) 0 0 = Coming 99 \<and> state_of (allage (sample_sim (-1))) 0 0 = Going 99"
  using transfers_complete_on_schedule [OF _ _ run_start, of "sample_sim 100" 0 0]
    transfers_complete_on_schedule [OF _ _ run_start, of "sample_sim (-1)" 0 0]
    sample_sim_inv [of 100] sample_sim_inv [of "-1"] abs_page_simps
  by simp

text \<open>No pager can prefetch: whatever sequence of \<open>pagein\<close> and \<open>pageout\<close> calls is made, a page that
  is out and is not the page of its process's program counter is still out afterwards.\<close>

lemma no_pager_can_prefetch:
  assumes "sim_inv s" and "valid_page s i p" and "state_of s i p = Out" and "p \<noteq> pc_page s i"
    and "paging_call\<^sup>*\<^sup>* s s'"
  shows "state_of s' i p = Out"
  using paging_calls_out [OF assms(5,1-4)] by simp

lemma no_pager_can_prefetch_witness:
  "state_of (snd (pagein 0 1 (sample_sim 0))) 0 1 = Out"
proof (rule no_pager_can_prefetch)
  show "sim_inv (sample_sim 0)" "1 \<noteq> pc_page (sample_sim 0) 0" using sample_sim_inv [of 0] by simp_all
  show "valid_page (sample_sim 0) 0 1" "state_of (sample_sim 0) 0 1 = Out"
    by (simp_all add: valid_page_def state_of_def page_of_def sample_sim_def sample_job_def)
  show "paging_call\<^sup>*\<^sup>* (sample_sim 0) (snd (pagein 0 1 (sample_sim 0)))"
    using call_pagein by blast
qed



end
