(* ===== verification/Simulator.thy ===== *)
theory Simulator
  imports Paging
begin

text \<open>
  The job queue, the control loop and the pager interface of \<open>assignments/pa7/simulator.c\<close>:
  \<open>initqueue\<close>, \<open>dequeue\<close>, \<open>allinit\<close>, \<open>allstep\<close>, \<open>alldone\<close>, \<open>allblocked\<close>, \<open>allscore\<close>, \<open>callyou\<close>
  and the loop of \<open>main\<close>. The pager is an argument: a function from the \<open>Pentry\<close> array, the pager's
  static variables and the simulator state. The locale \<open>pager\<close> is what the control loop needs of it,
  and carries the lemmas on whole runs; the pagers of the repository interpret it.
\<close>

abbreviation (input) PROGRAMS :: nat where "PROGRAMS \<equiv> 5"

subsection \<open>The job queue\<close>

text \<open>\<open>queuetype[i]\<close> is written and read in the same turn of the loop, as \<open>i % PROGRAMS\<close>.\<close>

definition load_job :: "nat \<Rightarrow> sim \<Rightarrow> sim res" where
  "load_job i s =
     bindR (idx (s_queue s) (int i)) (\<lambda>q.
     bindR (process_load programs (process_clear q) (i mod PROGRAMS) (int i) (int (i mod PROGRAMS)) (s_rng s)) (\<lambda>(q', x).
     Inr (s\<lparr>s_queue := (s_queue s)[i := q'], s_rng := x\<rparr>)))"

definition initqueue :: "sim \<Rightarrow> sim res" where
  "initqueue s = bindR (foldR load_job [0..<QUEUESIZE] s) (\<lambda>s. Inr (s\<lparr>s_queueend := 0\<rparr>))"

definition queue_empty :: "sim \<Rightarrow> bool" where
  "queue_empty s \<longleftrightarrow> s_queueend s \<ge> QUEUESIZE"

definition dequeue :: "sim \<Rightarrow> nat option \<times> sim" where
  "dequeue s =
     (if s_queueend s < QUEUESIZE then (Some (s_queueend s), s\<lparr>s_queueend := s_queueend s + 1\<rparr>)
      else (None, s))"

text \<open>\<open>processes[i] = dequeue()\<close>, where the queue is not empty.\<close>

definition fill_slot :: "nat \<Rightarrow> sim \<Rightarrow> sim" where
  "fill_slot i s =
     (if \<not> queue_empty s then
        let (p, s') = dequeue s in s'\<lparr>s_processes := (s_processes s')[i := p]\<rparr>
      else s)"

definition allinit :: "sim \<Rightarrow> sim res" where
  "allinit s =
     bindR (initqueue s) (\<lambda>s.
     Inr (fold fill_slot [0..<s_procs s] (s\<lparr>s_processes := replicate MAXPROCESSES None\<rparr>)))"

subsection \<open>One tick\<close>

definition step_process :: "nat \<Rightarrow> sim \<Rightarrow> (bool \<times> sim) res" where
  "step_process i s =
     (case s_processes s ! i of None \<Rightarrow> Inr (False, s)
      | Some j \<Rightarrow>
          bindR (process_step programs (s_queue s ! j)) (\<lambda>(r, q).
          Inr (r, put_process j (s_pagesavail s) q s)))"

definition unload_slot :: "nat \<Rightarrow> sim \<Rightarrow> sim res" where
  "unload_slot i s =
     (case active_at s i of None \<Rightarrow> Inr s
      | Some j \<Rightarrow>
          bindR (process_unload (s_pagesavail s) (s_queue s ! j)) (\<lambda>(avail, q).
          Inr (put_process j avail q s)))"

definition step_slot :: "nat \<Rightarrow> sim \<Rightarrow> sim res" where
  "step_slot i s =
     bindR (step_process i s) (\<lambda>(r, s1).
     if \<not> r then
       bindR (unload_slot i s1) (\<lambda>s2.
       Inr (fill_slot i (s2\<lparr>s_processes := (s_processes s2)[i := None]\<rparr>)))
     else Inr s1)"

definition allstep :: "sim \<Rightarrow> sim res" where
  "allstep s = foldR step_slot [0..<s_procs s] s"

definition alldone :: "sim \<Rightarrow> bool" where
  "alldone s \<longleftrightarrow> list_all (\<lambda>i. active_at s i = None) [0..<s_procs s]"

text \<open>The counters of \<open>allblocked\<close>: pages swapped out, runnable, waiting for swap in, for swap out.\<close>

definition count_slot :: "sim \<Rightarrow> nat \<Rightarrow> nat \<times> nat \<times> nat \<times> nat \<Rightarrow> (nat \<times> nat \<times> nat \<times> nat) res" where
  "count_slot s i = (\<lambda>(allfree, runnable, memwait, freewait).
     case active_at s i of None \<Rightarrow> Inr (allfree, runnable, memwait, freewait)
     | Some j \<Rightarrow>
         bindR (idx (p_pages (s_queue s ! j)) (p_pc (s_queue s ! j) sdiv PAGESIZE)) (\<lambda>stat.
         Inr (if stat > 0 then (allfree, runnable, memwait + 1, freewait)
              else if stat = 0 then (allfree, runnable + 1, memwait, freewait)
              else if stat < -PAGEWAIT then (allfree + 1, runnable, memwait, freewait)
              else (allfree, runnable, memwait, freewait + 1))))"

definition allblocked :: "sim \<Rightarrow> bool res" where
  "allblocked s =
     bindR (foldR (count_slot s) [0..<s_procs s] (0, 0, 0, 0)) (\<lambda>(allfree, runnable, memwait, freewait).
     Inr (allfree \<noteq> 0 \<and> memwait = 0 \<and> runnable = 0 \<and> freewait = 0))"

text \<open>The totals \<open>allscore\<close> prints, blocked and computing ticks, as \<open>int\<close>.\<close>

definition allscore :: "sim \<Rightarrow> int \<times> int" where
  "allscore s =
     (fold (\<lambda>q n. c_int (n + p_block q)) (s_queue s) 0,
      fold (\<lambda>q n. c_int (n + p_compute q)) (s_queue s) 0)"

subsection \<open>Calling the pager\<close>

record pentry =
  e_active :: bool
  e_pc :: int
  e_npages :: int
  e_pages :: "bool list"

definition in_memory :: "process \<Rightarrow> bool list res" where
  "in_memory q =
     foldR (\<lambda>j ps. bindR (idx (p_pages q) (int j)) (\<lambda>v. store ps (int j) (v = 0)))
       [0..<nat (p_npages q)] (replicate MAXPROCPAGES False)"

definition entry :: "sim \<Rightarrow> nat \<Rightarrow> pentry res" where
  "entry s i =
     (case s_processes s ! i of
        Some j \<Rightarrow>
          let q = s_queue s ! j in
          bindR (in_memory q) (\<lambda>ps.
          Inr \<lparr>e_active = p_active q, e_pc = p_pc q, e_npages = p_npages q, e_pages = ps\<rparr>)
      | None \<Rightarrow> Inr \<lparr>e_active = False, e_pc = 0, e_npages = 0, e_pages = replicate MAXPROCPAGES False\<rparr>)"

definition snapshot :: "sim \<Rightarrow> pentry list res" where
  "snapshot s = foldR (\<lambda>i es. bindR (entry s i) (\<lambda>e. Inr (es @ [e]))) [0..<MAXPROCESSES] []"

type_synonym 'm pager = "pentry list \<Rightarrow> 'm \<Rightarrow> sim \<Rightarrow> ('m \<times> sim) res"

definition callyou :: "'m pager \<Rightarrow> 'm \<Rightarrow> sim \<Rightarrow> ('m \<times> sim) res" where
  "callyou pageit m s =
     bindR (snapshot s) (\<lambda>es. pageit es m (s\<lparr>s_pageouts := replicate MAXPROCESSES 0\<rparr>))"

subsection \<open>The main loop\<close>

definition sim_tick :: "'m pager \<Rightarrow> 'm \<times> sim \<Rightarrow> ('m \<times> sim) res" where
  "sim_tick pageit = (\<lambda>(m, s).
     bindR (allstep s) (\<lambda>s.
     bindR (callyou pageit m (allage s)) (\<lambda>(m, s).
     let s = s\<lparr>s_sysclock := s_sysclock s + 1\<rparr> in
     bindR (allblocked s) (\<lambda>_. Inr (m, s)))))"

text \<open>\<open>run_loop n\<close> runs the loop \<open>while (!alldone())\<close> for at most \<open>n\<close> turns; the loop has ended by
  then exactly if \<open>alldone\<close> holds in the state it returns.\<close>

fun run_loop :: "'m pager \<Rightarrow> nat \<Rightarrow> 'm \<times> sim \<Rightarrow> ('m \<times> sim) res" where
  "run_loop pageit 0 ms = Inr ms"
| "run_loop pageit (Suc n) ms =
     (if alldone (snd ms) then Inr ms else bindR (sim_tick pageit ms) (run_loop pageit n))"

text \<open>The static variables as the C runtime zero-initialises them, with the processor count \<open>-procs\<close>
  and the generator seeded by \<open>srand48\<close>; then \<open>allinit\<close> and the loop, as in \<open>main\<close>.\<close>

definition zero_process :: process where
  "zero_process = \<lparr>p_program = None, p_nbcontexts = 0, p_bcontexts = replicate MAXBRANCHES zero_bcontext,
     p_pc = 0, p_npages = 0, p_pages = replicate MAXPROCPAGES 0, p_blocked = replicate MAXPROCPAGES False,
     p_active = False, p_compute = 0, p_block = 0, p_pid = 0, p_kind = 0\<rparr>"

definition static_sim :: "nat \<Rightarrow> int \<Rightarrow> sim" where
  "static_sim procs seed = \<lparr>s_sysclock = 0, s_procs = procs, s_pageouts = replicate MAXPROCESSES 0,
     s_pagesavail = PHYSICALPAGES, s_processes = replicate MAXPROCESSES None,
     s_queue = replicate QUEUESIZE zero_process, s_queueend = 0, s_rng = srand48 seed\<rparr>"

definition simulate :: "'m pager \<Rightarrow> 'm \<Rightarrow> nat \<Rightarrow> int \<Rightarrow> nat \<Rightarrow> ('m \<times> sim) res" where
  "simulate pageit m procs seed n = bindR (allinit (static_sim procs seed)) (\<lambda>s. run_loop pageit n (m, s))"

subsection \<open>The invariant of the job queue\<close>

definition job_fresh :: "nat \<Rightarrow> process \<Rightarrow> bool" where
  "job_fresh j q \<longleftrightarrow> p_active q \<and> p_pages q = fresh_pages \<and> p_pc q = 0 \<and> p_compute q = 0 \<and> p_block q = 0"

text \<open>A finished job stands at an exit address of its program, has no pages and is inactive.\<close>

definition job_done :: "nat \<Rightarrow> process \<Rightarrow> bool" where
  "job_done j q \<longleftrightarrow> \<not> p_active q \<and> p_pages q = fresh_pages
     \<and> (let g = programs ! (j mod PROGRAMS) in p_pc q \<in> set (take (nat (g_nexits g)) (g_exits g)))"

definition jobs_inv :: "sim \<Rightarrow> bool" where
  "jobs_inv s \<longleftrightarrow>
     (\<forall>j < QUEUESIZE. p_program (s_queue s ! j) = Some (j mod PROGRAMS) \<and> p_pid (s_queue s ! j) = int j)
     \<and> (\<forall>j < QUEUESIZE. s_queueend s \<le> j \<longrightarrow> job_fresh j (s_queue s ! j))
     \<and> (\<forall>j < s_queueend s. Some j \<notin> set (s_processes s) \<longrightarrow> job_done j (s_queue s ! j))
     \<and> (\<forall>i < s_procs s. s_processes s ! i = None \<longrightarrow> queue_empty s)
     \<and> (\<forall>i < MAXPROCESSES. s_procs s \<le> i \<longrightarrow> s_processes s ! i = None)"

definition run_inv :: "sim \<Rightarrow> bool" where
  "run_inv s \<longleftrightarrow> sim_inv s \<and> jobs_inv s"

lemma jobs_inv_put:
  assumes "sim_inv s" and "jobs_inv s" and "i < MAXPROCESSES" and "s_processes s ! i = Some j"
    and "p_program q = p_program (s_queue s ! j)" and "p_pid q = p_pid (s_queue s ! j)"
  shows "jobs_inv (put_process j a q s)"
proof -
  note slot = sim_inv_slot [OF assms(1,3,4)]
  have "Some j \<in> set (s_processes s)"
    using assms(1,3,4) by (metis nth_mem sim_inv_def sim_shape_def)
  then show ?thesis
    using assms slot by (auto simp: jobs_inv_def queue_empty_def nth_list_update)
qed

lemma jobs_inv_cong [simp]:
  "jobs_inv (s\<lparr>s_pageouts := ps\<rparr>) = jobs_inv s" "jobs_inv (s\<lparr>s_sysclock := t\<rparr>) = jobs_inv s"
  by (simp_all add: jobs_inv_def queue_empty_def)

lemma sim_inv_sysclock [simp]: "sim_inv (s\<lparr>s_sysclock := t\<rparr>) = sim_inv s"
  by (simp add: sim_inv_def sim_shape_def sim_frames_def sim_table_def total_frames_def)

lemma jobs_inv_paging:
  assumes "sim_inv s" and "jobs_inv s"
  shows "jobs_inv (snd (pagein i p s))" and "jobs_inv (snd (pageout i p s))"
proof -
  have put: "jobs_inv (put_process j a ((s_queue s ! j)\<lparr>p_pages := pg\<rparr>) (s\<lparr>s_pageouts := ps\<rparr>))"
      "jobs_inv (put_process j a ((s_queue s ! j)\<lparr>p_pages := pg\<rparr>) s)"
    if "s_processes s ! nat i = Some j" "nat i < 20" for j a ps pg
    using jobs_inv_put [OF assms that(2,1), of "(s_queue s ! j)\<lparr>p_pages := pg\<rparr>" a]
    by (simp_all add: jobs_inv_def queue_empty_def)
  have "jobs_inv (snd (pagein i p s)) \<and> jobs_inv (snd (pageout i p s))"
  proof (cases "0 \<le> i \<and> i < int (s_procs s) \<and> s_processes s ! nat i \<noteq> None")
    case False
    then show ?thesis using paging_invalid_slot [OF assms(1) False] assms(2) by simp
  next
    case True
    then obtain j where j: "s_processes s ! nat i = Some j" by auto
    show ?thesis
      using put [OF j] slot_active [OF assms(1), of i] True j assms(2)
      by (auto simp: pagein_def pageout_def Let_def)
  qed
  then show "jobs_inv (snd (pagein i p s))" and "jobs_inv (snd (pageout i p s))" by blast+
qed

lemma run_inv_paging_call: "paging_call s s' \<Longrightarrow> run_inv s \<Longrightarrow> run_inv s'"
  using paging_call_inv [of s s'] jobs_inv_paging [of s] by (auto simp: run_inv_def elim!: paging_callE)

lemma run_inv_paging_calls: "paging_call\<^sup>*\<^sup>* s s' \<Longrightarrow> run_inv s \<Longrightarrow> run_inv s'"
  by (induction rule: rtranclp_induct) (auto intro: run_inv_paging_call)

lemma run_inv_age_slot:
  assumes "run_inv s" and "i < MAXPROCESSES"
  shows "run_inv (age_slot i s)"
proof (cases "s_processes s ! i")
  case None
  then show ?thesis using assms by (simp add: run_inv_def age_slot_def active_at_Some)
next
  case (Some j)
  then show ?thesis
    using assms age_slot_inv [of s i] age_slot_loaded [of s i j] jobs_inv_put [of s i j]
    by (simp add: run_inv_def aged_def)
qed

lemma run_inv_allage: "run_inv s \<Longrightarrow> run_inv (allage s)"
  unfolding allage_def
  by (rule fold_invariant [where Q = "\<lambda>i. i < MAXPROCESSES"])
    (auto simp: run_inv_age_slot, simp add: run_inv_def sim_inv_def sim_shape_def)

subsection \<open>Replacing a finished job\<close>

definition swap_slot :: "nat \<Rightarrow> nat option \<Rightarrow> nat \<Rightarrow> nat \<Rightarrow> int \<Rightarrow> process \<Rightarrow> sim \<Rightarrow> sim" where
  "swap_slot i p e j a q s = (put_process j a q s)\<lparr>s_processes := (s_processes s)[i := p], s_queueend := e\<rparr>"

lemma fill_slot_swap:
  "fill_slot i ((put_process j a q s)\<lparr>s_processes := (s_processes s)[i := None]\<rparr>) =
     (if s_queueend s < QUEUESIZE then swap_slot i (Some (s_queueend s)) (s_queueend s + 1) j a q s
      else swap_slot i None (s_queueend s) j a q s)"
  by (simp add: fill_slot_def queue_empty_def dequeue_def swap_slot_def)

lemma sim_table_inj:
  "sim_inv s \<Longrightarrow> i < MAXPROCESSES \<Longrightarrow> i' < MAXPROCESSES \<Longrightarrow> s_processes s ! i = Some j \<Longrightarrow>
   s_processes s ! i' = Some j \<Longrightarrow> i = i'"
  unfolding sim_inv_def sim_table_def by (metis option.distinct(1))

lemma table_mem_iff:
  "sim_inv s \<Longrightarrow> Some j \<in> set (s_processes s) \<longleftrightarrow> (\<exists>i < MAXPROCESSES. s_processes s ! i = Some j)"
  by (auto simp: sim_inv_def sim_shape_def in_set_conv_nth)

text \<open>The slot of a finished job may be emptied or given to the next job of the queue.\<close>

lemma swap_slot_inv:
  assumes inv: "run_inv s" and i: "i < s_procs s" and j: "s_processes s ! i = Some j"
    and q: "wf_process programs q" "frames q = 0" "job_done j q" "p_program q = p_program (s_queue s ! j)"
      "p_pid q = p_pid (s_queue s ! j)"
    and a: "a = s_pagesavail s + frames (s_queue s ! j)"
    and p: "p = None \<and> e = s_queueend s \<and> e = QUEUESIZE \<or>
            p = Some (s_queueend s) \<and> e = s_queueend s + 1 \<and> s_queueend s < QUEUESIZE"
  shows "run_inv (swap_slot i p e j a q s)"
proof -
  let ?s = "swap_slot i p e j a q s"
  have sim: "sim_inv s" and jobs: "jobs_inv s" using inv by (simp_all add: run_inv_def)
  have i20: "i < 20" and len: "length (s_processes s) = 20" "length (s_queue s) = 40" and e40: "s_queueend s \<le> 40"
    using i sim by (auto simp: sim_inv_def sim_shape_def)
  note slot = sim_inv_slot [OF sim i20 j]
  have tab: "s_processes ?s ! i' = (if i' = i then p else s_processes s ! i')" if "i' < 20" for i'
    using that i20 len by (simp add: swap_slot_def)
  have que: "s_queue ?s ! j' = (if j' = j then q else s_queue s ! j')" if "j' < 40" for j'
    using that len by (simp add: swap_slot_def nth_list_update)
  have other: "j' \<noteq> j \<and> j' < s_queueend s \<and> p_active (s_queue s ! j')"
    if "i' < 20" "i' \<noteq> i" "s_processes s ! i' = Some j'" for i' j'
    using sim_table_inj [OF sim i20, of i' j] sim_inv_slot [OF sim that(1,3)] that j by blast
  have mem: "Some j' \<in> set (s_processes ?s) \<longleftrightarrow> p = Some j' \<or> (\<exists>i' < 20. i' \<noteq> i \<and> s_processes s ! i' = Some j')" for j'
    using i20 len by (auto simp: in_set_conv_nth swap_slot_def nth_list_update split: if_splits)
  have shape: "sim_shape ?s"
    using sim q(1) p len by (auto simp: sim_inv_def sim_shape_def swap_slot_def intro: list_all_update)
  have "total_frames ?s = total_frames (put_process j a q s)" by (simp add: swap_slot_def total_frames_def)
  then have fr: "sim_frames ?s"
    using sim frames_nonneg [of "s_queue s ! j"] total_frames_put [OF slot(2), of a q] q(2) a
    by (simp add: sim_inv_def sim_frames_def) (simp add: swap_slot_def)
  have fresh: "p_active (s_queue s ! s_queueend s)" if "s_queueend s < 40"
    using jobs that by (simp add: jobs_inv_def job_fresh_def)
  have t1: "j' < s_queueend ?s \<and> p_active (s_queue ?s ! j')"
    if "i' < 20" "s_processes ?s ! i' = Some j'" for i' j'
    using other [of i' j'] that tab [OF that(1)] p fresh slot(3) que [of j'] e40
    by (auto simp: swap_slot_def nth_list_update split: if_splits)
  have t2: "i' = i''"
    if "i' < 20" "i'' < 20" "s_processes ?s ! i' = Some j'" "s_processes ?s ! i'' = Some j'" for i' i'' j'
    using other [of i' j'] other [of i'' j'] that tab p sim_table_inj [OF sim, of i' i'' j']
    by (auto split: if_splits)
  have t3: "frames (s_queue ?s ! j') = 0" if "j' < 40" "Some j' \<notin> set (s_processes ?s)" for j'
  proof (cases "j' = j")
    case True
    then show ?thesis using q(2) que that by simp
  next
    case False
    then have "Some j' \<notin> set (s_processes s)"
      using that(2) j i20 unfolding mem table_mem_iff [OF sim] by (metis option.inject)
    then show ?thesis using sim False que that(1) by (simp add: sim_inv_def sim_table_def)
  qed
  have table: "sim_table ?s"
    using t1 t2 t3 unfolding sim_table_def by (metis option.exhaust)
  have d: "job_done j' (s_queue ?s ! j')" if "j' < s_queueend ?s" "Some j' \<notin> set (s_processes ?s)" for j'
  proof (cases "j' = j")
    case True
    then show ?thesis using q(3) que slot(1) by simp
  next
    case False
    then have "Some j' \<notin> set (s_processes s)"
      using that(2) j i20 unfolding mem table_mem_iff [OF sim] by (metis option.inject)
    moreover have "j' < s_queueend s" using that p mem [of j'] by (auto simp: swap_slot_def)
    ultimately show ?thesis using jobs False que [of j'] e40 by (simp add: jobs_inv_def)
  qed
  have procs: "s_procs s \<le> 20" using sim by (simp add: sim_inv_def sim_shape_def)
  have c: "queue_empty ?s" if "i' < s_procs s" "s_processes ?s ! i' = None" for i'
    using that p jobs tab [of i'] procs by (auto simp: jobs_inv_def queue_empty_def swap_slot_def split: if_splits)
  have "jobs_inv ?s"
    unfolding jobs_inv_def
  proof (intro conjI)
    show "\<forall>i' < s_procs ?s. s_processes ?s ! i' = None \<longrightarrow> queue_empty ?s"
      using c by (simp add: swap_slot_def)
    show "\<forall>j' < s_queueend ?s. Some j' \<notin> set (s_processes ?s) \<longrightarrow> job_done j' (s_queue ?s ! j')"
      using d by simp
  qed (use jobs tab que slot(3) q(4,5) p i in \<open>auto simp: jobs_inv_def swap_slot_def nth_list_update\<close>)
  then show ?thesis using shape fr table by (simp add: run_inv_def sim_inv_def)
qed

subsection \<open>What a tick does to a slot\<close>

definition next_job :: "sim \<Rightarrow> nat option \<times> nat" where
  "next_job s = (if s_queueend s < QUEUESIZE then (Some (s_queueend s), s_queueend s + 1) else (None, s_queueend s))"

lemma run_inv_slot:
  assumes "run_inv s" and "i < s_procs s" and "s_processes s ! i = Some j"
  shows "i < MAXPROCESSES" and "j < QUEUESIZE" and "wf_process programs (s_queue s ! j)"
    and "p_active (s_queue s ! j)" and "p_program (s_queue s ! j) = Some (j mod PROGRAMS)"
    and "j < length (s_queue s)" and "j < s_queueend s"
proof -
  show i: "i < MAXPROCESSES" using assms by (auto simp: run_inv_def sim_inv_def sim_shape_def)
  have "sim_inv s" using assms(1) by (simp add: run_inv_def)
  note slot = sim_inv_slot [OF this i assms(3)]
  show "j < QUEUESIZE" "wf_process programs (s_queue s ! j)" "p_active (s_queue s ! j)"
    "j < length (s_queue s)" "j < s_queueend s" using slot by simp_all
  show "p_program (s_queue s ! j) = Some (j mod PROGRAMS)"
    using assms(1) slot(1) by (simp add: run_inv_def jobs_inv_def)
qed

lemma run_inv_lengths:
  assumes "run_inv s"
  shows "length (s_queue s) = QUEUESIZE" and "length (s_processes s) = MAXPROCESSES" and "s_procs s \<le> MAXPROCESSES"
    and "s_queueend s \<le> QUEUESIZE"
  using assms by (simp_all add: run_inv_def sim_inv_def sim_shape_def)

text \<open>An empty slot stays empty: the queue has no more jobs.\<close>

lemma step_slot_empty:
  assumes "run_inv s" and "i < s_procs s" and "s_processes s ! i = None"
  shows "step_slot i s = Inr s"
proof -
  have "queue_empty s" using assms by (simp add: run_inv_def jobs_inv_def)
  moreover have "s\<lparr>s_processes := (s_processes s)[i := None]\<rparr> = s"
    using assms(3) by (cases s) (simp add: list_update_same)
  ultimately show ?thesis
    using assms(3) by (simp add: step_slot_def step_process_def unload_slot_def active_at_def fill_slot_def)
qed

text \<open>A job that goes on replaces itself in the queue; a job that exits has a page of the exit
  address in memory, and its slot goes to the next job.\<close>

lemma step_slot_runs:
  assumes "run_inv s" and "i < s_procs s" and "s_processes s ! i = Some j"
    and "process_step programs (s_queue s ! j) = Inr (True, q)"
  shows "step_slot i s = Inr (put_process j (s_pagesavail s) q s)"
  using assms by (simp add: step_slot_def step_process_def)

lemma step_slot_exits:
  assumes "run_inv s" and "i < s_procs s" and "s_processes s ! i = Some j"
    and "process_step programs (s_queue s ! j) = Inr (False, q)"
  shows "\<exists>q'. step_slot i s = Inr (swap_slot i (fst (next_job s)) (snd (next_job s)) j
             (s_pagesavail s + frames (s_queue s ! j)) q' s)
    \<and> wf_process programs q' \<and> frames q' = 0 \<and> job_done j q' \<and> p_program q' = p_program (s_queue s ! j)
    \<and> p_pid q' = p_pid (s_queue s ! j) \<and> p_block q' = p_block (s_queue s ! j)
    \<and> p_compute q' = p_compute (s_queue s ! j) + 1
    \<and> p_pages (s_queue s ! j) ! cur_page (s_queue s ! j) = 0"
proof -
  note slot = run_inv_slot [OF assms(1-3)]
  have ex: "q = ticked (s_queue s ! j)" "wf_process programs q" "same_memory (s_queue s ! j) q"
    "p_pages (s_queue s ! j) ! cur_page (s_queue s ! j) = 0"
    "p_pc (s_queue s ! j) \<in> set (take (nat (g_nexits (programs ! (j mod 5)))) (g_exits (programs ! (j mod 5))))"
    using process_step_spec [OF wf_programs_programs slot(3)] slot(4,5)
    by (auto simp: assms(4) Let_def split: if_splits option.splits)
  have act: "p_active q" using ex(3) slot(4) by (simp add: same_memory_def)
  have "okR (process_unload (s_pagesavail s) q) (\<lambda>(a, q'). a = s_pagesavail s + frames (s_queue s ! j)
     \<and> frames q' = 0 \<and> wf_process programs q' \<and> job_done j q' \<and> p_program q' = p_program (s_queue s ! j)
     \<and> p_pid q' = p_pid (s_queue s ! j) \<and> p_compute q' = p_compute (s_queue s ! j) + 1
     \<and> p_block q' = p_block (s_queue s ! j))"
    using process_unload_spec [OF ex(2), of "s_pagesavail s"]
    by (rule okR_mono) (use ex frames_same_memory [OF ex(3)] in \<open>auto simp: job_done_def Let_def ticked_def\<close>)
  then obtain q' where unl: "process_unload (s_pagesavail s) q = Inr (s_pagesavail s + frames (s_queue s ! j), q')"
    "frames q' = 0" "wf_process programs q'" "job_done j q'" "p_program q' = p_program (s_queue s ! j)"
    "p_pid q' = p_pid (s_queue s ! j)" "p_compute q' = p_compute (s_queue s ! j) + 1"
    "p_block q' = p_block (s_queue s ! j)"
    by (auto simp: okR_iff)
  let ?s1 = "put_process j (s_pagesavail s) q s"
  let ?a = "s_pagesavail s + frames (s_queue s ! j)"
  have u: "unload_slot i ?s1 = Inr (put_process j ?a q' ?s1)"
    using assms(3) slot(6) act unl(1) by (simp add: unload_slot_def active_at_def)
  have two: "put_process j ?a q' ?s1 = put_process j ?a q' s"
    by (cases s) (simp add: put_process_def)
  have "step_slot i s = Inr (fill_slot i ((put_process j ?a q' s)\<lparr>s_processes := (s_processes s)[i := None]\<rparr>))"
    using assms(3,4) u unfolding two by (simp add: step_slot_def step_process_def)
  then have "step_slot i s = Inr (swap_slot i (fst (next_job s)) (snd (next_job s)) j ?a q' s)"
    by (simp add: fill_slot_swap next_job_def)
  then show ?thesis using unl ex(4) by blast
qed

lemma run_inv_put:
  assumes "run_inv s" and "i < s_procs s" and "s_processes s ! i = Some j"
    and "wf_process programs q" and "same_memory (s_queue s ! j) q"
  shows "run_inv (put_process j (s_pagesavail s) q s)"
proof -
  note slot = run_inv_slot [OF assms(1-3)]
  have "0 \<le> s_pagesavail s" using assms(1) by (simp add: run_inv_def sim_inv_def sim_frames_def)
  then show ?thesis
    using assms slot sim_inv_put [of s i j q "s_pagesavail s"] jobs_inv_put [of s i j q] frames_same_memory [OF assms(5)]
    by (simp add: run_inv_def same_memory_def)
qed

subsection \<open>Ticks are accounted for\<close>

text \<open>The processor time of all jobs, computing or blocked, and the number of loaded slots below \<open>n\<close>.\<close>

definition job_work :: "process \<Rightarrow> int" where
  "job_work q = p_compute q + p_block q"

definition work :: "sim \<Rightarrow> int" where
  "work s = sum_list (map job_work (s_queue s))"

definition busy :: "sim \<Rightarrow> nat \<Rightarrow> int" where
  "busy s n = int (length (filter (\<lambda>i. s_processes s ! i \<noteq> None) [0..<n]))"

lemma busy_Suc: "busy s (Suc n) = busy s n + (if s_processes s ! n = None then 0 else 1)"
  by (simp add: busy_def)

lemma work_put:
  "j < length (s_queue s) \<Longrightarrow>
   work (put_process j a q s) = work s - job_work (s_queue s ! j) + job_work q"
  by (simp add: work_def sum_list_map_update)

lemma work_swap: "work (swap_slot i p e j a q s) = work (put_process j a q s)"
  by (simp add: swap_slot_def work_def)

lemma job_work_simps [simp]:
  "job_work (ticked q) = job_work q + 1" "job_work (stalled q) = job_work q + 1"
  "job_work (q\<lparr>p_pc := v\<rparr>) = job_work q" "job_work (q\<lparr>p_bcontexts := cs, p_pc := v\<rparr>) = job_work q"
  by (simp_all add: job_work_def ticked_def stalled_def)

lemma process_step_work:
  assumes "wf_process programs q" and "p_active q"
  shows "okR (process_step programs q) (\<lambda>(r, q'). job_work q' = job_work q + 1)"
proof (cases "p_pages q ! cur_page q = 0")
  case False
  then show ?thesis using process_step_stalled [OF wf_programs_programs assms] by simp
next
  case True
  obtain k where k: "p_program q = Some k" and g: "wf_program (programs ! k)"
    using wf_process_prog [OF assms(1) wf_programs_programs] by blast
  have l: "length (p_bcontexts (ticked q)) = 40" "list_all wf_bcontext (p_bcontexts (ticked q))"
    using assms(1) by (simp_all add: wf_process_def)
  note run = process_step_running [OF wf_programs_programs assms True k refl]
  show ?thesis
  proof (cases "branch_taken (programs ! k) (p_pc q)")
    case None
    then show ?thesis by (simp add: run)
  next
    case (Some j)
    from process_dobranch_spec [OF g Some l] obtain q' where
      "process_dobranch (programs ! k) (ticked q) j = Inr (True, q')" "job_work q' = job_work q + 1"
      by (metis job_work_simps(1,4))
    then show ?thesis using Some by (simp add: run)
  qed
qed

text \<open>One slot of \<open>allstep\<close>.\<close>

definition slot_stepped :: "nat \<Rightarrow> sim \<Rightarrow> sim \<Rightarrow> bool" where
  "slot_stepped i s s' \<longleftrightarrow> s_procs s' = s_procs s \<and> s_sysclock s' = s_sysclock s
     \<and> (\<forall>i'. i' \<noteq> i \<longrightarrow> s_processes s' ! i' = s_processes s ! i')
     \<and> work s' = work s + (if s_processes s ! i = None then 0 else 1)"

lemma step_slot_inv:
  assumes "run_inv s" and "i < s_procs s"
  shows "okR (step_slot i s) (\<lambda>s'. run_inv s' \<and> slot_stepped i s s')"
proof (cases "s_processes s ! i")
  case None
  then show ?thesis using step_slot_empty [OF assms] assms by (simp add: slot_stepped_def)
next
  case (Some j)
  note slot = run_inv_slot [OF assms Some]
  obtain r q where step: "process_step programs (s_queue s ! j) = Inr (r, q)"
    and q: "wf_process programs q" "same_memory (s_queue s ! j) q" "job_work q = job_work (s_queue s ! j) + 1"
    using process_step_wf [OF wf_programs_programs slot(3)] process_step_work [OF slot(3,4)]
    by (auto simp: okR_iff)
  show ?thesis
  proof (cases r)
    case True
    then show ?thesis
      using step_slot_runs [OF assms Some] step run_inv_put [OF assms Some q(1,2)] q(3) Some slot(6)
      by (simp add: slot_stepped_def work_put)
  next
    case False
    let ?a = "s_pagesavail s + frames (s_queue s ! j)"
    obtain q' where s': "step_slot i s = Inr (swap_slot i (fst (next_job s)) (snd (next_job s)) j ?a q' s)"
      and q': "wf_process programs q'" "frames q' = 0" "job_done j q'" "p_program q' = p_program (s_queue s ! j)"
        "p_pid q' = p_pid (s_queue s ! j)" "p_block q' = p_block (s_queue s ! j)"
        "p_compute q' = p_compute (s_queue s ! j) + 1"
      using step_slot_exits [OF assms Some, of q] step False by auto
    have "run_inv (swap_slot i (fst (next_job s)) (snd (next_job s)) j ?a q' s)"
      by (rule swap_slot_inv [OF assms Some q'(1-5) refl])
        (use run_inv_lengths(4) [OF assms(1)] in \<open>auto simp: next_job_def\<close>)
    then show ?thesis
      using slot(6) q'(6,7) Some
      by (simp add: s' slot_stepped_def work_swap work_put job_work_def) (simp add: swap_slot_def)
  qed
qed

lemma allstep_inv:
  assumes "run_inv s"
  shows "okR (allstep s) (\<lambda>s'. run_inv s' \<and> s_procs s' = s_procs s \<and> s_sysclock s' = s_sysclock s
    \<and> work s' = work s + busy s (s_procs s))"
proof -
  let ?I = "\<lambda>n s'. run_inv s' \<and> s_procs s' = s_procs s \<and> s_sysclock s' = s_sysclock s
    \<and> (\<forall>i \<ge> n. s_processes s' ! i = s_processes s ! i) \<and> work s' = work s + busy s n"
  have "okR (foldR step_slot [0..<s_procs s] s) (?I (s_procs s))"
  proof (rule okR_foldR_upt [where I = ?I])
    fix i s' assume i: "i < s_procs s" and I: "?I i s'"
    then have "okR (step_slot i s') (\<lambda>s''. run_inv s'' \<and> slot_stepped i s' s'')"
      by (intro step_slot_inv) simp_all
    then show "okR (step_slot i s') (?I (Suc i))"
      by (rule okR_mono) (use I in \<open>auto simp: slot_stepped_def busy_Suc\<close>)
  qed (use assms in \<open>simp_all add: busy_def\<close>)
  then show ?thesis unfolding allstep_def by (rule okR_mono) simp
qed

text \<open>Paging and aging do not touch the counters.\<close>

lemma work_paging_call:
  assumes "run_inv s" and "paging_call s s'"
  shows "work s' = work s \<and> s_sysclock s' = s_sysclock s"
proof -
  have same: "work (put_process j a ((s_queue s ! j)\<lparr>p_pages := pg\<rparr>) s') = work s"
    if "s_queue s' = s_queue s" for j a pg s'
    using that work_put [of j s' a "(s_queue s ! j)\<lparr>p_pages := pg\<rparr>"]
    by (cases "j < length (s_queue s)") (auto simp: work_def job_work_def list_update_beyond not_less)
  have "work (snd (pagein i p s)) = work s \<and> s_sysclock (snd (pagein i p s)) = s_sysclock s" for i p
    by (auto simp: pagein_def Let_def same split: option.split)
  moreover have "work (snd (pageout i p s)) = work s \<and> s_sysclock (snd (pageout i p s)) = s_sysclock s" for i p
    by (auto simp: pageout_def Let_def same split: option.split)
  ultimately show ?thesis using assms(2) by (auto elim!: paging_callE)
qed

lemma work_paging_calls:
  "paging_call\<^sup>*\<^sup>* s s' \<Longrightarrow> run_inv s \<Longrightarrow> work s' = work s \<and> s_sysclock s' = s_sysclock s"
  by (induction rule: rtranclp_induct) (use work_paging_call run_inv_paging_calls in fastforce)+

lemma work_allage:
  assumes "run_inv s"
  shows "work (allage s) = work s" and "s_sysclock (allage s) = s_sysclock s"
proof -
  have len: "length (s_queue (allage s)) = length (s_queue s)"
    using run_inv_lengths(1) [OF assms] run_inv_lengths(1) [OF run_inv_allage [OF assms]] by simp
  have "map job_work (s_queue (allage s)) = map job_work (s_queue s)"
    using allage_queue [of s] assms run_inv_lengths(1) [OF assms] len
    by (intro nth_equalityI) (auto simp: run_inv_def aged_def job_work_def)
  then show "work (allage s) = work s" by (simp add: work_def)
  have "s_sysclock (fold age_slot xs s) = s_sysclock s" for xs
    by (induction xs arbitrary: s) simp_all
  then show "s_sysclock (allage s) = s_sysclock s" by (simp add: allage_def)
qed

subsection \<open>What the pager is shown\<close>

definition entry_of :: "sim \<Rightarrow> nat \<Rightarrow> pentry" where
  "entry_of s i =
     (case s_processes s ! i of
        Some j \<Rightarrow>
          let q = s_queue s ! j in
          \<lparr>e_active = True, e_pc = p_pc q, e_npages = int MAXPROCPAGES, e_pages = map (\<lambda>v. v = 0) (p_pages q)\<rparr>
      | None \<Rightarrow> \<lparr>e_active = False, e_pc = 0, e_npages = 0, e_pages = replicate MAXPROCPAGES False\<rparr>)"

definition entries_of :: "sim \<Rightarrow> pentry list" where
  "entries_of s = map (entry_of s) [0..<MAXPROCESSES]"

lemma in_memory_spec:
  assumes "wf_process progs q"
  shows "in_memory q = Inr (map (\<lambda>v. v = 0) (p_pages q))"
proof -
  have len: "length (p_pages q) = 20" "nat (p_npages q) = 20" using assms by (simp_all add: wf_process_def)
  let ?f = "\<lambda>j ps. bindR (idx (p_pages q) (int j)) (\<lambda>v. store ps (int j) (v = 0))"
  let ?I = "\<lambda>n ps. ps = map (\<lambda>v. v = 0) (take n (p_pages q)) @ replicate (20 - n) False"
  have "okR (foldR ?f [0..<20] (replicate 20 False)) (?I 20)"
  proof (rule okR_foldR_upt [where I = ?I])
    fix j ps assume j: "j < (20::nat)" and I: "?I j ps"
    have "replicate (20 - j) False = False # replicate (20 - Suc j) False"
      using j by (simp add: Suc_diff_Suc flip: replicate_Suc)
    then have "ps[j := p_pages q ! j = 0] = map (\<lambda>v. v = 0) (take (Suc j) (p_pages q)) @ replicate (20 - Suc j) False"
      using j len I by (simp add: list_update_append take_Suc_conv_app_nth)
    moreover have "length ps = 20" using I len j by simp
    ultimately show "okR (?f j ps) (?I (Suc j))" using j len by (simp add: okR_store)
  qed simp_all
  then show ?thesis using len by (simp add: in_memory_def okR_iff)
qed

lemma entry_spec: "run_inv s \<Longrightarrow> i < MAXPROCESSES \<Longrightarrow> entry s i = Inr (entry_of s i)"
  using in_memory_spec [of programs] sim_inv_slot [of s i]
  by (auto simp: entry_def entry_of_def run_inv_def wf_process_def Let_def split: option.split)

lemma snapshot_spec:
  assumes "run_inv s"
  shows "snapshot s = Inr (entries_of s)"
proof -
  let ?I = "\<lambda>n es. es = map (entry_of s) [0..<n]"
  have "okR (snapshot s) (?I 20)"
    unfolding snapshot_def
    by (rule okR_foldR_upt [where I = ?I]) (use entry_spec [OF assms] in simp_all)
  then show ?thesis by (simp add: okR_iff entries_of_def)
qed

lemma entries_of_pageouts [simp]: "entries_of (s\<lparr>s_pageouts := ps\<rparr>) = entries_of s"
proof -
  have "entry_of (s\<lparr>s_pageouts := ps\<rparr>) = entry_of s"
    by (rule ext) (simp add: entry_of_def split: option.split)
  then show ?thesis by (simp add: entries_of_def)
qed

text \<open>What a pager may rely on about its argument.\<close>

definition wf_entry :: "pentry \<Rightarrow> bool" where
  "wf_entry e \<longleftrightarrow> length (e_pages e) = MAXPROCPAGES
     \<and> (e_active e \<longrightarrow> 0 \<le> e_pc e \<and> e_pc e < int MAXPROCPAGES * PAGESIZE)"

definition wf_entries :: "pentry list \<Rightarrow> bool" where
  "wf_entries es \<longleftrightarrow> length es = MAXPROCESSES \<and> list_all wf_entry es"

lemma wf_entries_of:
  assumes "run_inv s"
  shows "wf_entries (entries_of s)"
proof -
  have "wf_entry (entry_of s i)" if "i < 20" for i
  proof (cases "s_processes s ! i")
    case (Some j)
    have "sim_inv s" using assms by (simp add: run_inv_def)
    from sim_inv_slot(5) [OF this that Some] have wf: "wf_process programs (s_queue s ! j)" .
    show ?thesis
      using wf_process_prog [OF wf wf_programs_programs] wf Some
      by (auto simp: wf_entry_def entry_of_def Let_def wf_process_def wf_program_def)
  qed (simp add: wf_entry_def entry_of_def)
  then show ?thesis by (simp add: wf_entries_def entries_of_def list_all_length)
qed

lemma run_inv_pageouts: "run_inv s \<Longrightarrow> run_inv (s\<lparr>s_pageouts := replicate MAXPROCESSES 0\<rparr>)"
  using sim_inv_pageouts [of s "replicate 20 0"] by (simp add: run_inv_def sim_inv_def sim_shape_def)

lemma run_inv_sysclock: "run_inv (s\<lparr>s_sysclock := t\<rparr>) = run_inv s"
  by (simp add: run_inv_def)

lemma allblocked_total:
  assumes "run_inv s"
  shows "\<exists>b. allblocked s = Inr b"
proof -
  have c: "okR (count_slot s i c) (\<lambda>_. True)" if "i \<in> set [0..<s_procs s]" for i and c :: "nat \<times> nat \<times> nat \<times> nat"
  proof (cases "s_processes s ! i")
    case None
    then show ?thesis by (cases c) (simp add: count_slot_def active_at_def)
  next
    case (Some j)
    have i: "i < s_procs s" using that by simp
    note slot = run_inv_slot [OF assms i Some]
    have "length (p_pages (s_queue s ! j)) = 20" using slot(3) by (simp add: wf_process_def)
    then show ?thesis
      using wf_process_page [OF slot(3) wf_programs_programs] Some slot(4)
      by (cases c) (simp add: count_slot_def active_at_def okR_idx)
  qed
  have "okR (foldR (count_slot s) [0..<s_procs s] (0, 0, 0, 0)) (\<lambda>_. True)"
    by (rule okR_foldR) (use c in auto)
  then show ?thesis by (auto simp: allblocked_def okR_iff split_def)
qed

subsection \<open>Initialisation\<close>

definition queue_loaded :: "nat \<Rightarrow> sim \<Rightarrow> bool" where
  "queue_loaded n s \<longleftrightarrow> (\<forall>j < n. wf_process programs (s_queue s ! j) \<and> job_fresh j (s_queue s ! j)
     \<and> p_program (s_queue s ! j) = Some (j mod PROGRAMS) \<and> p_pid (s_queue s ! j) = int j)"

definition queue_only :: "sim \<Rightarrow> sim \<Rightarrow> bool" where
  "queue_only s s' \<longleftrightarrow> (\<exists>qs x. s' = s\<lparr>s_queue := qs, s_rng := x\<rparr> \<and> length qs = QUEUESIZE
     \<and> list_all (\<lambda>q. length (p_bcontexts q) = MAXBRANCHES) qs)"

lemma length_programs: "length programs = PROGRAMS"
  by (simp add: programs_def)

lemma load_job_loaded:
  assumes "queue_only s0 s" and "queue_loaded i s" and "i < QUEUESIZE"
  shows "okR (load_job i s) (\<lambda>s'. queue_only s0 s' \<and> queue_loaded (Suc i) s')"
proof -
  from assms(1) obtain qs x where s: "s = s0\<lparr>s_queue := qs, s_rng := x\<rparr>" and len: "length qs = 40"
    and cs: "list_all (\<lambda>q. length (p_bcontexts q) = 40) qs" by (auto simp: queue_only_def)
  have "length (p_bcontexts (qs ! i)) = 40" using list_all_nth [OF cs] len assms(3) by simp
  then obtain q' x' where
    l: "process_load programs (process_clear (qs ! i)) (i mod 5) (int i) (int (i mod 5)) x = Inr (q', x')"
    and q': "wf_process programs q'" "job_fresh i q'" "p_program q' = Some (i mod 5)" "p_pid q' = int i"
    using process_load_wf [OF wf_programs_programs, of "i mod 5" "qs ! i" "int i" "int (i mod 5)" x] length_programs
    by (auto simp: okR_iff job_fresh_def)
  have "length (p_bcontexts q') = 40" using q'(1) by (simp add: wf_process_def)
  then have only: "queue_only s0 (s\<lparr>s_queue := (s_queue s)[i := q'], s_rng := x'\<rparr>)"
    using len cs unfolding queue_only_def
    by (intro exI [of _ "qs[i := q']"] exI [of _ x']) (simp add: s list_all_update)
  have "queue_loaded (Suc i) (s\<lparr>s_queue := (s_queue s)[i := q'], s_rng := x'\<rparr>)"
    using assms(2,3) q' len by (auto simp: queue_loaded_def s nth_list_update less_Suc_eq)
  then show ?thesis using only l len assms(3) s by (simp add: load_job_def)
qed

lemma initqueue_loaded:
  "okR (initqueue (static_sim procs seed)) (\<lambda>s. queue_only (static_sim procs seed) s \<and> queue_loaded QUEUESIZE s)"
proof -
  let ?s0 = "static_sim procs seed"
  have init: "queue_only ?s0 ?s0"
    unfolding queue_only_def
    by (intro exI [of _ "s_queue ?s0"] exI [of _ "s_rng ?s0"]) (simp add: static_sim_def zero_process_def)
  have "okR (foldR load_job [0..<40] ?s0) (\<lambda>s. queue_only ?s0 s \<and> queue_loaded 40 s)"
    by (rule okR_foldR_upt [where I = "\<lambda>n s. queue_only ?s0 s \<and> queue_loaded n s"])
      (use init load_job_loaded in \<open>auto simp: queue_loaded_def\<close>)
  then show ?thesis
    unfolding initqueue_def okR_bind
    by (rule okR_mono) (auto simp: queue_only_def queue_loaded_def static_sim_def)
qed

lemma fill_slots:
  assumes "s_queueend s = 0" and "s_processes s = replicate MAXPROCESSES None" and "n \<le> MAXPROCESSES"
  shows "fold fill_slot [0..<n] s =
    s\<lparr>s_processes := map Some [0..<n] @ replicate (MAXPROCESSES - n) None, s_queueend := n\<rparr>"
  using assms(3)
proof (induction n)
  case 0
  then show ?case using assms(1,2) by (cases s) simp
next
  case (Suc n)
  have "replicate (20 - n) (None :: nat option) = None # replicate (20 - Suc n) None"
    using Suc.prems by (simp add: Suc_diff_Suc flip: replicate_Suc)
  then show ?case
    using Suc by (simp add: fill_slot_def queue_empty_def dequeue_def list_update_append)
qed

text \<open>The state \<open>allinit\<close> builds: job \<open>i\<close> in slot \<open>i\<close>, all frames free, nothing computed yet.\<close>

definition started :: "nat \<Rightarrow> sim \<Rightarrow> bool" where
  "started procs s \<longleftrightarrow> s_procs s = procs \<and> s_sysclock s = 0 \<and> s_queueend s = procs \<and> s_pagesavail s = PHYSICALPAGES
     \<and> s_processes s = map Some [0..<procs] @ replicate (MAXPROCESSES - procs) None \<and> queue_loaded QUEUESIZE s"

lemma started_run_inv:
  assumes "started procs s" and "procs \<le> MAXPROCESSES" and "length (s_queue s) = QUEUESIZE"
    and "length (s_pageouts s) = MAXPROCESSES"
  shows "run_inv s \<and> work s = 0"
proof -
  have slot: "s_processes s ! i = (if i < procs then Some i else None)" if "i < 20" for i
    using that assms(1,2) by (auto simp: started_def nth_append)
  have fr: "frames (s_queue s ! j) = 0" "job_work (s_queue s ! j) = 0" if "j < 40" for j
    using that assms(1) by (auto simp: started_def queue_loaded_def job_fresh_def job_work_def)
  have "map frames (s_queue s) = replicate 40 0" "map job_work (s_queue s) = replicate 40 0"
    using fr assms(3) by (auto intro: nth_equalityI)
  then have tot: "total_frames s = 0" "work s = 0"
    by (simp_all add: total_frames_def work_def sum_list_replicate)
  have procs: "s_procs s = procs" "s_queueend s = procs" "s_pagesavail s = 100"
    using assms(1) by (simp_all add: started_def)
  have l: "wf_process programs (s_queue s ! j) \<and> job_fresh j (s_queue s ! j)
     \<and> p_program (s_queue s ! j) = Some (j mod 5) \<and> p_pid (s_queue s ! j) = int j" if "j < 40" for j
    using that assms(1) by (simp add: started_def queue_loaded_def)
  have "sim_shape s"
    using assms l by (simp add: sim_shape_def started_def list_all_length)
  moreover have "sim_table s"
    using slot l fr procs assms(2) unfolding sim_table_def job_fresh_def
    by (auto split: if_splits)
  moreover have "jobs_inv s"
    unfolding jobs_inv_def procs
  proof (intro conjI allI impI)
    fix j assume "j < procs" "Some j \<notin> set (s_processes s)"
    then show "job_done j (s_queue s ! j)" using assms(1) by (auto simp: started_def)
  qed (use l slot assms(2) in auto)
  ultimately show ?thesis
    using tot procs by (simp add: run_inv_def sim_inv_def sim_frames_def)
qed

lemma allinit_started:
  assumes "procs \<le> MAXPROCESSES"
  shows "okR (allinit (static_sim procs seed)) (\<lambda>s. started procs s \<and> run_inv s \<and> work s = 0)"
proof -
  have fin: "started procs s' \<and> run_inv s' \<and> work s' = 0"
    if only: "queue_only (static_sim procs seed) s" and loaded: "queue_loaded 40 s"
      and s': "s' = fold fill_slot [0..<s_procs s] (s\<lparr>s_processes := replicate 20 None\<rparr>)" for s s'
  proof -
    obtain qs x where s: "s = (static_sim procs seed)\<lparr>s_queue := qs, s_rng := x\<rparr>" and len: "length qs = 40"
      using only by (auto simp: queue_only_def)
    have e: "s' = s\<lparr>s_processes := map Some [0..<procs] @ replicate (20 - procs) None, s_queueend := procs\<rparr>"
      using fill_slots [of "s\<lparr>s_processes := replicate 20 None\<rparr>" procs] assms by (simp add: s' s static_sim_def)
    have "started procs s'"
      using loaded by (simp add: e started_def s static_sim_def queue_loaded_def)
    moreover have "length (s_queue s') = 40" "length (s_pageouts s') = 20"
      using len by (simp_all add: e s static_sim_def)
    ultimately show ?thesis using started_run_inv assms by blast
  qed
  show ?thesis
    unfolding allinit_def okR_bind
    by (rule okR_mono [OF initqueue_loaded]) (use fin in simp)
qed

subsection \<open>The pager interface\<close>

text \<open>What the simulator needs of a pager: on a well-formed snapshot it returns, keeps its own
  invariant, and changes the simulator only through \<open>pagein\<close> and \<open>pageout\<close>.\<close>

locale pager =
  fixes pageit :: "'m pager" and ok :: "'m \<Rightarrow> bool"
  assumes pageit_calls: "run_inv s \<Longrightarrow> ok m \<Longrightarrow>
    okR (pageit (entries_of s) m s) (\<lambda>(m', s'). ok m' \<and> paging_call\<^sup>*\<^sup>* s s')"
begin

lemma callyou_inv:
  assumes "run_inv s" and "ok m"
  shows "okR (callyou pageit m s) (\<lambda>(m', s'). ok m' \<and> run_inv s' \<and> s_procs s' = s_procs s
    \<and> s_sysclock s' = s_sysclock s \<and> work s' = work s)"
proof -
  let ?s = "s\<lparr>s_pageouts := replicate MAXPROCESSES 0\<rparr>"
  have s: "run_inv ?s" using run_inv_pageouts [OF assms(1)] .
  have "okR (pageit (entries_of s) m ?s) (\<lambda>(m', s'). ok m' \<and> paging_call\<^sup>*\<^sup>* ?s s')"
    using pageit_calls [OF s assms(2)] by simp
  moreover have "run_inv s' \<and> s_procs s' = s_procs s \<and> s_sysclock s' = s_sysclock s \<and> work s' = work s"
    if "paging_call\<^sup>*\<^sup>* ?s s'" for s'
    using that s run_inv_paging_calls [OF that s] work_paging_calls [OF that s] paging_calls_inv [OF that]
    by (simp add: run_inv_def same_table_def work_def)
  ultimately show ?thesis
    by (auto simp: callyou_def snapshot_spec [OF assms(1)] elim!: okR_mono)
qed

text \<open>One turn of the main loop: no fault, the invariant is kept, and the tick is charged once to
  every loaded process.\<close>

lemma sim_tick_inv:
  assumes "run_inv s" and "ok m"
  shows "okR (sim_tick pageit (m, s)) (\<lambda>(m', s'). ok m' \<and> run_inv s' \<and> s_procs s' = s_procs s
    \<and> s_sysclock s' = s_sysclock s + 1 \<and> work s' = work s + busy s (s_procs s))"
proof -
  obtain s1 where s1: "allstep s = Inr s1" "run_inv s1" "s_procs s1 = s_procs s" "s_sysclock s1 = s_sysclock s"
    "work s1 = work s + busy s (s_procs s)"
    using allstep_inv [OF assms(1)] by (auto simp: okR_iff)
  have s2: "run_inv (allage s1)" "s_procs (allage s1) = s_procs s" "s_sysclock (allage s1) = s_sysclock s"
    "work (allage s1) = work s + busy s (s_procs s)"
    using run_inv_allage [OF s1(2)] work_allage [OF s1(2)] allage_frame [of s1] s1 by (simp_all add: run_inv_def)
  obtain m' s3 where s3: "callyou pageit m (allage s1) = Inr (m', s3)" "ok m'" "run_inv s3"
    "s_procs s3 = s_procs s" "s_sysclock s3 = s_sysclock s" "work s3 = work s + busy s (s_procs s)"
    using callyou_inv [OF s2(1) assms(2)] s2 by (auto simp: okR_iff)
  have s4: "run_inv (s3\<lparr>s_sysclock := s_sysclock s3 + 1\<rparr>)" using s3(3) by (simp add: run_inv_sysclock)
  show ?thesis
    using allblocked_total [OF s4] s1(1) s3 s4 by (auto simp: sim_tick_def Let_def work_def)
qed

text \<open>A tick is a call of the pager on a well-formed state as far as the pager's variables go.\<close>

lemma sim_tick_client:
  assumes "run_inv s" and "ok m"
    and "\<And>s2. run_inv s2 \<Longrightarrow> okR (pageit (entries_of s2) m s2) (\<lambda>(m', _). J m')"
  shows "okR (sim_tick pageit (m, s)) (\<lambda>(m', _). J m')"
proof -
  obtain s1 where s1: "allstep s = Inr s1" "run_inv s1" using allstep_inv [OF assms(1)] by (auto simp: okR_iff)
  let ?s2 = "(allage s1)\<lparr>s_pageouts := replicate MAXPROCESSES 0\<rparr>"
  have s2: "run_inv (allage s1)" "run_inv ?s2" using run_inv_allage [OF s1(2)] run_inv_pageouts by auto
  obtain m' s3 where s3: "pageit (entries_of ?s2) m ?s2 = Inr (m', s3)" "J m'" "paging_call\<^sup>*\<^sup>* ?s2 s3"
    using assms(3) [OF s2(2)] pageit_calls [OF s2(2) assms(2)] by (auto simp: okR_iff)
  then have "run_inv s3" using run_inv_paging_calls s2(2) by blast
  then obtain b where "allblocked (s3\<lparr>s_sysclock := s_sysclock s3 + 1\<rparr>) = Inr b"
    using allblocked_total by (metis run_inv_sysclock)
  then show ?thesis
    using s1(1) s3 by (simp add: sim_tick_def callyou_def snapshot_spec [OF s2(1)] Let_def)
qed

text \<open>Induction over the turns of the loop, with an invariant of the client's choice.\<close>

lemma run_loop_rule:
  assumes "run_inv s" and "ok m" and "I m s"
    and "\<And>m s. run_inv s \<Longrightarrow> ok m \<Longrightarrow> I m s \<Longrightarrow> okR (sim_tick pageit (m, s)) (\<lambda>(m', s'). I m' s')"
  shows "okR (run_loop pageit n (m, s)) (\<lambda>(m', s'). ok m' \<and> run_inv s' \<and> s_procs s' = s_procs s \<and> I m' s')"
  using assms(1-3)
proof (induction n arbitrary: m s)
  case 0
  then show ?case by simp
next
  case (Suc n)
  obtain m1 s1 where t: "sim_tick pageit (m, s) = Inr (m1, s1)" "ok m1" "run_inv s1" "s_procs s1 = s_procs s" "I m1 s1"
    using sim_tick_inv [OF Suc.prems(1,2)] assms(4) [OF Suc.prems] by (auto simp: okR_iff)
  show ?case
    using Suc.IH [OF t(3,2,5)] Suc.prems t by simp
qed

text \<open>Every run of the simulator is free of faults and keeps the invariant.\<close>

lemma simulate_rule:
  assumes "procs \<le> MAXPROCESSES" and "ok m"
    and "\<And>s. started procs s \<Longrightarrow> run_inv s \<Longrightarrow> I m s"
    and "\<And>m s. run_inv s \<Longrightarrow> ok m \<Longrightarrow> I m s \<Longrightarrow> okR (sim_tick pageit (m, s)) (\<lambda>(m', s'). I m' s')"
  shows "okR (simulate pageit m procs seed n)
    (\<lambda>(m', s'). ok m' \<and> run_inv s' \<and> s_procs s' = procs \<and> I m' s')"
proof -
  obtain s where s: "allinit (static_sim procs seed) = Inr s" "started procs s" "run_inv s"
    using allinit_started [OF assms(1), of seed] by (auto simp: okR_iff)
  then show ?thesis
    using run_loop_rule [OF s(3) assms(2), of I n] assms(3,4) by (simp add: simulate_def started_def)
qed

lemma simulate_inv:
  assumes "procs \<le> MAXPROCESSES" and "ok m"
  shows "okR (simulate pageit m procs seed n) (\<lambda>(m', s'). ok m' \<and> run_inv s' \<and> s_procs s' = procs)"
  by (rule okR_mono [OF simulate_rule [where I = "\<lambda>_ _. True"]])
    (use assms in \<open>auto intro: okR_mono [OF sim_tick_inv]\<close>)

end

subsection \<open>The end of a run\<close>

text \<open>When the loop ends on at least one processor, the queue is exhausted and every job stands at an
  exit address of its program, its pages released; all physical frames are free again.\<close>

definition all_jobs_done :: "sim \<Rightarrow> bool" where
  "all_jobs_done s \<longleftrightarrow> (\<forall>j < QUEUESIZE. job_done j (s_queue s ! j)) \<and> s_pagesavail s = PHYSICALPAGES"

lemma alldone_iff:
  assumes "run_inv s"
  shows "alldone s \<longleftrightarrow> (\<forall>i < s_procs s. s_processes s ! i = None)"
  using assms active_at_Some [of s] by (auto simp: alldone_def run_inv_def list_all_iff sim_inv_def sim_shape_def)

lemma alldone_all_jobs:
  assumes "run_inv s" and "alldone s" and "0 < s_procs s"
  shows "all_jobs_done s"
proof -
  have inv: "sim_inv s" "jobs_inv s" using assms(1) by (simp_all add: run_inv_def)
  have none: "s_processes s ! i = None" if "i < 20" for i
    using that assms(2) inv(2) by (cases "i < s_procs s") (auto simp: alldone_iff [OF assms(1)] jobs_inv_def)
  then have tab: "Some j \<notin> set (s_processes s)" for j using table_mem_iff [OF inv(1)] by simp
  have "queue_empty s" using inv(2) assms(3) none [of 0] by (simp add: jobs_inv_def)
  then have fin: "job_done j (s_queue s ! j)" if "j < 40" for j
    using that tab inv(2) by (simp add: jobs_inv_def queue_empty_def)
  have "map frames (s_queue s) = replicate 40 0"
    using inv(1) tab run_inv_lengths(1) [OF assms(1)] by (intro nth_equalityI) (auto simp: sim_inv_def sim_table_def)
  then have "total_frames s = 0" by (simp add: total_frames_def sum_list_replicate)
  then show ?thesis using fin inv(1) by (simp add: all_jobs_done_def sim_inv_def sim_frames_def)
qed

subsection \<open>Deadlock detection\<close>

text \<open>The state of the page at the program counter of a loaded slot.\<close>

definition pc_state :: "sim \<Rightarrow> nat \<Rightarrow> page_state option" where
  "pc_state s i = (if s_processes s ! i = None then None else Some (state_of s (int i) (pc_page s (int i))))"

lemma pc_state_loaded:
  assumes "run_inv s" and "i < s_procs s" and "s_processes s ! i = Some j"
  shows "pc_state s i = Some (abs_page (p_pages (s_queue s ! j) ! cur_page (s_queue s ! j)))"
  using assms by (simp add: pc_state_def state_of_def page_of_def pc_page_def cur_page_def)

definition seen :: "sim \<Rightarrow> nat \<Rightarrow> (page_state \<Rightarrow> bool) \<Rightarrow> bool" where
  "seen s n P \<longleftrightarrow> (\<exists>i < n. \<exists>x. pc_state s i = Some x \<and> P x)"

lemma seen_0: "\<not> seen s 0 P"
  by (simp add: seen_def)

lemma seen_Suc: "seen s (Suc n) P \<longleftrightarrow> seen s n P \<or> (\<exists>x. pc_state s n = Some x \<and> P x)"
  by (auto simp: seen_def less_Suc_eq)

fun is_Coming :: "page_state \<Rightarrow> bool" where
  "is_Coming (Coming k) = True" | "is_Coming _ = False"

fun is_Going :: "page_state \<Rightarrow> bool" where
  "is_Going (Going k) = True" | "is_Going _ = False"

definition counted :: "sim \<Rightarrow> nat \<Rightarrow> nat \<times> nat \<times> nat \<times> nat \<Rightarrow> bool" where
  "counted s n = (\<lambda>(allfree, runnable, memwait, freewait).
     (allfree \<noteq> 0 \<longleftrightarrow> seen s n (\<lambda>x. x = Out)) \<and> (runnable \<noteq> 0 \<longleftrightarrow> seen s n (\<lambda>x. x = In))
     \<and> (memwait \<noteq> 0 \<longleftrightarrow> seen s n is_Coming) \<and> (freewait \<noteq> 0 \<longleftrightarrow> seen s n is_Going))"

lemma count_slot_counted:
  assumes "run_inv s" and "i < s_procs s" and "counted s i c"
  shows "okR (count_slot s i c) (counted s (Suc i))"
proof (cases "s_processes s ! i")
  case None
  then have "pc_state s i = None" by (simp add: pc_state_def)
  moreover have "count_slot s i c = Inr c" using None by (cases c) (simp add: count_slot_def active_at_def)
  ultimately show ?thesis using assms(3) by (cases c) (simp add: counted_def seen_Suc)
next
  case (Some j)
  note slot = run_inv_slot [OF assms(1,2) Some]
  let ?q = "s_queue s ! j"
  let ?v = "p_pages ?q ! cur_page ?q"
  have "length (p_pages ?q) = 20" using slot(3) by (simp add: wf_process_def)
  then have i: "idx (p_pages ?q) (p_pc ?q sdiv PAGESIZE) = Inr ?v"
    using wf_process_page [OF slot(3) wf_programs_programs] by simp
  have st: "pc_state s i = Some (abs_page ?v)" by (rule pc_state_loaded [OF assms(1,2) Some])
  obtain a r m f where c: "c = (a, r, m, f)" by (cases c) auto
  have e: "count_slot s i (a, r, m, f) = Inr (if ?v > 0 then (a, r, m + 1, f) else if ?v = 0 then (a, r + 1, m, f)
     else if ?v < -100 then (a + 1, r, m, f) else (a, r, m, f + 1))"
    using Some slot(4) i by (simp add: count_slot_def active_at_def)
  consider "?v > 0" "abs_page ?v = Coming (nat ?v)" | "?v = 0" "abs_page ?v = In" | "?v < -100" "abs_page ?v = Out"
    | "-100 \<le> ?v" "?v < 0" "abs_page ?v = Going (nat (?v + 101))"
    by (force simp: abs_page_def)
  then show ?thesis
    using assms(3) unfolding c e by cases (simp_all add: counted_def seen_Suc st del: abs_page_simps)
qed

lemma allblocked_spec:
  assumes "run_inv s"
  shows "allblocked s = Inr ((\<exists>i < s_procs s. s_processes s ! i \<noteq> None)
    \<and> (\<forall>i < s_procs s. s_processes s ! i \<noteq> None \<longrightarrow> pc_state s i = Some Out))"
proof -
  have "okR (foldR (count_slot s) [0..<s_procs s] (0, 0, 0, 0)) (counted s (s_procs s))"
    by (rule okR_foldR_upt [where I = "counted s"]) (use count_slot_counted [OF assms] in \<open>simp_all add: counted_def seen_0\<close>)
  then obtain a r m f where f: "foldR (count_slot s) [0..<s_procs s] (0, 0, 0, 0) = Inr (a, r, m, f)"
    and c: "counted s (s_procs s) (a, r, m, f)" by (auto simp: okR_iff)
  have "(\<exists>i < s_procs s. s_processes s ! i \<noteq> None) \<and> (\<forall>i < s_procs s. s_processes s ! i \<noteq> None \<longrightarrow> pc_state s i = Some Out)
     \<longleftrightarrow> a \<noteq> 0 \<and> m = 0 \<and> r = 0 \<and> f = 0"
  proof
    assume *: "(\<exists>i < s_procs s. s_processes s ! i \<noteq> None)
      \<and> (\<forall>i < s_procs s. s_processes s ! i \<noteq> None \<longrightarrow> pc_state s i = Some Out)"
    have "x = Out" if "i < s_procs s" "pc_state s i = Some x" for i x
      using * that by (auto simp: pc_state_def split: if_splits)
    then have "\<not> seen s (s_procs s) is_Coming" "\<not> seen s (s_procs s) (\<lambda>x. x = In)" "\<not> seen s (s_procs s) is_Going"
      by (fastforce simp: seen_def)+
    moreover have "seen s (s_procs s) (\<lambda>x. x = Out)" using * by (auto simp: seen_def)
    ultimately show "a \<noteq> 0 \<and> m = 0 \<and> r = 0 \<and> f = 0" using c by (simp add: counted_def)
  next
    assume "a \<noteq> 0 \<and> m = 0 \<and> r = 0 \<and> f = 0"
    then have s: "seen s (s_procs s) (\<lambda>x. x = Out)" "\<not> seen s (s_procs s) is_Coming"
      "\<not> seen s (s_procs s) (\<lambda>x. x = In)" "\<not> seen s (s_procs s) is_Going" using c by (simp_all add: counted_def)
    have "pc_state s i = Some Out" if i: "i < s_procs s" "s_processes s ! i \<noteq> None" for i
    proof -
      obtain x where x: "pc_state s i = Some x" using i(2) by (auto simp: pc_state_def)
      then show ?thesis using s(2-4) i(1) by (cases x) (auto simp: seen_def)
    qed
    moreover have "\<exists>i < s_procs s. s_processes s ! i \<noteq> None"
      using s(1) by (auto simp: seen_def pc_state_def split: if_splits)
    ultimately show "(\<exists>i < s_procs s. s_processes s ! i \<noteq> None)
      \<and> (\<forall>i < s_procs s. s_processes s ! i \<noteq> None \<longrightarrow> pc_state s i = Some Out)" by blast
  qed
  then show ?thesis by (simp add: allblocked_def f)
qed

subsection \<open>Properties\<close>

text \<open>From the zero-initialised static variables and any seed, \<open>allinit\<close> returns: every random
  table is filled, all 40 jobs are loaded and fresh, job \<open>i\<close> runs in slot \<open>i\<close>, and the system
  invariant holds (every frame free, the table injective).\<close>

lemma allinit_from_every_seed:
  assumes "procs \<le> MAXPROCESSES"
  shows "okR (allinit (static_sim procs seed)) (\<lambda>s. started procs s \<and> run_inv s)"
  by (rule okR_mono [OF allinit_started [OF assms]]) simp

lemma allinit_from_every_seed_witness:
  "okR (allinit (static_sim 4 512)) (\<lambda>s. started 4 s \<and> run_inv s)"
  by (rule allinit_from_every_seed) simp



text \<open>\<open>allblocked\<close> is exact: it reports a deadlock when at least one process is loaded and the
  page each loaded process needs next is swapped out, and only then.\<close>

lemma allblocked_exact:
  assumes "run_inv s"
  shows "allblocked s = Inr ((\<exists>i < s_procs s. s_processes s ! i \<noteq> None)
    \<and> (\<forall>i < s_procs s. s_processes s ! i \<noteq> None \<longrightarrow> pc_state s i = Some Out))"
  by (rule allblocked_spec [OF assms])

lemma allblocked_exact_witness:
  "okR (allinit (static_sim 4 512)) (\<lambda>s. allblocked s = Inr True)"
proof -
  have "allblocked s = Inr True" if s: "started 4 s" "run_inv s" for s
  proof -
    have tab: "s_processes s ! i = Some i" if "i < 4" for i
      using that s(1) by (simp add: started_def nth_append)
    have "pc_state s i = Some Out" if "i < 4" for i
      using s that pc_state_loaded [OF s(2), of i i] tab
      by (simp add: started_def queue_loaded_def job_fresh_def fresh_pages_def cur_page_def)
    then show ?thesis
      using allblocked_exact [OF s(2)] s(1) tab [of 0] by (auto simp: started_def intro!: exI [of _ 0])
  qed
  then show ?thesis by (intro okR_mono [OF allinit_started]) auto
qed

end
