(* ===== verification/Pager_Predict.thy ===== *)
theory Pager_Predict
  imports Simulator "HOL-Library.Multiset"
begin

text \<open>
  The predictive pager \<open>assignments/pa8/pager-predict.c\<close>: pending page operations, the two LRU
  searches, the transition matrix with its decay, the working sets and \<open>pageit\<close>. The static
  variables of \<open>pageit\<close> are the record \<open>predict\<close>. \<open>qsort\<close> of the C library leaves the order of equal
  elements open, so it is the argument \<open>qs\<close>, with the locale \<open>qsort_lib\<close> as its contract. The pager
  interprets the locale \<open>pager\<close>: its runs are free of faults, which here means that no index into its
  matrices is ever out of range.
\<close>

subsection \<open>Data\<close>

record paging =
  w_proc :: int
  w_page :: int
  w_start :: int
  w_end :: int
  w_waiting :: int
  w_pagein :: int

record page_data =
  d_page :: int
  d_freq :: int

record work_set =
  ws_proc :: int
  ws_type :: int
  ws_size :: int

record predict =
  k_initialized :: bool
  k_tick :: int
  k_timestamps :: "int list list"
  k_transitions :: "page_data list list list"
  k_last :: "int list"
  k_wait :: "paging list list"
  k_work :: "work_set list"

text \<open>Matrices in C: \<open>a[i][j]\<close> with both indices checked.\<close>

definition get2 :: "'a list list \<Rightarrow> int \<Rightarrow> int \<Rightarrow> 'a res" where
  "get2 a i j = bindR (idx a i) (\<lambda>r. idx r j)"

definition put2 :: "'a list list \<Rightarrow> int \<Rightarrow> int \<Rightarrow> 'a \<Rightarrow> 'a list list res" where
  "put2 a i j v = bindR (idx a i) (\<lambda>r. bindR (store r j v) (\<lambda>r'. store a i r'))"

abbreviation (input) FREEBUF :: int where "FREEBUF \<equiv> 18"
abbreviation (input) DECAY_INTERVAL :: int where "DECAY_INTERVAL \<equiv> 48000"
abbreviation (input) WINDOWSIZE :: int where "WINDOWSIZE \<equiv> 1000"
abbreviation (input) INT_MAX :: int where "INT_MAX \<equiv> 2147483647"

subsection \<open>Pending operations and victims\<close>

definition set_pending_page_op ::
  "paging list list \<Rightarrow> int \<Rightarrow> int \<Rightarrow> int \<Rightarrow> int \<Rightarrow> paging list list res" where
  "set_pending_page_op tracker proc page tick op =
     bindR (get2 tracker proc page) (\<lambda>w.
     put2 tracker proc page
       (w\<lparr>w_start := tick, w_end := tick + PAGEWAIT, w_pagein := op, w_waiting := 1\<rparr>))"

text \<open>The scan of the two searches: the best time so far with the page it belongs to, -1 for none.\<close>

definition lru_visit ::
  "int list list \<Rightarrow> pentry list \<Rightarrow> paging list list \<Rightarrow> nat \<times> nat \<Rightarrow> int \<times> int \<times> int \<Rightarrow> (int \<times> int \<times> int) res" where
  "lru_visit ts q wait = (\<lambda>(proc, vic) (lru_time, lru_proc, lru_page).
     bindR (idx q (int proc)) (\<lambda>e.
     bindR (idx (e_pages e) (int vic)) (\<lambda>inmem.
     bindR (get2 wait (int proc) (int vic)) (\<lambda>w.
     bindR (get2 ts (int proc) (int vic)) (\<lambda>t.
     Inr (if inmem \<and> w_waiting w = 0 \<and> t < lru_time then (t, int proc, int vic)
          else (lru_time, lru_proc, lru_page)))))))"

definition find_lru_page_local ::
  "int list list \<Rightarrow> pentry list \<Rightarrow> paging list list \<Rightarrow> nat \<Rightarrow> int option res" where
  "find_lru_page_local ts q wait proc =
     bindR (foldR (lru_visit ts q wait) (map (\<lambda>vic. (proc, vic)) [0..<MAXPROCPAGES]) (INT_MAX, -1, -1))
       (\<lambda>(t, p, v). Inr (if v = -1 then None else Some v))"

definition find_lru_page_global ::
  "int list list \<Rightarrow> pentry list \<Rightarrow> paging list list \<Rightarrow> (int \<times> int) option res" where
  "find_lru_page_global ts q wait =
     bindR (foldR (lru_visit ts q wait) (List.product [0..<MAXPROCESSES] [0..<MAXPROCPAGES]) (INT_MAX, -1, -1))
       (\<lambda>(t, p, v). Inr (if v = -1 then None else Some (p, v)))"

subsection \<open>Transitions\<close>

definition init_transition :: "page_data list list list" where
  "init_transition =
     replicate MAXPROCESSES (replicate MAXPROCPAGES
       (map (\<lambda>to. \<lparr>d_page = int to, d_freq = 0\<rparr>) [0..<MAXPROCPAGES]))"

text \<open>Rounding to the 24 significant bits of a \<open>float\<close>, half to even; \<open>0.8f\<close> is \<open>13421773 / 2^24\<close>.\<close>

fun bitlen :: "nat \<Rightarrow> nat" where
  "bitlen n = (if n = 0 then 0 else Suc (bitlen (n div 2)))"

definition round24 :: "nat \<Rightarrow> nat" where
  "round24 n =
     (let k = bitlen n - 24; q = n div 2 ^ k; r = n mod 2 ^ k in
      if 2 * r > 2 ^ k \<or> 2 * r = 2 ^ k \<and> odd q then (q + 1) * 2 ^ k else q * 2 ^ k)"

text \<open>\<open>freq = (int)freq * ALPHA\<close>: the product in \<open>float\<close>, truncated on assignment.\<close>

definition decay :: "int \<Rightarrow> int" where
  "decay f =
     (if 0 \<le> f then int (round24 (round24 (nat f) * 13421773) div 2 ^ 24)
      else - int (round24 (round24 (nat (- f)) * 13421773) div 2 ^ 24))"

definition apply_decay :: "page_data list list list \<Rightarrow> page_data list list list" where
  "apply_decay = map (map (map (\<lambda>d. d\<lparr>d_freq := decay (d_freq d)\<rparr>)))"

definition compare_frequencies :: "page_data \<Rightarrow> page_data \<Rightarrow> int" where
  "compare_frequencies a b = d_freq b - d_freq a"

type_synonym qsort = "(page_data \<Rightarrow> page_data \<Rightarrow> int) \<Rightarrow> page_data list \<Rightarrow> page_data list"

definition sort_pages :: "qsort \<Rightarrow> page_data list \<Rightarrow> nat \<Rightarrow> page_data list res" where
  "sort_pages qs pages n =
     (if n \<le> length pages then Inr (qs compare_frequencies (take n pages)) else Inl Out_Of_Bounds)"

subsection \<open>Working sets\<close>

definition init_workset :: "work_set list" where
  "init_workset = map (\<lambda>proc. \<lparr>ws_proc = int proc, ws_type = -1, ws_size = -1\<rparr>) [0..<MAXPROCESSES]"

text \<open>A granted page-in is noted in the tracker.\<close>

definition try_pagein :: "int \<Rightarrow> int \<Rightarrow> predict \<times> sim \<Rightarrow> (bool \<times> predict \<times> sim) res" where
  "try_pagein proc page = (\<lambda>(k, s).
     let (r, s') = pagein proc page s in
     if r then
       bindR (set_pending_page_op (k_wait k) proc page (k_tick k) 1) (\<lambda>wait.
       Inr (True, k\<lparr>k_wait := wait\<rparr>, s'))
     else Inr (False, k, s'))"

definition window_page :: "pentry list \<Rightarrow> nat \<Rightarrow> nat \<Rightarrow> int \<times> predict \<times> sim \<Rightarrow> (int \<times> predict \<times> sim) res" where
  "window_page q proc page = (\<lambda>(pg_count, k, s).
     bindR (get2 (k_timestamps k) (int proc) (int page)) (\<lambda>t.
     if k_tick k - t < WINDOWSIZE then
       bindR (idx q (int proc)) (\<lambda>e.
       bindR (idx (e_pages e) (int page)) (\<lambda>inmem.
       if \<not> inmem then
         bindR (try_pagein (int proc) (int page) (k, s)) (\<lambda>(_, k', s'). Inr (pg_count + 1, k', s'))
       else Inr (pg_count + 1, k, s)))
     else Inr (pg_count, k, s)))"

definition window_proc :: "pentry list \<Rightarrow> nat \<Rightarrow> predict \<times> sim \<Rightarrow> (predict \<times> sim) res" where
  "window_proc q proc = (\<lambda>(k, s).
     bindR (foldR (window_page q proc) [0..<MAXPROCPAGES] (0, k, s)) (\<lambda>(pg_count, k', s').
     bindR (idx (k_work k') (int proc)) (\<lambda>w.
     Inr (k'\<lparr>k_work := (k_work k')[proc := w\<lparr>ws_size := pg_count\<rparr>]\<rparr>, s'))))"

definition update_working_set :: "pentry list \<Rightarrow> predict \<times> sim \<Rightarrow> (predict \<times> sim) res" where
  "update_working_set q = (\<lambda>(k, s).
     if k_tick k smod WINDOWSIZE \<noteq> 0 then Inr (k, s)
     else foldR (window_proc q) [0..<MAXPROCESSES] (k, s))"

subsection \<open>The phases of \<open>pageit\<close>\<close>

text \<open>Initialisation of the static variables on the first call.\<close>

definition predict_init :: "predict \<Rightarrow> predict" where
  "predict_init k =
     (if \<not> k_initialized k then
        k\<lparr>k_transitions := init_transition, k_work := init_workset,
          k_timestamps := replicate MAXPROCESSES (replicate MAXPROCPAGES 0),
          k_wait := map (\<lambda>proc. map (\<lambda>page.
             \<lparr>w_proc = int proc, w_page = int page, w_start = -1, w_end = -1, w_waiting = 0, w_pagein = -1\<rparr>)
             [0..<MAXPROCPAGES]) [0..<MAXPROCESSES],
          k_initialized := True\<rparr>
      else k)"

text \<open>Completed operations are cleared.\<close>

definition expire :: "int \<Rightarrow> paging \<Rightarrow> paging" where
  "expire tick w =
     (if w_end w > 0 \<and> w_end w \<le> tick then w\<lparr>w_start := -1, w_end := -1, w_waiting := 0, w_pagein := -1\<rparr>
      else w)"

definition update_waits :: "predict \<Rightarrow> predict" where
  "update_waits k = k\<lparr>k_wait := map (map (expire (k_tick k))) (k_wait k)\<rparr>"

text \<open>\<open>in_mem_count\<close>: the pages in memory and the page-ins under way.\<close>

definition count_page :: "pentry list \<Rightarrow> paging list list \<Rightarrow> nat \<times> nat \<Rightarrow> int \<Rightarrow> int res" where
  "count_page q wait = (\<lambda>(proc, page) n.
     bindR (idx q (int proc)) (\<lambda>e.
     bindR (idx (e_pages e) (int page)) (\<lambda>inmem.
     if inmem then Inr (n + 1)
     else bindR (get2 wait (int proc) (int page)) (\<lambda>w.
       Inr (if w_waiting w \<noteq> 0 \<and> w_pagein w \<noteq> 0 then n + 1 else n)))))"

definition in_mem_count :: "pentry list \<Rightarrow> paging list list \<Rightarrow> int res" where
  "in_mem_count q wait =
     foldR (count_page q wait) (List.product [0..<MAXPROCESSES] [0..<MAXPROCPAGES]) 0"

text \<open>The free buffer: while fewer than \<open>FREEBUF\<close> frames are free, page out the oldest page.\<close>

definition free_one :: "pentry list \<Rightarrow> nat \<Rightarrow> predict \<times> sim \<Rightarrow> (predict \<times> sim) flow res" where
  "free_one q i = (\<lambda>(k, s).
     bindR (find_lru_page_global (k_timestamps k) q (k_wait k)) (\<lambda>r.
     case r of None \<Rightarrow> Inr (Break (k, s))
     | Some (lru_proc, lru_page) \<Rightarrow>
         let (ok, s') = pageout lru_proc lru_page s in
         if ok then
           bindR (set_pending_page_op (k_wait k) lru_proc lru_page (k_tick k) 0) (\<lambda>wait.
           Inr (Next (k\<lparr>k_wait := wait\<rparr>, s')))
         else Inr (Break (k, s'))))"

definition free_frames :: "pentry list \<Rightarrow> predict \<times> sim \<Rightarrow> (predict \<times> sim) res" where
  "free_frames q = (\<lambda>(k, s).
     bindR (in_mem_count q (k_wait k)) (\<lambda>n.
     if PHYSICALPAGES - n < FREEBUF
     then loopR (free_one q) [0..<nat (FREEBUF - (PHYSICALPAGES - n))] (k, s)
     else Inr (k, s)))"

text \<open>The transition matrix.\<close>

definition note_transition :: "pentry list \<Rightarrow> nat \<Rightarrow> predict \<Rightarrow> predict res" where
  "note_transition q proc k =
     bindR (idx q (int proc)) (\<lambda>e.
     if \<not> e_active e then Inr k
     else
       bindR (idx (k_last k) (int proc)) (\<lambda>last_page.
       if last_page = -1 then Inr k
       else
         let cur_page = e_pc e sdiv PAGESIZE in
         if last_page = cur_page then Inr k
         else
           bindR (store (k_last k) (int proc) cur_page) (\<lambda>last'.
           bindR (idx (k_transitions k) (int proc)) (\<lambda>tr.
           bindR (get2 tr last_page cur_page) (\<lambda>d.
           bindR (put2 tr last_page cur_page (d\<lparr>d_freq := d_freq d + 1, d_page := cur_page\<rparr>)) (\<lambda>tr'.
           let trs = (k_transitions k)[proc := tr'] in
           Inr (k\<lparr>k_last := last',
                  k_transitions := (if k_tick k smod DECAY_INTERVAL = 0 then apply_decay trs else trs)\<rparr>)))))))"

text \<open>The page each active process needs now.\<close>

definition serve_current :: "pentry list \<Rightarrow> nat \<Rightarrow> predict \<times> sim \<Rightarrow> (predict \<times> sim) flow res" where
  "serve_current q proc = (\<lambda>(k, s).
     bindR (idx q (int proc)) (\<lambda>e.
     if \<not> e_active e then Inr (Next (k, s))
     else
       let cur_page = e_pc e sdiv PAGESIZE in
       bindR (put2 (k_timestamps k) (int proc) cur_page (k_tick k)) (\<lambda>ts.
       let k1 = k\<lparr>k_timestamps := ts\<rparr> in
       bindR (idx (e_pages e) cur_page) (\<lambda>inmem.
       if inmem then Inr (Next (k1, s))
       else
         bindR (try_pagein (int proc) cur_page (k1, s)) (\<lambda>(ok, k2, s2).
         if ok then Inr (Next (k2, s2))
         else
           bindR (find_lru_page_local (k_timestamps k2) q (k_wait k2) proc) (\<lambda>r.
           case r of None \<Rightarrow> Inr (Next (k2, s2))
           | Some lru_page \<Rightarrow>
               let (out, s3) = pageout (int proc) lru_page s2 in
               if out then
                 bindR (set_pending_page_op (k_wait k2) (int proc) lru_page (k_tick k2) 0) (\<lambda>wait.
                 Inr (Break (k2\<lparr>k_wait := wait\<rparr>, s3)))
               else Inr (Next (k2, s3))))))))"

text \<open>Predictive page-ins. The first two entries of a sorted row are the likely next pages.\<close>

definition set_type :: "nat \<Rightarrow> int \<Rightarrow> predict \<Rightarrow> predict res" where
  "set_type proc t k =
     bindR (idx (k_work k) (int proc)) (\<lambda>w. Inr (k\<lparr>k_work := (k_work k)[proc := w\<lparr>ws_type := t\<rparr>]\<rparr>))"

definition sorted_row :: "qsort \<Rightarrow> predict \<Rightarrow> nat \<Rightarrow> int \<Rightarrow> page_data list res" where
  "sorted_row qs k proc page =
     bindR (idx (k_transitions k) (int proc)) (\<lambda>tr.
     bindR (idx tr page) (\<lambda>row. sort_pages qs row MAXPROCPAGES))"

definition prefetch :: "nat \<Rightarrow> int \<Rightarrow> predict \<times> sim \<Rightarrow> (predict \<times> sim) res" where
  "prefetch proc page ks = bindR (try_pagein (int proc) page ks) (\<lambda>(_, ks'). Inr ks')"

text \<open>The branch case: each of the two likely pages, and behind it the page that mostly follows.\<close>

definition prefetch_branch :: "qsort \<Rightarrow> nat \<Rightarrow> page_data \<Rightarrow> page_data \<Rightarrow> page_data \<Rightarrow> predict \<times> sim \<Rightarrow> (predict \<times> sim) res" where
  "prefetch_branch qs proc first_next first_alt second_next ks =
     bindR (try_pagein (int proc) (d_page first_next) ks) (\<lambda>(ok, ks1).
     bindR (if ok then prefetch proc (d_page second_next) ks1 else Inr ks1) (\<lambda>ks2.
     bindR (try_pagein (int proc) (d_page first_alt) ks2) (\<lambda>(ok, ks3).
     if ok then
       bindR (sorted_row qs (fst ks3) proc (d_page first_alt)) (\<lambda>second_trans_alt.
       bindR (idx second_trans_alt 0) (\<lambda>second_branch_next.
       prefetch proc (d_page second_branch_next) ks3))
     else Inr ks3)))"

definition predict_proc :: "qsort \<Rightarrow> pentry list \<Rightarrow> nat \<Rightarrow> predict \<times> sim \<Rightarrow> (predict \<times> sim) res" where
  "predict_proc qs q proc = (\<lambda>(k, s).
     bindR (idx q (int proc)) (\<lambda>e.
     if \<not> e_active e then Inr (k, s)
     else
       let cur_page = e_pc e sdiv PAGESIZE in
       bindR (sorted_row qs k proc cur_page) (\<lambda>first_trans.
       bindR (idx first_trans 0) (\<lambda>first_next.
       bindR (idx first_trans 1) (\<lambda>first_alt.
       if d_freq first_next = 0 then Inr (k, s)
       else
         bindR (sorted_row qs k proc (d_page first_next)) (\<lambda>second_trans.
         bindR (idx second_trans 0) (\<lambda>second_next.
         if d_page first_next > cur_page then
           bindR (set_type proc 0 k) (\<lambda>k1.
           bindR (prefetch proc (d_page first_next) (k1, s)) (\<lambda>ks2.
           prefetch proc (d_page second_next) ks2))
         else if d_page first_next < cur_page then
           bindR (set_type proc 1 k) (\<lambda>k1.
           foldR (prefetch proc) [d_page first_next..cur_page - 1] (k1, s))
         else if d_freq first_next > 0 \<and> d_freq first_alt > 0 then
           prefetch_branch qs proc first_next first_alt second_next (k, s)
         else Inr (k, s))))))))"

definition predict_pageit :: "qsort \<Rightarrow> predict pager" where
  "predict_pageit qs q k0 s =
     (let k1 = update_waits (predict_init k0) in
      bindR (free_frames q (k1, s)) (\<lambda>(k2, s2).
      bindR (foldR (note_transition q) [0..<MAXPROCESSES] k2) (\<lambda>k3.
      bindR (update_working_set q (k3, s2)) (\<lambda>ks4.
      bindR (loopR (serve_current q) [0..<MAXPROCESSES] ks4) (\<lambda>ks5.
      bindR (foldR (predict_proc qs q) [0..<MAXPROCESSES] ks5) (\<lambda>(k6, s6).
      Inr (k6\<lparr>k_tick := k_tick k6 + 1\<rparr>, s6)))))))"

text \<open>The static variables before the first call. The initialiser \<open>{ -1 }\<close> of \<open>pg_last\<close> sets
  element 0 only; the others are zero.\<close>

definition predict_static :: predict where
  "predict_static = \<lparr>k_initialized = False, k_tick = 1, k_timestamps = replicate MAXPROCESSES (replicate MAXPROCPAGES 0),
     k_transitions = replicate MAXPROCESSES (replicate MAXPROCPAGES (replicate MAXPROCPAGES \<lparr>d_page = 0, d_freq = 0\<rparr>)),
     k_last = -1 # replicate (MAXPROCESSES - 1) 0,
     k_wait = replicate MAXPROCESSES (replicate MAXPROCPAGES
       \<lparr>w_proc = 0, w_page = 0, w_start = 0, w_end = 0, w_waiting = 0, w_pagein = 0\<rparr>),
     k_work = replicate MAXPROCESSES \<lparr>ws_proc = 0, ws_type = 0, ws_size = 0\<rparr>\<rparr>"

subsection \<open>\<open>qsort\<close>\<close>

text \<open>The contract of the C library: a permutation of the array, in the order of the comparison
  function. It is used for the comparison of frequencies only.\<close>

locale qsort_lib =
  fixes qs :: qsort
  assumes qs_perm: "mset (qs compare_frequencies xs) = mset xs"
    and qs_sorted: "sorted_wrt (\<lambda>a b. compare_frequencies a b \<le> 0) (qs compare_frequencies xs)"
begin

lemma qs_set: "set (qs compare_frequencies xs) = set xs"
  using qs_perm [of xs] by (metis set_mset_mset)

lemma qs_length: "length (qs compare_frequencies xs) = length xs"
  using qs_perm [of xs] by (metis size_mset)

text \<open>The first entry is the most frequent one.\<close>

lemma qs_first_max:
  assumes "x \<in> set xs"
  shows "d_freq x \<le> d_freq (qs compare_frequencies xs ! 0)"
proof -
  from assms obtain i where i: "i < length xs" "qs compare_frequencies xs ! i = x"
    using qs_set [of xs] qs_length [of xs] by (metis in_set_conv_nth)
  then show ?thesis
    using sorted_wrt_nth_less [OF qs_sorted [of xs], of 0 i] qs_length [of xs]
    by (cases "i = 0") (auto simp: compare_frequencies_def)
qed

end

text \<open>A stable sort by descending frequency is one such function.\<close>

definition stable_qsort :: qsort where
  "stable_qsort cmp xs = rev (sort_key d_freq (rev xs))"

interpretation stable: qsort_lib stable_qsort
proof
  fix xs
  show "mset (stable_qsort compare_frequencies xs) = mset xs"
    by (simp add: stable_qsort_def)
  have "sorted (map d_freq (sort_key d_freq (rev xs)))" by simp
  then show "sorted_wrt (\<lambda>a b. compare_frequencies a b \<le> 0) (stable_qsort compare_frequencies xs)"
    by (simp add: stable_qsort_def sorted_wrt_rev compare_frequencies_def sorted_wrt_map)
qed

subsection \<open>The pager's own invariant\<close>

definition matrix :: "nat \<Rightarrow> nat \<Rightarrow> 'a list list \<Rightarrow> bool" where
  "matrix m n a \<longleftrightarrow> length a = m \<and> list_all (\<lambda>r. length r = n) a"

definition wf_row :: "page_data list \<Rightarrow> bool" where
  "wf_row row \<longleftrightarrow> length row = MAXPROCPAGES
     \<and> list_all (\<lambda>d. 0 \<le> d_page d \<and> d_page d < int MAXPROCPAGES \<and> 0 \<le> d_freq d) row"

definition wf_transitions :: "page_data list list \<Rightarrow> bool" where
  "wf_transitions tr \<longleftrightarrow> length tr = MAXPROCPAGES \<and> list_all wf_row tr"

definition wf_predict :: "predict \<Rightarrow> bool" where
  "wf_predict k \<longleftrightarrow> matrix MAXPROCESSES MAXPROCPAGES (k_timestamps k)
     \<and> matrix MAXPROCESSES MAXPROCPAGES (k_wait k)
     \<and> length (k_transitions k) = MAXPROCESSES \<and> list_all wf_transitions (k_transitions k)
     \<and> length (k_last k) = MAXPROCESSES \<and> list_all (\<lambda>v. -1 \<le> v \<and> v < int MAXPROCPAGES) (k_last k)
     \<and> length (k_work k) = MAXPROCESSES \<and> 1 \<le> k_tick k"

lemma matrix_row: "matrix m n a \<Longrightarrow> i < m \<Longrightarrow> length (a ! i) = n"
  by (simp add: matrix_def list_all_length)

lemma get2_in: "matrix m n a \<Longrightarrow> 0 \<le> i \<Longrightarrow> i < int m \<Longrightarrow> 0 \<le> j \<Longrightarrow> j < int n \<Longrightarrow> get2 a i j = Inr (a ! nat i ! nat j)"
  using matrix_row [of m n a "nat i"] by (simp add: get2_def matrix_def)

lemma put2_in:
  assumes "matrix m n a" and "0 \<le> i" and "i < int m" and "0 \<le> j" and "j < int n"
  shows "put2 a i j v = Inr (a[nat i := (a ! nat i)[nat j := v]])"
    and "matrix m n (a[nat i := (a ! nat i)[nat j := v]])"
proof -
  have len: "length (a ! nat i) = n" using assms by (intro matrix_row [of m]) auto
  then show "put2 a i j v = Inr (a[nat i := (a ! nat i)[nat j := v]])"
    using assms by (simp add: put2_def matrix_def)
  show "matrix m n (a[nat i := (a ! nat i)[nat j := v]])"
    using assms(1) len by (auto simp: matrix_def intro: list_all_update)
qed

lemma wf_entriesD:
  assumes "wf_entries q" and "proc < MAXPROCESSES"
  shows "idx q (int proc) = Inr (q ! proc)" and "length (e_pages (q ! proc)) = MAXPROCPAGES"
    and "e_active (q ! proc) \<Longrightarrow> 0 \<le> e_pc (q ! proc) sdiv PAGESIZE"
    and "e_active (q ! proc) \<Longrightarrow> e_pc (q ! proc) sdiv PAGESIZE < int MAXPROCPAGES"
proof -
  have "wf_entry (q ! proc)" "length q = 20" using assms by (simp_all add: wf_entries_def list_all_length)
  then show "idx q (int proc) = Inr (q ! proc)" "length (e_pages (q ! proc)) = MAXPROCPAGES"
    "e_active (q ! proc) \<Longrightarrow> 0 \<le> e_pc (q ! proc) sdiv PAGESIZE"
    "e_active (q ! proc) \<Longrightarrow> e_pc (q ! proc) sdiv PAGESIZE < int MAXPROCPAGES"
    using assms(2) by (auto simp: wf_entry_def sdiv_nonneg)
qed

text \<open>What every phase but the update of the transitions keeps, started in simulator state
  \<open>fst s0\<close>: the invariant, and what has been learned so far.\<close>

definition learned :: "predict \<Rightarrow> bool \<times> int \<times> int list \<times> page_data list list list" where
  "learned k = (k_initialized k, k_tick k, k_last k, k_transitions k)"

lemma learned_simps [simp]:
  "learned (k\<lparr>k_wait := w\<rparr>) = learned k" "learned (k\<lparr>k_timestamps := ts\<rparr>) = learned k"
  "learned (k\<lparr>k_work := ws\<rparr>) = learned k"
  by (simp_all add: learned_def)

definition keeps ::
  "sim \<times> (bool \<times> int \<times> int list \<times> page_data list list list) \<Rightarrow> predict \<times> sim \<Rightarrow> bool" where
  "keeps s0 ks \<longleftrightarrow> wf_predict (fst ks) \<and> paging_call\<^sup>*\<^sup>* (fst s0) (snd ks) \<and> learned (fst ks) = snd s0"

lemma keeps_call: "keeps s0 (k, s) \<Longrightarrow> paging_call s s' \<Longrightarrow> keeps s0 (k, s')"
  by (auto simp: keeps_def intro: rtranclp.rtrancl_into_rtrancl)

lemma set_pending_in:
  assumes "wf_predict k" and "0 \<le> proc" and "proc < int MAXPROCESSES" and "0 \<le> page" and "page < int MAXPROCPAGES"
  shows "\<exists>wait. set_pending_page_op (k_wait k) proc page tick op = Inr wait \<and> wf_predict (k\<lparr>k_wait := wait\<rparr>)"
proof -
  have m: "matrix 20 20 (k_wait k)" using assms(1) by (simp add: wf_predict_def)
  show ?thesis
    using get2_in [OF m, of proc page] put2_in [OF m, of proc page] assms
    by (auto simp: set_pending_page_op_def wf_predict_def)
qed

lemma try_pagein_keeps:
  assumes "keeps s0 ks" and "proc < MAXPROCESSES" and "0 \<le> page" and "page < int MAXPROCPAGES"
  shows "okR (try_pagein (int proc) page ks) (\<lambda>(r, ks'). keeps s0 ks'
    \<and> (\<exists>wait. fst ks' = (fst ks)\<lparr>k_wait := wait\<rparr>))"
proof -
  obtain k s where ks: "ks = (k, s)" by (cases ks)
  have c: "keeps s0 (k, snd (pagein (int proc) page s))"
    using assms(1) keeps_call call_pagein by (simp add: ks)
  have k: "wf_predict k" using assms(1) by (simp add: keeps_def ks)
  obtain wait where "set_pending_page_op (k_wait k) (int proc) page (k_tick k) 1 = Inr wait"
    "wf_predict (k\<lparr>k_wait := wait\<rparr>)"
    using set_pending_in [OF k, of "int proc" page] assms(2-4) by auto
  then show ?thesis
    using c by (auto simp: try_pagein_def ks keeps_def split_def Let_def intro: exI [of _ "k_wait k"])
qed

lemma pageout_keeps:
  assumes "keeps s0 (k, s)" and "0 \<le> proc" and "proc < int MAXPROCESSES" and "0 \<le> page" and "page < int MAXPROCPAGES"
    and "pageout proc page s = (r, s')"
  shows "keeps s0 (k, s') \<and> (\<exists>wait. set_pending_page_op (k_wait k) proc page (k_tick k) 0 = Inr wait
    \<and> keeps s0 (k\<lparr>k_wait := wait\<rparr>, s'))"
proof -
  have "keeps s0 (k, s')" using keeps_call [OF assms(1)] call_pageout [of s proc page] assms(6) by simp
  moreover have "wf_predict k" using assms(1) by (simp add: keeps_def)
  ultimately show ?thesis
    using set_pending_in [of k proc page "k_tick k" 0] assms(2-5) by (auto simp: keeps_def)
qed

subsection \<open>The least recently used page\<close>

definition eligible :: "pentry list \<Rightarrow> paging list list \<Rightarrow> nat \<Rightarrow> nat \<Rightarrow> bool" where
  "eligible q wait proc vic \<longleftrightarrow> e_pages (q ! proc) ! vic \<and> w_waiting (wait ! proc ! vic) = 0"

text \<open>\<open>lru_of D\<close>: the result of a scan of the pages \<open>D\<close>.\<close>

definition lru_of ::
  "int list list \<Rightarrow> pentry list \<Rightarrow> paging list list \<Rightarrow> (nat \<times> nat) set \<Rightarrow> int \<times> int \<times> int \<Rightarrow> bool" where
  "lru_of ts q wait D = (\<lambda>(t, p, v).
     (\<forall>(a, b) \<in> D. eligible q wait a b \<longrightarrow> t \<le> ts ! a ! b)
     \<and> (if v = -1 then t = INT_MAX
        else 0 \<le> p \<and> 0 \<le> v \<and> (nat p, nat v) \<in> D \<and> eligible q wait (nat p) (nat v)
          \<and> ts ! nat p ! nat v = t \<and> t < INT_MAX))"

lemma lru_visit_of:
  assumes "wf_entries q" and "matrix MAXPROCESSES MAXPROCPAGES wait" and "matrix MAXPROCESSES MAXPROCPAGES ts"
    and "proc < MAXPROCESSES" and "vic < MAXPROCPAGES" and "lru_of ts q wait D st"
  shows "okR (lru_visit ts q wait (proc, vic) st) (lru_of ts q wait (insert (proc, vic) D))"
proof -
  obtain t p v where st: "st = (t, p, v)" by (cases st) auto
  have e: "lru_visit ts q wait (proc, vic) st = Inr
     (if eligible q wait proc vic \<and> ts ! proc ! vic < t then (ts ! proc ! vic, int proc, int vic) else (t, p, v))"
    using wf_entriesD [OF assms(1,4)] get2_in [OF assms(2), of "int proc" "int vic"]
      get2_in [OF assms(3), of "int proc" "int vic"] assms(4,5)
    by (simp add: lru_visit_def st eligible_def)
  show ?thesis
  proof (cases "eligible q wait proc vic \<and> ts ! proc ! vic < t")
    case True
    then have "t \<le> INT_MAX" using assms(6) by (auto simp: lru_of_def st split: if_splits)
    then show ?thesis
      using True assms(6) unfolding e by (fastforce simp: lru_of_def st)
  next
    case False
    then show ?thesis
      using assms(6) unfolding e by (auto simp: lru_of_def st split: if_splits)
  qed
qed

lemma lru_scan_of:
  assumes "wf_entries q" and "matrix MAXPROCESSES MAXPROCPAGES wait" and "matrix MAXPROCESSES MAXPROCPAGES ts"
    and "set xs \<subseteq> {..<MAXPROCESSES} \<times> {..<MAXPROCPAGES}" and "lru_of ts q wait D st"
  shows "okR (foldR (lru_visit ts q wait) xs st) (lru_of ts q wait (D \<union> set xs))"
  using assms(4,5)
proof (induction xs arbitrary: D st)
  case Nil
  then show ?case by simp
next
  case (Cons x xs)
  obtain a b where x: "x = (a, b)" by (cases x)
  have ab: "a < 20" "b < 20" using Cons.prems(1) by (auto simp: x)
  have IH: "okR (foldR (lru_visit ts q wait) xs st') (lru_of ts q wait (D \<union> set (x # xs)))"
    if "lru_of ts q wait (insert x D) st'" for st'
    using Cons.IH [of "insert x D" st'] Cons.prems(1) that by simp
  show ?case
    using lru_visit_of [OF assms(1-3) ab Cons.prems(2)] IH by (auto simp: x elim!: okR_mono)
qed

lemma lru_start: "lru_of ts q wait {} (INT_MAX, -1, -1)"
  by (simp add: lru_of_def)

lemma find_lru_page_global_spec:
  assumes "wf_entries q" and "matrix MAXPROCESSES MAXPROCPAGES wait" and "matrix MAXPROCESSES MAXPROCPAGES ts"
  shows "okR (find_lru_page_global ts q wait) (\<lambda>r. case r of
      None \<Rightarrow> (\<forall>a < MAXPROCESSES. \<forall>b < MAXPROCPAGES. eligible q wait a b \<longrightarrow> INT_MAX \<le> ts ! a ! b)
    | Some (p, v) \<Rightarrow> 0 \<le> p \<and> p < int MAXPROCESSES \<and> 0 \<le> v \<and> v < int MAXPROCPAGES
        \<and> eligible q wait (nat p) (nat v)
        \<and> (\<forall>a < MAXPROCESSES. \<forall>b < MAXPROCPAGES. eligible q wait a b \<longrightarrow> ts ! nat p ! nat v \<le> ts ! a ! b))"
proof -
  let ?xs = "List.product [0..<20] [0..<20] :: (nat \<times> nat) list"
  have "okR (foldR (lru_visit ts q wait) ?xs (INT_MAX, -1, -1)) (lru_of ts q wait ({} \<union> set ?xs))"
    by (rule lru_scan_of [OF assms _ lru_start]) auto
  then show ?thesis
    by (auto simp: find_lru_page_global_def okR_iff lru_of_def split: if_splits)
qed

lemma find_lru_page_local_spec:
  assumes "wf_entries q" and "matrix MAXPROCESSES MAXPROCPAGES wait" and "matrix MAXPROCESSES MAXPROCPAGES ts"
    and "proc < MAXPROCESSES"
  shows "okR (find_lru_page_local ts q wait proc) (\<lambda>r. case r of
      None \<Rightarrow> (\<forall>b < MAXPROCPAGES. eligible q wait proc b \<longrightarrow> INT_MAX \<le> ts ! proc ! b)
    | Some v \<Rightarrow> 0 \<le> v \<and> v < int MAXPROCPAGES \<and> eligible q wait proc (nat v)
        \<and> (\<forall>b < MAXPROCPAGES. eligible q wait proc b \<longrightarrow> ts ! proc ! nat v \<le> ts ! proc ! b))"
proof -
  let ?xs = "map (\<lambda>vic. (proc, vic)) [0..<20] :: (nat \<times> nat) list"
  have "okR (foldR (lru_visit ts q wait) ?xs (INT_MAX, -1, -1)) (lru_of ts q wait ({} \<union> set ?xs))"
    by (rule lru_scan_of [OF assms(1-3) _ lru_start]) (use assms(4) in auto)
  then show ?thesis
    by (auto simp: find_lru_page_local_def okR_iff lru_of_def image_iff split: if_splits)
qed

subsection \<open>Every phase keeps the invariant\<close>

lemma decay_nonneg: "0 \<le> f \<Longrightarrow> 0 \<le> decay f"
  by (simp add: decay_def)

lemma wf_init_transition: "length init_transition = MAXPROCESSES" "list_all wf_transitions init_transition"
  by (simp_all add: init_transition_def wf_transitions_def wf_row_def list_all_iff)

lemma wf_predict_init: "wf_predict k \<Longrightarrow> wf_predict (predict_init k)"
  using wf_init_transition
  by (simp add: predict_init_def wf_predict_def matrix_def init_workset_def list_all_iff)

lemma wf_predict_static: "wf_predict predict_static"
  by (simp add: predict_static_def wf_predict_def matrix_def wf_transitions_def wf_row_def)

lemma wf_update_waits: "wf_predict k \<Longrightarrow> wf_predict (update_waits k)"
  by (simp add: update_waits_def wf_predict_def matrix_def list_all_iff)

lemma wf_apply_decay:
  "length (apply_decay trs) = length trs" "list_all wf_transitions trs \<Longrightarrow> list_all wf_transitions (apply_decay trs)"
  by (auto simp: apply_decay_def wf_transitions_def wf_row_def list_all_iff decay_nonneg)

lemma in_mem_count_total:
  assumes "wf_entries q" and "wf_predict k"
  shows "\<exists>n. in_mem_count q (k_wait k) = Inr n"
proof -
  have m: "matrix 20 20 (k_wait k)" using assms(2) by (simp add: wf_predict_def)
  have "okR (count_page q (k_wait k) x n) (\<lambda>_. True)" if "x \<in> {..<20} \<times> {..<20}" for x n
    using that wf_entriesD [OF assms(1)] get2_in [OF m] by (auto simp: count_page_def)
  then have "okR (in_mem_count q (k_wait k)) (\<lambda>_. True)"
    unfolding in_mem_count_def by (intro okR_foldR) auto
  then show ?thesis by (auto simp: okR_iff)
qed

lemma free_one_keeps:
  assumes "wf_entries q" and "keeps s0 ks"
  shows "okR (free_one q i ks) (\<lambda>r. keeps s0 (flow_state r))"
proof -
  obtain k s where ks: "ks = (k, s)" by (cases ks)
  have m: "matrix 20 20 (k_wait k)" "matrix 20 20 (k_timestamps k)"
    using assms(2) by (simp_all add: keeps_def ks wf_predict_def)
  obtain r where r: "find_lru_page_global (k_timestamps k) q (k_wait k) = Inr r"
    and range: "\<And>p v. r = Some (p, v) \<Longrightarrow> 0 \<le> p \<and> p < 20 \<and> 0 \<le> v \<and> v < 20"
    using find_lru_page_global_spec [OF assms(1) m] by (auto simp: okR_iff split: option.splits)
  show ?thesis
  proof (cases r)
    case None
    then show ?thesis using r assms(2) by (simp add: free_one_def ks)
  next
    case (Some pv)
    obtain p v where pv: "pv = (p, v)" by (cases pv)
    obtain ok s' where po: "pageout p v s = (ok, s')" by (cases "pageout p v s")
    have "0 \<le> p" "p < 20" "0 \<le> v" "v < 20" using range Some pv by auto
    then show ?thesis
      using pageout_keeps [of s0 k s p v ok s'] assms(2) po r Some
      by (auto simp: free_one_def ks pv)
  qed
qed

lemma free_frames_keeps:
  assumes "wf_entries q" and "keeps s0 ks"
  shows "okR (free_frames q ks) (keeps s0)"
proof -
  obtain k s where ks: "ks = (k, s)" by (cases ks)
  obtain n where n: "in_mem_count q (k_wait k) = Inr n"
    using in_mem_count_total [OF assms(1), of k] assms(2) by (auto simp: keeps_def ks)
  have "okR (loopR (free_one q) is (k, s)) (keeps s0)" for "is"
    by (rule okR_loopR) (use free_one_keeps [OF assms(1)] assms(2) in \<open>simp_all add: ks\<close>)
  then show ?thesis using assms(2) n by (simp add: free_frames_def ks)
qed

lemma wf_transitions_get:
  assumes "wf_predict k" and "proc < MAXPROCESSES"
  shows "idx (k_transitions k) (int proc) = Inr (k_transitions k ! proc)"
    and "wf_transitions (k_transitions k ! proc)"
  using assms by (simp_all add: wf_predict_def list_all_length)

lemma wf_transitions_matrix: "wf_transitions tr \<Longrightarrow> matrix MAXPROCPAGES MAXPROCPAGES tr"
  by (auto simp: wf_transitions_def matrix_def wf_row_def list_all_iff)

lemma wf_row_get: "wf_transitions tr \<Longrightarrow> i < MAXPROCPAGES \<Longrightarrow> wf_row (tr ! i)"
  by (simp add: wf_transitions_def list_all_length)

lemma wf_row_entry:
  "wf_row row \<Longrightarrow> d \<in> set row \<Longrightarrow> 0 \<le> d_page d \<and> d_page d < int MAXPROCPAGES \<and> 0 \<le> d_freq d"
  by (simp add: wf_row_def list_all_iff)

lemma wf_row_update:
  "wf_row row \<Longrightarrow> 0 \<le> d_page d \<Longrightarrow> d_page d < int MAXPROCPAGES \<Longrightarrow> 0 \<le> d_freq d \<Longrightarrow> wf_row (row[i := d])"
  by (auto simp: wf_row_def intro: list_all_update)

lemma note_transition_wf:
  assumes "wf_entries q" and "wf_predict k" and "proc < MAXPROCESSES"
  shows "okR (note_transition q proc k) wf_predict"
proof -
  let ?e = "q ! proc" and ?last = "k_last k ! proc" and ?cur = "e_pc (q ! proc) sdiv PAGESIZE"
  note e = wf_entriesD [OF assms(1,3)]
  have last: "idx (k_last k) (int proc) = Inr ?last" "-1 \<le> ?last" "?last < 20" and len: "length (k_last k) = 20"
    using assms(2,3) by (simp_all add: wf_predict_def list_all_length)
  show ?thesis
  proof (cases "e_active ?e \<and> ?last \<noteq> -1 \<and> ?last \<noteq> ?cur")
    case False
    then show ?thesis using assms(2) e(1) last(1) by (auto simp: note_transition_def Let_def)
  next
    case True
    let ?tr = "k_transitions k ! proc"
    let ?d = "?tr ! nat ?last ! nat ?cur"
    let ?d' = "?d\<lparr>d_freq := d_freq ?d + 1, d_page := ?cur\<rparr>"
    let ?tr' = "?tr[nat ?last := (?tr ! nat ?last)[nat ?cur := ?d']]"
    note tr = wf_transitions_get [OF assms(2,3)]
    have range: "0 \<le> ?last" "0 \<le> ?cur" "?cur < 20" using True last(2) e(3,4) by auto
    have row: "wf_row (?tr ! nat ?last)" using wf_row_get [OF tr(2)] range(1) last(3) by simp
    then have "?d \<in> set (?tr ! nat ?last)" using range by (simp add: wf_row_def)
    then have "wf_row ((?tr ! nat ?last)[nat ?cur := ?d'])"
      using row wf_row_entry [OF row] range by (intro wf_row_update) auto
    then have tr': "wf_transitions ?tr'" using tr(2) by (auto simp: wf_transitions_def intro: list_all_update)
    have m: "matrix 20 20 ?tr" by (rule wf_transitions_matrix [OF tr(2)])
    have g: "get2 ?tr ?last ?cur = Inr ?d" "put2 ?tr ?last ?cur ?d' = Inr ?tr'"
      using get2_in [OF m, of ?last ?cur] put2_in(1) [OF m, of ?last ?cur ?d'] range last(3) by simp_all
    have "list_all wf_transitions ((k_transitions k)[proc := ?tr'])"
      using assms(2) tr' by (auto simp: wf_predict_def intro: list_all_update)
    moreover have "list_all (\<lambda>v. -1 \<le> v \<and> v < 20) ((k_last k)[proc := ?cur])"
      using assms(2) range by (auto simp: wf_predict_def intro!: list_all_update)
    ultimately show ?thesis
      using True e(1) last(1) tr(1) g len assms(2,3)
      by (simp add: note_transition_def Let_def wf_apply_decay wf_predict_def)
  qed
qed

text \<open>The working sets.\<close>

lemma keeps_work:
  "keeps s0 (k, s) \<Longrightarrow> length ws = MAXPROCESSES \<Longrightarrow> keeps s0 (k\<lparr>k_work := ws\<rparr>, s)"
  by (simp add: keeps_def wf_predict_def)

lemma window_page_keeps:
  assumes "wf_entries q" and "proc < MAXPROCESSES" and "page < MAXPROCPAGES" and "keeps s0 (snd cks)"
  shows "okR (window_page q proc page cks) (\<lambda>cks'. keeps s0 (snd cks')
    \<and> fst cks' = fst cks + (if k_tick (fst (snd cks)) - k_timestamps (fst (snd cks)) ! proc ! page < WINDOWSIZE then 1 else 0)
    \<and> (\<exists>wait. fst (snd cks') = (fst (snd cks))\<lparr>k_wait := wait\<rparr>))"
proof -
  obtain c k s where cks: "cks = (c, k, s)" by (cases cks) auto
  have m: "matrix 20 20 (k_timestamps k)" using assms(4) by (simp add: keeps_def cks wf_predict_def)
  have t: "okR (try_pagein (int proc) (int page) (k, s)) (\<lambda>(r, ks'). keeps s0 ks'
    \<and> (\<exists>wait. fst ks' = k\<lparr>k_wait := wait\<rparr>))"
    using try_pagein_keeps [of s0 "(k, s)" proc "int page"] assms(2-4) by (simp add: cks)
  have id: "\<exists>wait. k = k\<lparr>k_wait := wait\<rparr>" by (rule exI [of _ "k_wait k"]) simp
  have e: "window_page q proc page cks =
     (if k_tick k - k_timestamps k ! proc ! page < WINDOWSIZE then
        if \<not> e_pages (q ! proc) ! page then
          bindR (try_pagein (int proc) (int page) (k, s)) (\<lambda>(_, k', s'). Inr (c + 1, k', s'))
        else Inr (c + 1, k, s)
      else Inr (c, k, s))"
    using wf_entriesD(1,2) [OF assms(1,2)] get2_in [OF m, of "int proc" "int page"] assms(2,3)
    by (simp add: window_page_def cks)
  show ?thesis
    using t assms(4) id unfolding e by (auto simp: cks split_def elim!: okR_mono)
qed

text \<open>The pages a process referenced within the last window.\<close>

definition in_window :: "predict \<Rightarrow> nat \<Rightarrow> nat \<Rightarrow> int" where
  "in_window k proc n =
     sum_list (map (\<lambda>page. if k_tick k - k_timestamps k ! proc ! page < WINDOWSIZE then 1 else 0) [0..<n])"

lemma window_proc_spec:
  assumes "wf_entries q" and "proc < MAXPROCESSES" and "keeps s0 ks"
  shows "okR (window_proc q proc ks) (\<lambda>ks'. keeps s0 ks' \<and> k_timestamps (fst ks') = k_timestamps (fst ks)
    \<and> k_work (fst ks') = (k_work (fst ks))[proc := (k_work (fst ks) ! proc)\<lparr>ws_size := in_window (fst ks) proc MAXPROCPAGES\<rparr>])"
proof -
  obtain k s where ks: "ks = (k, s)" by (cases ks)
  let ?I = "\<lambda>n cks. keeps s0 (snd cks) \<and> fst cks = in_window k proc n \<and> (\<exists>wait. fst (snd cks) = k\<lparr>k_wait := wait\<rparr>)"
  have "okR (foldR (window_page q proc) [0..<20] (0, k, s)) (?I 20)"
  proof (rule okR_foldR_upt [where I = ?I])
    fix page and cks :: "int \<times> predict \<times> sim"
    assume page: "page < 20" and I: "?I page cks"
    then have "okR (window_page q proc page cks) (\<lambda>cks'. keeps s0 (snd cks')
      \<and> fst cks' = fst cks + (if k_tick (fst (snd cks)) - k_timestamps (fst (snd cks)) ! proc ! page < WINDOWSIZE then 1 else 0)
      \<and> (\<exists>wait. fst (snd cks') = (fst (snd cks))\<lparr>k_wait := wait\<rparr>))"
      by (intro window_page_keeps [OF assms(1,2)]) simp_all
    then show "okR (window_page q proc page cks) (?I (Suc page))"
      by (rule okR_mono) (use I in \<open>auto simp: in_window_def\<close>)
  next
    show "?I 0 (0, k, s)" using assms(3) by (auto simp: ks in_window_def intro: exI [of _ "k_wait k"])
  qed simp
  then obtain k' s' wait where f: "foldR (window_page q proc) [0..<20] (0, k, s) = Inr (in_window k proc 20, k', s')"
    "keeps s0 (k', s')" "k' = k\<lparr>k_wait := wait\<rparr>"
    by (auto simp: okR_iff)
  moreover have "length (k_work k') = 20" using f(2) by (simp add: keeps_def wf_predict_def)
  ultimately show ?thesis using keeps_work assms(2) by (auto simp: window_proc_def ks)
qed

lemma window_proc_keeps:
  assumes "wf_entries q" and "proc < MAXPROCESSES" and "keeps s0 ks"
  shows "okR (window_proc q proc ks) (keeps s0)"
  by (rule okR_mono [OF window_proc_spec [OF assms]]) simp

lemma update_working_set_spec:
  assumes "wf_entries q" and "keeps s0 ks"
  shows "okR (update_working_set q ks) (\<lambda>ks'. keeps s0 ks'
    \<and> (if k_tick (fst ks) mod WINDOWSIZE = 0
       then \<forall>proc < MAXPROCESSES. ws_size (k_work (fst ks') ! proc) = in_window (fst ks) proc MAXPROCPAGES
       else ks' = ks))"
proof -
  obtain k s where ks: "ks = (k, s)" by (cases ks)
  have tick: "1 \<le> k_tick k" and len: "length (k_work k) = 20"
    using assms(2) by (simp_all add: keeps_def ks wf_predict_def)
  let ?I = "\<lambda>n ks'. keeps s0 ks' \<and> k_timestamps (fst ks') = k_timestamps k \<and> length (k_work (fst ks')) = 20
    \<and> (\<forall>proc < n. ws_size (k_work (fst ks') ! proc) = in_window k proc 20)"
  have "okR (foldR (window_proc q) [0..<20] (k, s)) (?I 20)"
  proof (rule okR_foldR_upt [where I = ?I])
    fix proc and ks' :: "predict \<times> sim"
    assume proc: "proc < 20" and I: "?I proc ks'"
    have "learned (fst ks') = learned k" using I assms(2) by (simp add: keeps_def ks)
    then have "k_tick (fst ks') = k_tick k" by (simp add: learned_def)
    then have "in_window (fst ks') proc 20 = in_window k proc 20" using I by (simp add: in_window_def)
    then show "okR (window_proc q proc ks') (?I (Suc proc))"
      using I proc by (intro okR_mono [OF window_proc_spec [OF assms(1) proc, of s0]])
        (auto simp: less_Suc_eq nth_list_update)
  qed (use assms(2) len in \<open>auto simp: ks\<close>)
  then show ?thesis
    using assms(2) tick unfolding ks by (auto simp: update_working_set_def smod_nonneg elim!: okR_mono)
qed

lemma update_working_set_keeps:
  assumes "wf_entries q" and "keeps s0 ks"
  shows "okR (update_working_set q ks) (keeps s0)"
  by (rule okR_mono [OF update_working_set_spec [OF assms]]) simp

text \<open>Serving the current pages.\<close>

lemma serve_current_keeps:
  assumes "wf_entries q" and "proc < MAXPROCESSES" and "keeps s0 ks"
  shows "okR (serve_current q proc ks) (\<lambda>r. keeps s0 (flow_state r))"
proof -
  obtain k s where ks: "ks = (k, s)" by (cases ks)
  note e = wf_entriesD [OF assms(1,2)]
  let ?cur = "e_pc (q ! proc) sdiv PAGESIZE"
  show ?thesis
  proof (cases "e_active (q ! proc)")
    case False
    then show ?thesis using e(1) assms(3) by (simp add: serve_current_def ks)
  next
    case True
    have cur: "0 \<le> ?cur" "?cur < 20" using e(3,4) True by simp_all
    have m: "matrix 20 20 (k_timestamps k)" using assms(3) by (simp add: keeps_def ks wf_predict_def)
    let ?ts = "(k_timestamps k)[proc := (k_timestamps k ! proc)[nat ?cur := k_tick k]]"
    have put: "put2 (k_timestamps k) (int proc) ?cur (k_tick k) = Inr ?ts" "matrix 20 20 ?ts"
      using put2_in [OF m, of "int proc" ?cur "k_tick k"] assms(2) cur by simp_all
    have k1: "keeps s0 (k\<lparr>k_timestamps := ?ts\<rparr>, s)"
      using assms(3) put(2) by (simp add: keeps_def ks wf_predict_def)
    obtain ok k2 s2 where t: "try_pagein (int proc) ?cur (k\<lparr>k_timestamps := ?ts\<rparr>, s) = Inr (ok, k2, s2)"
      and k2: "keeps s0 (k2, s2)"
      using try_pagein_keeps [OF k1 assms(2), of ?cur] cur by (auto simp: okR_iff)
    have m2: "matrix 20 20 (k_wait k2)" "matrix 20 20 (k_timestamps k2)"
      using k2 by (simp_all add: keeps_def wf_predict_def)
    obtain r where r: "find_lru_page_local (k_timestamps k2) q (k_wait k2) proc = Inr r"
      and range: "\<And>v. r = Some v \<Longrightarrow> 0 \<le> v \<and> v < 20"
      using find_lru_page_local_spec [OF assms(1) m2 assms(2)] by (auto simp: okR_iff split: option.splits)
    have out: "okR (case r of None \<Rightarrow> Inr (Next (k2, s2))
           | Some lru_page \<Rightarrow>
               let (out, s3) = pageout (int proc) lru_page s2 in
               if out then
                 bindR (set_pending_page_op (k_wait k2) (int proc) lru_page (k_tick k2) 0) (\<lambda>wait.
                 Inr (Break (k2\<lparr>k_wait := wait\<rparr>, s3)))
               else Inr (Next (k2, s3))) (\<lambda>r. keeps s0 (flow_state r))"
    proof (cases r)
      case None
      then show ?thesis using k2 by simp
    next
      case (Some v)
      obtain b s3 where po: "pageout (int proc) v s2 = (b, s3)" by (cases "pageout (int proc) v s2")
      show ?thesis
        using pageout_keeps [OF k2 _ _ _ _ po] range [OF Some] assms(2) Some po by auto
    qed
    show ?thesis
      using True e(1,2) cur put(1) t r out [unfolded Let_def] k1 k2
      by (simp add: serve_current_def ks Let_def)
  qed
qed

text \<open>The predictive page-ins; the sorted rows name pages only.\<close>

context qsort_lib
begin

lemma sorted_row_ok:
  assumes "wf_predict k" and "proc < MAXPROCESSES" and "0 \<le> page" and "page < int MAXPROCPAGES"
  shows "okR (sorted_row qs k proc page) (\<lambda>row. length row = MAXPROCPAGES
    \<and> (\<forall>d \<in> set row. 0 \<le> d_page d \<and> d_page d < int MAXPROCPAGES \<and> 0 \<le> d_freq d)
    \<and> (\<forall>d \<in> set (k_transitions k ! proc ! nat page). d_freq d \<le> d_freq (row ! 0)))"
proof -
  note tr = wf_transitions_get [OF assms(1,2)]
  have row: "wf_row (k_transitions k ! proc ! nat page)" using wf_row_get [OF tr(2)] assms(3,4) by simp
  have "length (k_transitions k ! proc) = 20" using tr(2) by (simp add: wf_transitions_def)
  then have "sorted_row qs k proc page = Inr (qs compare_frequencies (k_transitions k ! proc ! nat page))"
    using tr(1) row assms(3,4) by (simp add: sorted_row_def sort_pages_def wf_row_def)
  then show ?thesis
    using wf_row_entry [OF row] row qs_set qs_length qs_first_max by (simp add: wf_row_def)
qed

lemma sorted_row_first:
  assumes "wf_predict k" and "proc < MAXPROCESSES" and "0 \<le> page" and "page < int MAXPROCPAGES"
  shows "\<exists>row d0 d1. sorted_row qs k proc page = Inr row \<and> idx row 0 = Inr d0 \<and> idx row 1 = Inr d1
    \<and> 0 \<le> d_page d0 \<and> d_page d0 < int MAXPROCPAGES \<and> 0 \<le> d_page d1 \<and> d_page d1 < int MAXPROCPAGES"
proof -
  obtain row where row: "sorted_row qs k proc page = Inr row" "length row = 20"
    "\<forall>d \<in> set row. 0 \<le> d_page d \<and> d_page d < 20 \<and> 0 \<le> d_freq d"
    using sorted_row_ok [OF assms] by (auto simp: okR_iff)
  then have "row ! 0 \<in> set row" "row ! 1 \<in> set row" by simp_all
  then show ?thesis using row by auto
qed

lemma prefetch_keeps:
  assumes "proc < MAXPROCESSES" and "0 \<le> page" and "page < int MAXPROCPAGES" and "keeps s0 ks"
  shows "okR (prefetch proc page ks) (keeps s0)"
  using try_pagein_keeps [OF assms(4,1-3)] by (auto simp: prefetch_def okR_iff)

lemma prefetch_branch_keeps:
  assumes "proc < MAXPROCESSES" and "keeps s0 ks"
    and "0 \<le> d_page a" "d_page a < int MAXPROCPAGES" "0 \<le> d_page b" "d_page b < int MAXPROCPAGES"
      "0 \<le> d_page c" "d_page c < int MAXPROCPAGES"
  shows "okR (prefetch_branch qs proc a b c ks) (keeps s0)"
proof -
  obtain r1 ks1 where t1: "try_pagein (int proc) (d_page a) ks = Inr (r1, ks1)" "keeps s0 ks1"
    using try_pagein_keeps [OF assms(2,1,3,4)] by (auto simp: okR_iff)
  obtain ks2 where t2: "(if r1 then prefetch proc (d_page c) ks1 else Inr ks1) = Inr ks2" "keeps s0 ks2"
    using prefetch_keeps [OF assms(1,7,8) t1(2)] t1(2) by (cases r1) (auto simp: okR_iff)
  obtain r3 ks3 where t3: "try_pagein (int proc) (d_page b) ks2 = Inr (r3, ks3)" "keeps s0 ks3"
    using try_pagein_keeps [OF t2(2) assms(1,5,6)] by (auto simp: okR_iff)
  have "wf_predict (fst ks3)" using t3(2) by (simp add: keeps_def)
  from sorted_row_first [OF this assms(1,5,6)] obtain row d0 where
    row: "sorted_row qs (fst ks3) proc (d_page b) = Inr row" "idx row 0 = Inr d0" "0 \<le> d_page d0" "d_page d0 < 20"
    by auto
  then have "okR (prefetch proc (d_page d0) ks3) (keeps s0)" by (intro prefetch_keeps [OF assms(1)] t3(2)) simp_all
  then show ?thesis using t1 t2 t3 row by (simp add: prefetch_branch_def)
qed

lemma predict_proc_keeps:
  assumes "wf_entries q" and "proc < MAXPROCESSES" and "keeps s0 ks"
  shows "okR (predict_proc qs q proc ks) (keeps s0)"
proof -
  obtain k s where ks: "ks = (k, s)" by (cases ks)
  note e = wf_entriesD [OF assms(1,2)]
  let ?cur = "e_pc (q ! proc) sdiv PAGESIZE"
  have k: "wf_predict k" using assms(3) by (simp add: keeps_def ks)
  show ?thesis
  proof (cases "e_active (q ! proc)")
    case False
    then show ?thesis using e(1) assms(3) by (simp add: predict_proc_def ks)
  next
    case True
    have cur: "0 \<le> ?cur" "?cur < int 20" using e(3,4) True by simp_all
    obtain row d0 d1 where row: "sorted_row qs k proc ?cur = Inr row" "idx row 0 = Inr d0" "idx row 1 = Inr d1"
      and d0: "0 \<le> d_page d0" "d_page d0 < int 20" and d1: "0 \<le> d_page d1" "d_page d1 < int 20"
      using sorted_row_first [OF k assms(2) cur] by blast
    obtain row2 d2 where row2: "sorted_row qs k proc (d_page d0) = Inr row2" "idx row2 0 = Inr d2"
      and d2: "0 \<le> d_page d2" "d_page d2 < int 20"
      using sorted_row_first [OF k assms(2) d0] by blast
    have "length (k_work k) = 20" using k by (simp add: wf_predict_def)
    then have ty: "okR (set_type proc t k) (\<lambda>k1. keeps s0 (k1, s))" for t
      using keeps_work [of s0 k s] assms(2,3) by (simp add: set_type_def ks)
    have lin: "okR (prefetch proc (d_page d0) (k1, s)) (\<lambda>ks2. okR (prefetch proc (d_page d2) ks2) (keeps s0))"
      if "keeps s0 (k1, s)" for k1
      by (rule okR_mono [OF prefetch_keeps [OF assms(2) d0 that]]) (rule prefetch_keeps [OF assms(2) d2])
    have loop: "okR (foldR (prefetch proc) [d_page d0..?cur - 1] (k1, s)) (keeps s0)" if "keeps s0 (k1, s)" for k1
      by (rule okR_foldR) (use that prefetch_keeps [OF assms(2)] d0 cur in auto)
    have br: "okR (prefetch_branch qs proc d0 d1 d2 (k, s)) (keeps s0)"
      using prefetch_branch_keeps [OF assms(2,3) d0 d1 d2] by (simp add: ks)
    show ?thesis
      using True e(1) row row2 assms(3) br ty [THEN okR_mono] lin loop
      by (simp add: predict_proc_def ks Let_def)
  qed
qed

text \<open>The whole call: the transitions are updated once, between the phases.\<close>

lemma predict_pageit_phases:
  assumes "wf_entries q" and "wf_predict k"
  shows "okR (predict_pageit qs q k s) (\<lambda>(k', s'). wf_predict k' \<and> paging_call\<^sup>*\<^sup>* s s'
    \<and> (\<exists>k2 k3. learned k2 = learned (predict_init k) \<and> foldR (note_transition q) [0..<MAXPROCESSES] k2 = Inr k3
         \<and> wf_predict k2 \<and> k_last k' = k_last k3 \<and> k_transitions k' = k_transitions k3
         \<and> k_tick k' = k_tick k3 + 1 \<and> k_initialized k' = k_initialized k3))"
proof -
  let ?k1 = "update_waits (predict_init k)"
  have l1: "learned ?k1 = learned (predict_init k)" by (simp add: update_waits_def)
  have "keeps (s, learned ?k1) (?k1, s)" using wf_update_waits wf_predict_init assms(2) by (simp add: keeps_def)
  from free_frames_keeps [OF assms(1) this] obtain k2 s2 where
    2: "free_frames q (?k1, s) = Inr (k2, s2)" "keeps (s, learned ?k1) (k2, s2)" by (auto simp: okR_iff)
  have "okR (foldR (note_transition q) [0..<20] k2) wf_predict"
    by (rule okR_foldR) (use note_transition_wf [OF assms(1)] 2(2) in \<open>auto simp: keeps_def\<close>)
  then obtain k3 where 3: "foldR (note_transition q) [0..<20] k2 = Inr k3" "keeps (s, learned k3) (k3, s2)"
    using 2(2) by (auto simp: okR_iff keeps_def)
  obtain ks4 where 4: "update_working_set q (k3, s2) = Inr ks4" "keeps (s, learned k3) ks4"
    using update_working_set_keeps [OF assms(1) 3(2)] by (auto simp: okR_iff)
  have "okR (loopR (serve_current q) [0..<20] ks4) (keeps (s, learned k3))"
    by (rule okR_loopR) (use serve_current_keeps [OF assms(1)] 4(2) in auto)
  then obtain ks5 where 5: "loopR (serve_current q) [0..<20] ks4 = Inr ks5" "keeps (s, learned k3) ks5"
    by (auto simp: okR_iff)
  have "okR (foldR (predict_proc qs q) [0..<20] ks5) (keeps (s, learned k3))"
    by (rule okR_foldR) (use predict_proc_keeps [OF assms(1)] 5(2) in auto)
  then obtain k6 s6 where 6: "foldR (predict_proc qs q) [0..<20] ks5 = Inr (k6, s6)" "keeps (s, learned k3) (k6, s6)"
    by (auto simp: okR_iff)
  have call: "predict_pageit qs q k s = Inr (k6\<lparr>k_tick := k_tick k6 + 1\<rparr>, s6)"
    using 2(1) 3(1) 4(1) 5(1) 6(1) by (simp add: predict_pageit_def Let_def)
  have "wf_predict (k6\<lparr>k_tick := k_tick k6 + 1\<rparr>)" "paging_call\<^sup>*\<^sup>* s s6" "learned k6 = learned k3"
    using 6(2) by (simp_all add: keeps_def wf_predict_def)
  moreover have "learned k2 = learned (predict_init k)" "wf_predict k2" using 2(2) l1 by (simp_all add: keeps_def)
  ultimately show ?thesis using 3(1) by (auto simp: call learned_def)
qed

lemma predict_pageit_calls:
  assumes "wf_entries q" and "wf_predict k"
  shows "okR (predict_pageit qs q k s) (\<lambda>(k', s'). wf_predict k' \<and> paging_call\<^sup>*\<^sup>* s s')"
  by (rule okR_mono [OF predict_pageit_phases [OF assms]]) auto

sublocale predictive: pager "predict_pageit qs" wf_predict
  by unfold_locales (rule predict_pageit_calls [OF wf_entries_of])

end

subsection \<open>Slot 0 learns nothing\<close>

text \<open>\<open>pg_last[0]\<close> starts at -1, and only a slot whose last page is known gets a new one.\<close>

definition slot0_blank :: "predict \<Rightarrow> bool" where
  "slot0_blank k \<longleftrightarrow> k_last k ! 0 = -1 \<and> list_all (list_all (\<lambda>d. d_freq d = 0)) (k_transitions k ! 0)"

lemma decay_0: "decay 0 = 0"
  by (simp add: decay_def round24_def)

lemma slot0_apply_decay:
  assumes "length trs = MAXPROCESSES" and "list_all (list_all (\<lambda>d. d_freq d = 0)) (trs ! 0)"
  shows "list_all (list_all (\<lambda>d. d_freq d = 0)) (apply_decay trs ! 0)"
  using assms by (simp add: apply_decay_def list_all_iff decay_0)

lemma note_transition_slot0:
  assumes "wf_entries q" and "wf_predict k" and "proc < MAXPROCESSES" and "slot0_blank k"
  shows "okR (note_transition q proc k) slot0_blank"
proof (cases "note_transition q proc k")
  case (Inl e)
  then show ?thesis using note_transition_wf [OF assms(1-3)] by simp
next
  case (Inr k')
  let ?last = "k_last k ! proc" and ?cur = "e_pc (q ! proc) sdiv PAGESIZE"
  have len: "length (k_last k) = 20" "length (k_transitions k) = 20"
    using assms(2) by (simp_all add: wf_predict_def)
  show ?thesis
  proof (cases "proc = 0")
    case True
    then have "note_transition q proc k = Inr k"
      using assms(4) len wf_entriesD(1) [OF assms(1,3)]
      by (simp add: note_transition_def slot0_blank_def)
    then show ?thesis using assms(4) by simp
  next
    case False
    from Inr show ?thesis
      using False assms(4) len wf_entriesD(1) [OF assms(1,3)] slot0_apply_decay
      by (auto simp: note_transition_def slot0_blank_def bindR_eq_Inr Let_def store_def split: if_splits)
  qed
qed

lemma slot0_init: "slot0_blank k \<Longrightarrow> slot0_blank (predict_init k)"
  by (simp add: slot0_blank_def predict_init_def init_transition_def list_all_iff)

context qsort_lib
begin

lemma predict_pageit_slot0:
  assumes "wf_entries q" and "wf_predict k" and "slot0_blank k"
  shows "okR (predict_pageit qs q k s) (\<lambda>(k', _). slot0_blank k')"
proof -
  have done2: "slot0_blank k'"
    if k2: "learned k2 = learned (predict_init k)" "foldR (note_transition q) [0..<20] k2 = Inr k3" "wf_predict k2"
      and k': "k_last k' = k_last k3" "k_transitions k' = k_transitions k3" for k2 k3 k'
  proof -
    have "slot0_blank k2"
      using slot0_init [OF assms(3)] k2(1) by (simp add: slot0_blank_def learned_def)
    then have "okR (foldR (note_transition q) [0..<20] k2) (\<lambda>k. wf_predict k \<and> slot0_blank k)"
      using note_transition_wf [OF assms(1)] note_transition_slot0 [OF assms(1)] k2(3)
      by (intro okR_foldR) (auto simp: okR_conj)
    then show ?thesis using k2(2) k' by (simp add: slot0_blank_def)
  qed
  show ?thesis
    by (rule okR_mono [OF predict_pageit_phases [OF assms(1,2)]]) (use done2 in auto)
qed

lemma simulate_slot0:
  assumes "procs \<le> MAXPROCESSES"
  shows "okR (simulate (predict_pageit qs) predict_static procs seed n) (\<lambda>(k, s). run_inv s \<and> wf_predict k
    \<and> s_procs s = procs \<and> slot0_blank k)"
proof -
  have tick: "okR (sim_tick (predict_pageit qs) (k, s)) (\<lambda>(k', s'). slot0_blank k')"
    if "run_inv s" "wf_predict k" "slot0_blank k" for k s
    using predictive.sim_tick_client [OF that(1,2)] predict_pageit_slot0 [OF wf_entries_of that(2,3)]
    by simp
  have init: "slot0_blank predict_static"
    by (simp add: slot0_blank_def predict_static_def list_all_iff)
  have "okR (simulate (predict_pageit qs) predict_static procs seed n) (\<lambda>(k, s). wf_predict k \<and> run_inv s
    \<and> s_procs s = procs \<and> slot0_blank k)"
    by (rule predictive.simulate_rule [OF assms wf_predict_static, where I = "\<lambda>k s. slot0_blank k"])
      (use init tick in auto)
  then show ?thesis by (rule okR_mono) auto
qed

end

subsection \<open>The decay factor\<close>

declare bitlen.simps [simp del]

lemma bitlen_bounds: "n < 2 ^ bitlen n \<and> (0 < n \<longrightarrow> 2 ^ (bitlen n - 1) \<le> n)"
proof (induction n rule: bitlen.induct)
  case (1 n)
  show ?case
  proof (cases "n = 0")
    case True
    then show ?thesis by (simp add: bitlen.simps [of 0])
  next
    case False
    have IH: "n div 2 < 2 ^ bitlen (n div 2)" "0 < n div 2 \<longrightarrow> 2 ^ (bitlen (n div 2) - 1) \<le> n div 2"
      using 1 False by auto
    have b: "bitlen n = Suc (bitlen (n div 2))" using False by (simp add: bitlen.simps [of n])
    have "n < 2 * 2 ^ bitlen (n div 2)" using IH(1) by linarith
    moreover have "2 ^ bitlen (n div 2) \<le> n"
    proof (cases "n div 2 = 0")
      case True
      then show ?thesis using False by (simp add: bitlen.simps [of 0])
    next
      case half: False
      then have "bitlen (n div 2) \<noteq> 0" by (simp add: bitlen.simps [of "n div 2"])
      then have "(2::nat) ^ bitlen (n div 2) = 2 * 2 ^ (bitlen (n div 2) - 1)" by (cases "bitlen (n div 2)") auto
      then show ?thesis using IH(2) half by linarith
    qed
    ultimately show ?thesis by (simp add: b)
  qed
qed

lemma bitlen_le:
  assumes "n < 2 ^ m"
  shows "bitlen n \<le> m"
proof (rule ccontr)
  assume *: "\<not> bitlen n \<le> m"
  then have "n \<noteq> 0" by (intro notI) (simp add: bitlen.simps [of 0])
  moreover have "m \<le> bitlen n - 1" using * by simp
  ultimately have "(2::nat) ^ m \<le> n"
    using bitlen_bounds [of n] power_increasing [of m "bitlen n - 1" "2::nat"] by linarith
  then show False using assms by simp
qed

lemma round24_exact: "n < 2 ^ 24 \<Longrightarrow> round24 n = n"
  using bitlen_le [of n 24] by (simp add: round24_def Let_def)

text \<open>Rounding does not cross a multiple of the last place, and moves by at most half of it.\<close>

lemma round24_bounds:
  assumes "n < 2 ^ (24 + k)"
  shows "n div 2 ^ k * 2 ^ k \<le> round24 n" and "2 * round24 n \<le> 2 * n + 2 ^ k"
proof -
  define j where "j = bitlen n - 24"
  have j: "j \<le> k" using bitlen_le [OF assms] by (simp add: j_def)
  define q r where "q = n div 2 ^ j" and "r = n mod 2 ^ j"
  have n: "n = q * 2 ^ j + r" unfolding q_def r_def by (rule div_mult_mod_eq [symmetric])
  have e: "round24 n = (if 2 * r > 2 ^ j \<or> 2 * r = 2 ^ j \<and> odd q then (q + 1) * 2 ^ j else q * 2 ^ j)"
    by (simp add: round24_def Let_def j_def q_def r_def)
  have "n div 2 ^ k * 2 ^ k = (n div 2 ^ k * 2 ^ (k - j)) * 2 ^ j"
    using j by (simp add: power_add [symmetric])
  moreover have "n div 2 ^ k * 2 ^ (k - j) \<le> q"
  proof -
    have "n div 2 ^ k = q div 2 ^ (k - j)" using j by (simp add: q_def div_mult2_eq [symmetric] power_add [symmetric])
    then show ?thesis by simp
  qed
  ultimately have "n div 2 ^ k * 2 ^ k \<le> q * 2 ^ j" by (metis mult_le_mono1)
  also have "\<dots> \<le> round24 n" by (simp add: e)
  finally show "n div 2 ^ k * 2 ^ k \<le> round24 n" .
  have "(2::nat) ^ j \<le> 2 ^ k" using j by (simp add: power_increasing)
  moreover have "2 * round24 n \<le> 2 * n + 2 ^ j" unfolding e by (auto simp: n)
  ultimately show "2 * round24 n \<le> 2 * n + 2 ^ k" by linarith
qed

lemma decay_four_fifths:
  assumes "0 \<le> f" and "f < 2 ^ 22"
  shows "decay f = 4 * f div 5"
proof -
  define n where "n = nat f"
  have f: "f = int n" and n: "n < 2 ^ 22" using assms by (simp_all add: n_def nat_less_iff)
  define p where "p = n * 13421773"
  define m where "m = 4 * n div 5"
  have p5: "5 * p = 4 * n * 2 ^ 24 + n" by (simp add: p_def)
  have mb: "5 * m \<le> 4 * n" "4 * n \<le> 5 * m + 4" by (simp_all add: m_def)
  have "p < 2 ^ (24 + 22)" using n by (simp add: p_def)
  note r = round24_bounds [OF this]
  have "m * 2 ^ 24 \<le> p" using p5 mb by simp
  then have "m * 4 \<le> p div 2 ^ 22" by (simp add: less_eq_div_iff_mult_less_eq)
  then have lo: "m * 2 ^ 24 \<le> round24 p" using r(1) by simp
  have hi: "round24 p < (m + 1) * 2 ^ 24" using r(2) p5 mb n by simp
  have "round24 p div 2 ^ 24 = m"
    using lo hi by (intro div_nat_eqI) (simp_all add: mult.commute)
  then have "decay f = int m"
    using n by (simp add: decay_def f p_def round24_exact)
  then show ?thesis by (simp add: f m_def zdiv_int)
qed

subsection \<open>Properties\<close>

text \<open>C3: A simulation with the predictive pager, with any sort function that meets the contract of
  \<open>qsort\<close>, from any seed and for any number of ticks, never faults: no index into the transition
  matrix, the trackers or the working sets leaves its range. The system invariant and the pager's
  own invariant hold at every tick, and when the loop ends all 40 jobs are done.\<close>

theorem predictive_simulation_sound:
  assumes "qsort_lib qs" and "1 \<le> procs" and "procs \<le> MAXPROCESSES"
  shows "okR (simulate (predict_pageit qs) predict_static procs seed n)
    (\<lambda>(k, s). sim_inv s \<and> wf_predict k \<and> (alldone s \<longrightarrow> all_jobs_done s))"
  by (rule okR_mono [OF qsort_lib.simulate_slot0 [OF assms(1,3)]])
    (use assms(2) alldone_all_jobs in \<open>auto simp: run_inv_def\<close>)

theorem predictive_simulation_sound_witness:
  "okR (simulate (predict_pageit stable_qsort) predict_static 20 512 100000) (\<lambda>(k, s). sim_inv s \<and> wf_predict k)"
  by (rule okR_mono [OF predictive_simulation_sound [OF stable.qsort_lib_axioms, of 20]]) auto

text \<open>The pager learns nothing about the process in slot 0: because the initialiser of \<open>pg_last\<close>
  sets only element 0 to -1, that element stays -1 for ever and every transition count of slot 0
  stays 0.\<close>

lemma predictive_slot0_learns_nothing:
  assumes "qsort_lib qs" and "procs \<le> MAXPROCESSES"
  shows "okR (simulate (predict_pageit qs) predict_static procs seed n)
    (\<lambda>(k, s). k_last k ! 0 = -1 \<and> list_all (list_all (\<lambda>d. d_freq d = 0)) (k_transitions k ! 0))"
  by (rule okR_mono [OF qsort_lib.simulate_slot0 [OF assms]]) (auto simp: slot0_blank_def)

lemma predictive_slot0_learns_nothing_witness:
  "okR (simulate (predict_pageit stable_qsort) predict_static 20 7 50000) (\<lambda>(k, s). k_last k ! 0 = -1)"
  by (rule okR_mono [OF predictive_slot0_learns_nothing [OF stable.qsort_lib_axioms, of 20]]) auto

text \<open>C28: The global search for a victim returns the least recently used page among the pages that are
  in memory with no operation pending, and reports none only when every such page is stamped
  \<open>INT_MAX\<close>; the local search does the same among the pages of one process.\<close>

theorem lru_victims_are_oldest:
  assumes "wf_entries q" and "matrix MAXPROCESSES MAXPROCPAGES wait" and "matrix MAXPROCESSES MAXPROCPAGES ts"
    and "proc < MAXPROCESSES"
  shows "okR (find_lru_page_global ts q wait) (\<lambda>r. case r of
      None \<Rightarrow> (\<forall>a < MAXPROCESSES. \<forall>b < MAXPROCPAGES. eligible q wait a b \<longrightarrow> INT_MAX \<le> ts ! a ! b)
    | Some (p, v) \<Rightarrow> 0 \<le> p \<and> p < int MAXPROCESSES \<and> 0 \<le> v \<and> v < int MAXPROCPAGES
        \<and> eligible q wait (nat p) (nat v)
        \<and> (\<forall>a < MAXPROCESSES. \<forall>b < MAXPROCPAGES. eligible q wait a b \<longrightarrow> ts ! nat p ! nat v \<le> ts ! a ! b))
   \<and> okR (find_lru_page_local ts q wait proc) (\<lambda>r. case r of
      None \<Rightarrow> (\<forall>b < MAXPROCPAGES. eligible q wait proc b \<longrightarrow> INT_MAX \<le> ts ! proc ! b)
    | Some v \<Rightarrow> 0 \<le> v \<and> v < int MAXPROCPAGES \<and> eligible q wait proc (nat v)
        \<and> (\<forall>b < MAXPROCPAGES. eligible q wait proc b \<longrightarrow> ts ! proc ! nat v \<le> ts ! proc ! b))"
  using find_lru_page_global_spec [OF assms(1-3)] find_lru_page_local_spec [OF assms] by blast

text \<open>A snapshot with every page in memory, for the examples.\<close>

definition full_entries :: "pentry list" where
  "full_entries = replicate MAXPROCESSES
     \<lparr>e_active = True, e_pc = 0, e_npages = 20, e_pages = replicate MAXPROCPAGES True\<rparr>"

theorem lru_victims_are_oldest_witness:
  "\<exists>v. find_lru_page_local ((replicate 20 (replicate 20 5))[3 := (replicate 20 5)[7 := 2]]) full_entries
     (k_wait predict_static) 3 = Inr (Some v) \<and> ((replicate 20 (5::int))[7 := 2]) ! nat v = 2"
proof -
  let ?ts = "(replicate 20 (replicate 20 (5::int)))[3 := (replicate 20 5)[7 := 2]]"
  have w: "wf_entries full_entries" by (simp add: wf_entries_def full_entries_def wf_entry_def)
  have m: "matrix 20 20 (k_wait predict_static)" by (simp add: predict_static_def matrix_def)
  have t: "matrix 20 20 ?ts" by (auto simp: matrix_def intro: list_all_update)
  have el: "eligible full_entries (k_wait predict_static) 3 b" if "b < 20" for b
    using that by (simp add: eligible_def full_entries_def predict_static_def)
  have row: "?ts ! 3 = (replicate 20 5)[7 := 2]" by simp
  have seven: "((replicate 20 (5::int))[7 := 2]) ! 7 = 2" by simp
  have low: "2 \<le> ((replicate 20 (5::int))[7 := 2]) ! b" if "b < 20" for b
    using that by (simp add: nth_list_update)
  obtain r where r: "find_lru_page_local ?ts full_entries (k_wait predict_static) 3 = Inr r"
    and post: "case r of
      None \<Rightarrow> (\<forall>b < 20. eligible full_entries (k_wait predict_static) 3 b \<longrightarrow> INT_MAX \<le> ?ts ! 3 ! b)
    | Some v \<Rightarrow> 0 \<le> v \<and> v < int 20 \<and> eligible full_entries (k_wait predict_static) 3 (nat v)
        \<and> (\<forall>b < 20. eligible full_entries (k_wait predict_static) 3 b \<longrightarrow> ?ts ! 3 ! nat v \<le> ?ts ! 3 ! b)"
    using lru_victims_are_oldest [OF w m t, of 3, THEN conjunct2] unfolding okR_iff by auto
  show ?thesis
  proof (cases r)
    case None
    then show ?thesis using post el [of 7] unfolding row by (auto dest: spec [of _ 7])
  next
    case (Some v)
    then have v: "nat v < 20" "((replicate 20 (5::int))[7 := 2]) ! nat v \<le> ((replicate 20 (5::int))[7 := 2]) ! 7"
      using post el [of 7] unfolding row by (auto dest: spec [of _ 7])
    show ?thesis using r Some v low [OF v(1)] unfolding seven by auto
  qed
qed

text \<open>Sorting a row of the transition matrix returns a permutation of the row whose first entry has
  the largest count, so the pager's first guess is a most frequent successor of the page.\<close>

lemma sorted_row_predicts_most_frequent:
  assumes "qsort_lib qs" and "wf_predict k" and "proc < MAXPROCESSES" and "0 \<le> page" and "page < int MAXPROCPAGES"
  shows "okR (sorted_row qs k proc page) (\<lambda>row. mset row = mset (k_transitions k ! proc ! nat page)
    \<and> sorted_wrt (\<lambda>a b. d_freq b \<le> d_freq a) row
    \<and> (\<forall>d \<in> set (k_transitions k ! proc ! nat page). d_freq d \<le> d_freq (row ! 0)))"
proof -
  note tr = wf_transitions_get [OF assms(2,3)]
  have "wf_row (k_transitions k ! proc ! nat page)" using wf_row_get [OF tr(2)] assms(4,5) by simp
  moreover have "length (k_transitions k ! proc) = 20" using tr(2) by (simp add: wf_transitions_def)
  ultimately have "sorted_row qs k proc page = Inr (qs compare_frequencies (k_transitions k ! proc ! nat page))"
    using tr(1) assms(4,5) by (simp add: sorted_row_def sort_pages_def wf_row_def)
  then show ?thesis
    using qsort_lib.qs_perm [OF assms(1)] qsort_lib.qs_sorted [OF assms(1)] qsort_lib.qs_first_max [OF assms(1)]
    by (simp add: compare_frequencies_def)
qed

lemma sorted_row_predicts_most_frequent_witness:
  "okR (sorted_row stable_qsort predict_static 3 7) (\<lambda>row. size (mset row) = 20)"
proof -
  have "size (mset (k_transitions predict_static ! 3 ! 7)) = 20" by (simp add: predict_static_def)
  then show ?thesis
    using sorted_row_predicts_most_frequent [OF stable.qsort_lib_axioms wf_predict_static, of 3 7]
    by (auto elim!: okR_mono dest: arg_cong [where f = size])
qed

text \<open>Decaying a count in single precision is exact: for every count below \<open>2^22\<close> the rounded
  product with \<open>0.8f\<close>, truncated to \<open>int\<close>, is the integer part of four fifths of it.\<close>

lemma decay_is_four_fifths:
  assumes "0 \<le> f" and "f < 2 ^ 22"
  shows "decay f = 4 * f div 5"
  by (rule decay_four_fifths [OF assms])

lemma decay_is_four_fifths_witness: "decay 1000003 = 800002 \<and> decay 5 = 4 \<and> decay 1 = 0"
  using decay_is_four_fifths [of 1000003] decay_is_four_fifths [of 5] decay_is_four_fifths [of 1] by simp

text \<open>On every thousandth tick the working set size of each process becomes the number of its pages
  stamped within the window, whatever the page-ins of the update do; on other ticks nothing changes.\<close>

lemma working_set_counts_window:
  assumes "wf_entries q" and "wf_predict k"
  shows "okR (update_working_set q (k, s)) (\<lambda>(k', s'). wf_predict k' \<and> paging_call\<^sup>*\<^sup>* s s' \<and>
    (if k_tick k mod WINDOWSIZE = 0
     then \<forall>proc < MAXPROCESSES. ws_size (k_work k' ! proc) = in_window k proc MAXPROCPAGES
     else k' = k \<and> s' = s))"
  by (rule okR_mono [OF update_working_set_spec [OF assms(1), of "(s, learned k)" "(k, s)"]])
    (use assms(2) in \<open>auto simp: keeps_def\<close>)

lemma working_set_counts_window_witness:
  "okR (update_working_set full_entries (predict_static\<lparr>k_tick := 999\<rparr>, sample_sim 0))
     (\<lambda>(k', s'). k' = predict_static\<lparr>k_tick := 999\<rparr> \<and> s' = sample_sim 0)"
proof -
  have "wf_entries full_entries" by (simp add: wf_entries_def full_entries_def wf_entry_def)
  moreover have "wf_predict (predict_static\<lparr>k_tick := 999\<rparr>)" using wf_predict_static by (simp add: wf_predict_def)
  ultimately show ?thesis
    by (rule okR_mono [OF working_set_counts_window]) auto
qed

end
