(* ===== verification/File_Tool.thy ===== *)
theory File_Tool
  imports Prelude
begin

text \<open>
  The interactive file tool of \<open>assignments/pa2\<close>: \<open>handle_read\<close>, \<open>handle_write\<close>, \<open>handle_seek\<close>, the input
  helpers and the command loop of \<open>main\<close>. The kernel is a regular file with a position; how many bytes
  a \<open>read\<close> or \<open>write\<close> transfers is up to it, so \<open>sched i n\<close> is the result of the \<open>i\<close>-th such call for
  \<open>n\<close> bytes (-1 is an error, and a read stops at the end of the file besides).
\<close>

subsection \<open>System calls\<close>

record os =
  o_file :: string
  o_pos :: nat
  o_calls :: nat

type_synonym sched = "nat \<Rightarrow> nat \<Rightarrow> int"

definition sys_read :: "sched \<Rightarrow> os \<Rightarrow> nat \<Rightarrow> int \<times> string \<times> os" where
  "sys_read sched s count =
     (let r = sched (o_calls s) count; s = s\<lparr>o_calls := o_calls s + 1\<rparr> in
      if r = -1 then (-1, [], s)
      else let data = take (nat r) (drop (o_pos s) (o_file s)) in
           (int (length data), data, s\<lparr>o_pos := o_pos s + length data\<rparr>))"

text \<open>A write past the end fills the gap with zeros.\<close>

definition write_at :: "string \<Rightarrow> nat \<Rightarrow> string \<Rightarrow> string" where
  "write_at file pos data =
     (if data = [] then file
      else take pos file @ replicate (pos - length file) NUL @ data @ drop (pos + length data) file)"

definition sys_write :: "sched \<Rightarrow> os \<Rightarrow> string \<Rightarrow> nat \<Rightarrow> int \<times> os" where
  "sys_write sched s buf count =
     (let r = sched (o_calls s) count; s = s\<lparr>o_calls := o_calls s + 1\<rparr> in
      if r = -1 then (-1, s)
      else let data = take (nat r) buf in
           (int (length data), s\<lparr>o_file := write_at (o_file s) (o_pos s) data, o_pos := o_pos s + length data\<rparr>))"

text \<open>\<open>seek_data\<close> stands for the file system's answer to \<open>SEEK_DATA\<close>, which the tool lets through.\<close>

definition sys_lseek :: "(string \<Rightarrow> int \<Rightarrow> int) \<Rightarrow> os \<Rightarrow> int \<Rightarrow> int \<Rightarrow> int \<times> os" where
  "sys_lseek seek_data s offset whence =
     (let target = (if whence = 0 then offset else if whence = 1 then int (o_pos s) + offset
                    else if whence = 2 then int (length (o_file s)) + offset
                    else if whence = 3 then seek_data (o_file s) offset else -1) in
      if target < 0 \<or> target \<ge> 2 ^ 63 then (-1, s) else (target, s\<lparr>o_pos := nat target\<rparr>))"

subsection \<open>The handlers\<close>

definition handle_seek :: "(string \<Rightarrow> int \<Rightarrow> int) \<Rightarrow> os \<Rightarrow> int \<Rightarrow> int \<Rightarrow> os \<times> fault option" where
  "handle_seek seek_data s offset whence =
     (let (res_offset, s) = sys_lseek seek_data s offset whence in
      (s, if res_offset = -1 then Some Exit_Failure else None))"

text \<open>The buffer and the length to write.\<close>

definition handle_null_terminate :: "string \<Rightarrow> string \<times> nat" where
  "handle_null_terminate buffer =
     (let len = c_strlen buffer in
      if 0 < len \<and> buffer ! (len - 1) = newline then (buffer[len - 1 := NUL], len) else (buffer, len + 1))"

text \<open>The count of a call: an \<open>int\<close>, passed on as a \<open>size_t\<close>.\<close>

definition call_count :: "int \<Rightarrow> nat" where
  "call_count n = nat (c_int n mod 2 ^ 64)"

text \<open>A \<open>write\<close> that transfers nothing makes the loop run on, so it need not end: \<open>None\<close>.\<close>

partial_function (option) handle_write ::
  "sched \<Rightarrow> string \<Rightarrow> int \<Rightarrow> nat \<Rightarrow> os \<Rightarrow> (os \<times> fault option) option" where
  "handle_write sched buffer bytes_requested sofar s =
     (if int sofar < bytes_requested then
        (let (num_written, s') = sys_write sched s (drop sofar buffer) (call_count (bytes_requested - int sofar)) in
         if num_written = -1 then Some (s', Some Exit_Failure)
         else handle_write sched buffer bytes_requested (sofar + nat num_written) s')
      else Some (s, None))"

text \<open>\<open>read\<close> puts its bytes at \<open>bufr\<close>; the result is the total, the buffer and the state.\<close>

function handle_read ::
  "sched \<Rightarrow> string \<Rightarrow> int \<Rightarrow> nat \<Rightarrow> os \<Rightarrow> (int \<times> string \<times> os) \<times> fault option" where
  "handle_read sched buffer bytes_requested sofar s =
     (if int sofar < bytes_requested then
        (let (num_read, data, s') = sys_read sched s (call_count (bytes_requested - int sofar)) in
         if num_read = 0 then ((int sofar, buffer, s'), None)
         else if num_read = -1 then ((int sofar, buffer, s'), Some Exit_Failure)
         else if sofar + length data > length buffer then ((int sofar, buffer, s'), Some Out_Of_Bounds)
         else handle_read sched (take sofar buffer @ data @ drop (sofar + length data) buffer)
                bytes_requested (sofar + length data) s')
      else ((int sofar, buffer, s), None))"
  by pat_completeness auto
termination
  by (relation "measure (\<lambda>(sched, buffer, n, sofar, s). nat (n - int sofar))")
    (auto simp: sys_read_def Let_def split: if_splits)

declare handle_read.simps [simp del]

subsection \<open>Input\<close>

text \<open>\<open>scan_number\<close> finds the number at the start of a string, and what follows it; None where no number is
  read. \<open>strtol\<close> in base 10 brings it into the range of a \<open>long\<close>.\<close>

definition is_space :: "char \<Rightarrow> bool" where
  "is_space c = (let k = (of_char c :: nat) in k = 32 \<or> 9 \<le> k \<and> k \<le> 13)"

definition is_digit :: "char \<Rightarrow> bool" where
  "is_digit c = (let k = (of_char c :: nat) in 48 \<le> k \<and> k \<le> 57)"

definition digits_value :: "string \<Rightarrow> int" where
  "digits_value ds = foldl (\<lambda>v c. 10 * v + (int (of_char c) - 48)) 0 ds"

definition scan_number :: "string \<Rightarrow> (int \<times> string) option" where
  "scan_number s =
     (let s = dropWhile is_space s;
          neg = (s \<noteq> [] \<and> hd s = CHR ''-'');
          s = (if s \<noteq> [] \<and> (hd s = CHR ''-'' \<or> hd s = CHR ''+'') then tl s else s);
          ds = takeWhile is_digit s in
      if ds = [] then None
      else Some (if neg then - digits_value ds else digits_value ds, dropWhile is_digit s))"

definition clamp_long :: "int \<Rightarrow> int" where
  "clamp_long v = max (- (2 ^ 63)) (min (2 ^ 63 - 1) v)"

definition strtol :: "string \<Rightarrow> int option" where
  "strtol s = map_option (\<lambda>(v, rest). clamp_long v) (scan_number s)"

text \<open>Numbers as they are typed in decimal, and what \<open>scan_number\<close> makes of them.\<close>

fun decimal :: "nat \<Rightarrow> string" where
  "decimal n = (if n < 10 then [char_of (48 + n)] else decimal (n div 10) @ [char_of (48 + n mod 10)])"

declare decimal.simps [simp del]

lemma of_char_digit: "(d :: nat) < 10 \<Longrightarrow> (of_char (char_of (48 + d) :: char) :: nat) = 48 + d"
  by (simp add: take_bit_eq_mod)

lemma digit_is_digit [simp]: "(d :: nat) < 10 \<Longrightarrow> is_digit (char_of (48 + d))"
  by (simp only: is_digit_def of_char_digit Let_def) simp

lemma digits_value_snoc: "d < 10 \<Longrightarrow> digits_value (ds @ [char_of (48 + d)]) = 10 * digits_value ds + int d"
  by (simp only: digits_value_def foldl_append foldl.simps of_char_digit)

lemma decimal_digits: "list_all is_digit (decimal n) \<and> decimal n \<noteq> [] \<and> digits_value (decimal n) = int n"
proof (induction n rule: decimal.induct)
  case (1 n)
  show ?case
  proof (cases "n < 10")
    case True
    have z: "digits_value [] = 0" by (simp add: digits_value_def)
    show ?thesis
      using True digit_is_digit [OF True] digits_value_snoc [OF True, of "[]"] z
      by (simp only: decimal.simps [of n] if_True append_Nil list.pred_inject) simp
  next
    case False
    have d: "n mod 10 < 10" by simp
    have v: "10 * int (n div 10) + int (n mod 10) = int n" by presburger
    show ?thesis
      using 1 [OF False] False digit_is_digit [OF d] digits_value_snoc [OF d, of "decimal (n div 10)"] v
      by (simp only: decimal.simps [of n] if_False list_all_append list.pred_inject) simp
  qed
qed

lemma digit_not_space: "is_digit c \<Longrightarrow> \<not> is_space c \<and> c \<noteq> CHR ''-'' \<and> c \<noteq> CHR ''+'' \<and> c \<noteq> NUL \<and> c \<noteq> newline"
  by (auto simp: is_digit_def is_space_def Let_def)

lemma scan_number_decimal:
  assumes "rest = [] \<or> \<not> is_digit (hd rest)"
  shows "scan_number (decimal n @ rest) = Some (int n, rest)"
proof -
  obtain c cs where d: "decimal n = c # cs" using decimal_digits [of n] by (cases "decimal n") auto
  have all: "\<forall>x \<in> set (c # cs). is_digit x" and v: "digits_value (c # cs) = int n"
    using decimal_digits [of n] d by (auto simp: list_all_iff)
  have "takeWhile is_digit rest = []" "dropWhile is_digit rest = rest" using assms by (cases rest; simp)+
  then have "takeWhile is_digit ((c # cs) @ rest) = c # cs" "dropWhile is_digit ((c # cs) @ rest) = rest"
    using all takeWhile_append2 [of "c # cs" is_digit rest] dropWhile_append2 [of "c # cs" is_digit rest] by auto
  then show ?thesis using digit_not_space [of c] all v by (simp add: scan_number_def d Let_def)
qed

lemma decimal_clean: "NUL \<notin> set (decimal n)" "newline \<notin> set (decimal n)"
  using decimal_digits [of n] digit_not_space by (auto simp: list_all_iff)

record tool =
  t_stdin :: string
  t_input :: string
  t_read :: string
  t_os :: os
  t_out :: "string list"

abbreviation (input) READ_BUF_SIZE :: nat where "READ_BUF_SIZE \<equiv> 4096"
abbreviation (input) INPUT_BUF_SIZE :: nat where "INPUT_BUF_SIZE \<equiv> 80"

definition handle_input :: "tool \<Rightarrow> tool \<times> fault option" where
  "handle_input t =
     (case fgets INPUT_BUF_SIZE (t_stdin t) of None \<Rightarrow> (t, Some Exit_Failure)
      | Some (line, rest) \<Rightarrow>
          (t\<lparr>t_stdin := rest, t_input := line @ NUL # drop (length line + 1) (t_input t)\<rparr>, None))"

definition handle_numeric_input :: "tool \<Rightarrow> int \<times> tool \<times> fault option" where
  "handle_numeric_input t =
     (let (t, e) = handle_input t in
      (case strtol (cstr (t_input t)) of None \<Rightarrow> 0 | Some v \<Rightarrow> v, t, e))"

subsection \<open>The command loop\<close>

definition command_r :: "sched \<Rightarrow> tool \<Rightarrow> tool \<times> fault option" where
  "command_r sched t =
     (let (n, t, e) = handle_numeric_input t in
      case e of Some e \<Rightarrow> (t, Some e)
      | None \<Rightarrow>
          let ((num_read, buf, s), e) = handle_read sched (t_read t) n 0 (t_os t);
              t = t\<lparr>t_read := buf, t_os := s\<rparr> in
          case e of Some e \<Rightarrow> (t, Some e)
          | None \<Rightarrow> (t\<lparr>t_out := t_out t @ [cstr (take (nat num_read) buf)]\<rparr>, None))"

definition command_w :: "sched \<Rightarrow> tool \<Rightarrow> (tool \<times> fault option) option" where
  "command_w sched t =
     (let (t, e) = handle_input t in
      case e of Some e \<Rightarrow> Some (t, Some e)
      | None \<Rightarrow>
          let (buf, len) = handle_null_terminate (t_input t); t = t\<lparr>t_input := buf\<rparr> in
          map_option (\<lambda>(s, e). (t\<lparr>t_os := s\<rparr>, e)) (handle_write sched buf (int len) 0 (t_os t)))"

definition command_s :: "(string \<Rightarrow> int \<Rightarrow> int) \<Rightarrow> tool \<Rightarrow> tool \<times> fault option" where
  "command_s seek_data t =
     (let (offset, t, e) = handle_numeric_input t in
      case e of Some e \<Rightarrow> (t, Some e)
      | None \<Rightarrow>
          let (whence, t, e) = handle_numeric_input t in
          case e of Some e \<Rightarrow> (t, Some e)
          | None \<Rightarrow>
              if whence < 0 \<or> whence > 3 then (t, None)
              else let (s, e) = handle_seek seek_data (t_os t) offset whence in (t\<lparr>t_os := s\<rparr>, e))"

definition command :: "sched \<Rightarrow> (string \<Rightarrow> int \<Rightarrow> int) \<Rightarrow> tool \<Rightarrow> (tool \<times> fault option) option" where
  "command sched seek_data t =
     (let (t, e) = handle_input t in
      case e of Some e \<Rightarrow> Some (t, Some e)
      | None \<Rightarrow>
          let option = t_input t ! 0 in
          if option = CHR ''r'' then Some (command_r sched t)
          else if option = CHR ''w'' then command_w sched t
          else if option = CHR ''s'' then Some (command_s seek_data t)
          else Some (t, None))"

text \<open>The loop of \<open>main\<close>, which ends by an exit only; the first \<open>n\<close> commands.\<close>

fun run_tool :: "nat \<Rightarrow> sched \<Rightarrow> (string \<Rightarrow> int \<Rightarrow> int) \<Rightarrow> tool \<Rightarrow> (tool \<times> fault option) option" where
  "run_tool 0 sched seek_data t = Some (t, None)"
| "run_tool (Suc n) sched seek_data t =
     (case command sched seek_data t of None \<Rightarrow> None
      | Some (t', e) \<Rightarrow> (case e of Some e \<Rightarrow> Some (t', Some e) | None \<Rightarrow> run_tool n sched seek_data t'))"

text \<open>\<open>main\<close> up to that loop: \<open>open_rdwr path\<close> is the file, if it can be opened; \<open>read_buf\<close> and \<open>input_buf\<close>
  are what \<open>malloc\<close> returns, None where it fails.\<close>

definition tool_main ::
  "(string \<Rightarrow> string option) \<Rightarrow> string option \<Rightarrow> string option \<Rightarrow> string list \<Rightarrow> string \<Rightarrow> tool res" where
  "tool_main open_rdwr read_buf input_buf argv stdin =
     (if length argv < 2 then Inl Exit_Failure
      else if length argv > 2 then Inl Exit_Failure
      else case open_rdwr (argv ! 1) of None \<Rightarrow> Inl Exit_Failure
      | Some file \<Rightarrow>
          (case (read_buf, input_buf) of
             (Some rb, Some ib) \<Rightarrow>
               Inr \<lparr>t_stdin = stdin, t_input = ib, t_read = rb,
                 t_os = \<lparr>o_file = file, o_pos = 0, o_calls = 0\<rparr>, t_out = []\<rparr>
           | _ \<Rightarrow> Inl Exit_Failure))"

lemma tool_main_ready:
  "okR (tool_main open_rdwr read_buf input_buf argv stdin) (\<lambda>t. t_stdin t = stdin \<and> o_pos (t_os t) = 0 \<and> t_out t = []
      \<and> Some (t_read t) = read_buf \<and> Some (t_input t) = input_buf \<and> open_rdwr (argv ! 1) = Some (o_file (t_os t)))
    \<longleftrightarrow> length argv = 2 \<and> open_rdwr (argv ! 1) \<noteq> None \<and> read_buf \<noteq> None \<and> input_buf \<noteq> None"
  by (auto simp: tool_main_def split: option.splits)

subsection \<open>Reading\<close>

text \<open>A kernel that makes progress: no errors, and at least one byte for every call that asks for some.\<close>

definition prompt :: "sched \<Rightarrow> bool" where
  "prompt sched \<longleftrightarrow> (\<forall>i n. 0 < n \<longrightarrow> 1 \<le> sched i n \<and> sched i n \<le> int n)"

lemma call_count_id: "0 \<le> n \<Longrightarrow> n < 2 ^ 31 \<Longrightarrow> call_count n = nat n"
  by (simp add: call_count_def c_int_id)

lemma sys_read_prompt:
  assumes "prompt sched" and "0 < n"
  shows "\<exists>k s'. sys_read sched s n = (int k, take k (drop (o_pos s) (o_file s)), s') \<and> k \<le> n \<and> k \<le> length (o_file s) - o_pos s
    \<and> (k = 0 \<longleftrightarrow> length (o_file s) \<le> o_pos s) \<and> o_file s' = o_file s \<and> o_pos s' = o_pos s + k"
proof -
  let ?r = "sched (o_calls s) n"
  have r: "1 \<le> ?r" "?r \<le> int n" using assms by (simp_all add: prompt_def)
  let ?k = "min (nat ?r) (length (o_file s) - o_pos s)"
  have "take (nat ?r) (drop (o_pos s) (o_file s)) = take ?k (drop (o_pos s) (o_file s))"
    by (cases "nat ?r \<le> length (o_file s) - o_pos s") simp_all
  then show ?thesis using r by (intro exI [of _ ?k]) (auto simp: sys_read_def Let_def)
qed

lemma min_take_off: "(k :: nat) \<le> a \<Longrightarrow> k \<le> b \<Longrightarrow> min a b = k + min (a - k) (b - k)"
  by linarith

lemma handle_read_spec:
  assumes "prompt sched" and "n < 2 ^ 31" and "int sofar \<le> n" and "sofar \<le> length buffer"
  shows "let m = min (nat n - sofar) (length (o_file s) - o_pos s);
             ((r, buf, s'), e) = handle_read sched buffer n sofar s in
    if sofar + m \<le> length buffer
    then e = None \<and> r = int (sofar + m) \<and> o_file s' = o_file s \<and> o_pos s' = o_pos s + m
      \<and> buf = take sofar buffer @ take m (drop (o_pos s) (o_file s)) @ drop (sofar + m) buffer
    else e = Some Out_Of_Bounds"
  using assms
proof (induction "nat n - sofar" arbitrary: sofar buffer s rule: less_induct)
  case less
  show ?case
  proof (cases "int sofar < n")
    case False
    then have "nat n - sofar = 0" by simp
    then show ?thesis using False less.prems(4) by (simp add: handle_read.simps Let_def)
  next
    case True
    have c: "call_count (n - int sofar) = nat n - sofar" "0 < nat n - sofar"
      using True less.prems(2) by (simp_all add: call_count_id nat_diff_distrib)
    obtain k s' where k: "sys_read sched s (nat n - sofar) = (int k, take k (drop (o_pos s) (o_file s)), s')"
        "k \<le> nat n - sofar" "k \<le> length (o_file s) - o_pos s" "k = 0 \<longleftrightarrow> length (o_file s) \<le> o_pos s"
        "o_file s' = o_file s" "o_pos s' = o_pos s + k"
      using sys_read_prompt [OF less.prems(1) c(2)] by blast
    let ?data = "take k (drop (o_pos s) (o_file s))"
    have len: "length ?data = k" using k(3) by simp
    consider (stop) "k = 0" | (over) "0 < k" "length buffer < sofar + k" | (more) "0 < k" "sofar + k \<le> length buffer" by linarith
    then show ?thesis
    proof cases
      case stop
      then have "length (o_file s) - o_pos s = 0" using k(4) by simp
      then show ?thesis using True k stop less.prems(4) by (subst handle_read.simps) (simp add: c Let_def)
    next
      case over
      then have "\<not> sofar + min (nat n - sofar) (length (o_file s) - o_pos s) \<le> length buffer" using k(2,3) by simp
      then show ?thesis using True k over len by (subst handle_read.simps) (simp add: c Let_def)
    next
      case more
      let ?b = "take sofar buffer @ ?data @ drop (sofar + k) buffer"
      have step: "handle_read sched buffer n sofar s = handle_read sched ?b n (sofar + k) s'"
        using True k(1) more len by (subst handle_read.simps) (simp add: c Let_def)
      have lb: "length ?b = length buffer" using more len less.prems(4) by simp
      have lt: "nat n - (sofar + k) < nat n - sofar" and le: "int (sofar + k) \<le> n" "sofar + k \<le> length ?b"
        using more k(2) c(2) True lb by linarith+
      have IH: "let m = min (nat n - (sofar + k)) (length (o_file s') - o_pos s');
             ((r, buf, s''), e) = handle_read sched ?b n (sofar + k) s' in
          if sofar + k + m \<le> length ?b
          then e = None \<and> r = int (sofar + k + m) \<and> o_file s'' = o_file s' \<and> o_pos s'' = o_pos s' + m
            \<and> buf = take (sofar + k) ?b @ take m (drop (o_pos s') (o_file s')) @ drop (sofar + k + m) ?b
          else e = Some Out_Of_Bounds"
        by (rule less.hyps [OF lt less.prems(1,2) le])
      let ?m = "min (nat n - (sofar + k)) (length (o_file s) - (o_pos s + k))"
      have m: "min (nat n - sofar) (length (o_file s) - o_pos s) = k + ?m" using min_take_off [OF k(2,3)] by simp
      have parts: "take (sofar + k) ?b = take sofar buffer @ ?data"
          "drop (sofar + k + ?m) ?b = drop (sofar + k + ?m) buffer"
          "take (k + ?m) (drop (o_pos s) (o_file s)) = ?data @ take ?m (drop (o_pos s + k) (o_file s))"
        using more len less.prems(4) by (simp_all add: take_add add.commute)
      obtain r buf s'' e where h: "handle_read sched ?b n (sofar + k) s' = ((r, buf, s''), e)" by (metis prod.exhaust)
      have a: "sofar + (k + ?m) = sofar + k + ?m" "o_pos s + (k + ?m) = o_pos s + k + ?m" by simp_all
      show ?thesis
        using IH unfolding step m k(5,6) Let_def h prod.case parts lb a append_assoc .
    qed
  qed
qed

subsection \<open>Writing\<close>

lemma write_at_append:
  assumes "a \<noteq> []"
  shows "write_at (write_at file pos a) (pos + length a) b = write_at file pos (a @ b)"
proof (cases "b = []")
  case True
  then show ?thesis by (simp add: write_at_def)
next
  case False
  let ?pre = "take pos file @ replicate (pos - length file) NUL"
  have pre: "length ?pre = pos" by simp
  have w: "write_at file pos a = (?pre @ a) @ drop (pos + length a) file" using assms by (simp add: write_at_def)
  have "write_at (write_at file pos a) (pos + length a) b = (?pre @ a) @ b @ drop (pos + length a + length b) file"
    using False pre unfolding w by (simp add: write_at_def add.assoc [symmetric] del: append_assoc) (simp add: ac_simps)
  then show ?thesis using assms by (simp add: write_at_def ac_simps)
qed

lemma sys_write_prompt:
  assumes "prompt sched" and "0 < n" and "n \<le> length buf"
  shows "\<exists>k s'. sys_write sched s buf n = (int k, s') \<and> 0 < k \<and> k \<le> n
    \<and> o_file s' = write_at (o_file s) (o_pos s) (take k buf) \<and> o_pos s' = o_pos s + k"
proof -
  let ?r = "sched (o_calls s) n"
  have r: "1 \<le> ?r" "?r \<le> int n" using assms by (simp_all add: prompt_def)
  then show ?thesis using assms(3) by (intro exI [of _ "nat ?r"]) (auto simp: sys_write_def Let_def)
qed

lemma handle_write_spec:
  assumes "prompt sched" and "n < 2 ^ 31" and "sofar \<le> n" and "n \<le> length buffer"
  shows "\<exists>s'. handle_write sched buffer (int n) sofar s = Some (s', None)
    \<and> o_file s' = write_at (o_file s) (o_pos s) (take (n - sofar) (drop sofar buffer)) \<and> o_pos s' = o_pos s + (n - sofar)"
  using assms(3)
proof (induction "n - sofar" arbitrary: sofar s rule: less_induct)
  case less
  show ?case
  proof (cases "sofar = n")
    case True
    then show ?thesis by (subst handle_write.simps) (simp add: write_at_def)
  next
    case False
    then have lt: "sofar < n" using less.prems by simp
    have c: "call_count (int n - int sofar) = n - sofar"
      using assms(2) lt by (simp add: call_count_id nat_diff_distrib)
    have le: "n - sofar \<le> length (drop sofar buffer)" using assms(4) by simp
    obtain k s' where k: "sys_write sched s (drop sofar buffer) (n - sofar) = (int k, s')" "0 < k" "k \<le> n - sofar"
        "o_file s' = write_at (o_file s) (o_pos s) (take k (drop sofar buffer))" "o_pos s' = o_pos s + k"
      using sys_write_prompt [OF assms(1) _ le, of s] lt by auto
    have step: "handle_write sched buffer (int n) sofar s = handle_write sched buffer (int n) (sofar + k) s'"
      using lt k(1) by (subst handle_write.simps) (simp add: c)
    have shorter: "n - (sofar + k) < n - sofar" "sofar + k \<le> n" using k(2,3) lt by linarith+
    obtain s'' where s'': "handle_write sched buffer (int n) (sofar + k) s' = Some (s'', None)"
        "o_file s'' = write_at (o_file s') (o_pos s') (take (n - (sofar + k)) (drop (sofar + k) buffer))"
        "o_pos s'' = o_pos s' + (n - (sofar + k))"
      using less.hyps [OF shorter, of s'] by blast
    let ?a = "take k (drop sofar buffer)" and ?b = "take (n - (sofar + k)) (drop (sofar + k) buffer)"
    have a: "?a \<noteq> []" "length ?a = k" using k(2,3) lt assms(4) by simp_all
    have "n - sofar = k + (n - (sofar + k))" using k(3) lt by simp
    then have ab: "take (n - sofar) (drop sofar buffer) = ?a @ ?b" by (simp add: take_add add.commute)
    have "o_file s'' = write_at (o_file s) (o_pos s) (?a @ ?b)"
      using write_at_append [OF a(1), of "o_file s" "o_pos s" ?b] unfolding s''(2) k(4,5) a(2) .
    moreover have "o_pos s'' = o_pos s + (n - sofar)" unfolding s''(3) k(5) using k(3) lt by simp
    ultimately show ?thesis using step s''(1) ab by simp
  qed
qed

lemma handle_write_stuck:
  assumes "\<forall>i k. sched i k = 0" and "handle_write sched buffer n sofar s = Some r"
  shows "n \<le> int sofar"
proof -
  have "(\<forall>i k. sched i k = 0) \<longrightarrow> n \<le> int sofar"
  proof (rule handle_write.raw_induct [where P = "\<lambda>sched buffer n sofar s r. (\<forall>i k. sched i k = 0) \<longrightarrow> n \<le> int sofar",
      OF _ assms(2)])
    fix rec :: "sched \<Rightarrow> string \<Rightarrow> int \<Rightarrow> nat \<Rightarrow> os \<Rightarrow> (os \<times> fault option) option" and sched buffer n sofar s r
    assume IH: "\<And>sched buffer n sofar s r. rec sched buffer n sofar s = Some r \<Longrightarrow> (\<forall>i k. sched i k = 0) \<longrightarrow> n \<le> int sofar"
      and run: "(if int sofar < n then
          (let (num_written, s') = sys_write sched s (drop sofar buffer) (call_count (n - int sofar)) in
           if num_written = -1 then Some (s', Some Exit_Failure) else rec sched buffer n (sofar + nat num_written) s')
        else Some (s, None)) = Some r"
    show "(\<forall>i k. sched i k = 0) \<longrightarrow> n \<le> int sofar"
    proof (intro impI, rule ccontr)
      assume zero: "\<forall>i k. sched i k = 0" and "\<not> n \<le> int sofar"
      moreover obtain s' where "sys_write sched s (drop sofar buffer) (call_count (n - int sofar)) = (0, s')"
        using zero by (auto simp: sys_write_def Let_def)
      ultimately have "rec sched buffer n sofar s' = Some r" using run by simp
      then show False using IH zero \<open>\<not> n \<le> int sofar\<close> by blast
    qed
  qed
  then show ?thesis using assms(1) by blast
qed

text \<open>A line that was typed, with its newline, and what \<open>handle_null_terminate\<close> makes of it.\<close>

lemma null_terminate_line:
  assumes "NUL \<notin> set line" and "newline \<notin> set line"
  shows "handle_null_terminate (line @ newline # NUL # rest) = (line @ NUL # NUL # rest, length line + 1)"
    and "handle_null_terminate (line @ NUL # rest) = (line @ NUL # rest, length line + 1)"
proof -
  have "cstr (line @ newline # NUL # rest) = line @ [newline]"
    using cstr_append_NUL [of "line @ [newline]" rest] assms(1) by simp
  then show "handle_null_terminate (line @ newline # NUL # rest) = (line @ NUL # NUL # rest, length line + 1)"
    by (simp add: handle_null_terminate_def c_strlen_def nth_append list_update_append)
  have c: "cstr (line @ NUL # rest) = line" using cstr_append_NUL [OF assms(1)] .
  have "line \<noteq> [] \<Longrightarrow> (line @ NUL # rest) ! (length line - 1) \<noteq> newline"
    using assms(2) by (auto simp: nth_append in_set_conv_nth)
  then show "handle_null_terminate (line @ NUL # rest) = (line @ NUL # rest, length line + 1)"
    by (auto simp: handle_null_terminate_def c_strlen_def c Let_def)
qed

subsection \<open>Commands on typed lines\<close>

lemma fgets_line:
  assumes "newline \<notin> set line" and "length line + 1 < n"
  shows "fgets n (line @ newline # rest) = Some (line @ [newline], rest)"
proof -
  have "takeWhile (\<lambda>c. c \<noteq> newline) (line @ newline # rest) = line" using assms(1) by (subst takeWhile_append2) auto
  then show ?thesis using assms(2) by (simp add: fgets_def Let_def)
qed

lemma handle_input_line:
  assumes "t_stdin t = line @ newline # rest" and "newline \<notin> set line" and "length line \<le> 78"
  shows "handle_input t =
    (t\<lparr>t_stdin := rest, t_input := line @ newline # NUL # drop (length line + 2) (t_input t)\<rparr>, None)"
  using fgets_line [OF assms(2), of 80 rest] assms(1,3) by (simp add: handle_input_def)

lemma decimal_length: "n < 10 ^ k \<Longrightarrow> 0 < k \<Longrightarrow> length (decimal n) \<le> k"
proof (induction k arbitrary: n)
  case 0
  then show ?case by simp
next
  case (Suc k)
  then show ?case
    by (cases "n < 10"; cases "k = 0") (auto simp: decimal.simps [of n])
qed

lemma decimal_digit: "decimal 0 = ''0''" "decimal 2 = ''2''" "decimal (Suc (Suc 0)) = ''2''" "decimal 3 = ''3''"
  by (simp_all add: decimal.simps char_of_def bit_0)

lemma numeric_line:
  assumes "t_stdin t = decimal n @ newline # rest" and "n < 2 ^ 63"
  shows "\<exists>ib. handle_numeric_input t = (int n, t\<lparr>t_stdin := rest, t_input := ib\<rparr>, None)"
proof -
  have "n < 10 ^ 19" using assms(2) by simp
  then have l: "length (decimal n) \<le> 78" using decimal_length [of n 19] by simp
  let ?ib = "decimal n @ newline # NUL # drop (length (decimal n) + 2) (t_input t)"
  have "cstr ?ib = decimal n @ [newline]"
    using cstr_append_NUL [of "decimal n @ [newline]" "drop (length (decimal n) + 2) (t_input t)"] decimal_clean(1) [of n]
    by simp
  moreover have "scan_number (decimal n @ [newline]) = Some (int n, [newline])"
    by (rule scan_number_decimal) (simp add: is_digit_def)
  moreover have "int n < 2 ^ 63" using assms(2) by (metis of_nat_less_iff of_nat_numeral of_nat_power)
  ultimately have "strtol (cstr ?ib) = Some (int n)" by (simp add: strtol_def clamp_long_def)
  then show ?thesis
    using handle_input_line [OF assms(1) decimal_clean(2) l] by (intro exI [of _ ?ib]) (simp add: handle_numeric_input_def)
qed

lemma command_w_line:
  assumes "t_stdin t = line @ newline # rest" and "NUL \<notin> set line" and "newline \<notin> set line" and "length line \<le> 78"
  shows "\<exists>ib. command_w sched t = map_option (\<lambda>(s, e). (t\<lparr>t_stdin := rest, t_input := ib, t_os := s\<rparr>, e))
      (handle_write sched ib (int (length line + 1)) 0 (t_os t))
    \<and> take (length line + 1) ib = line @ [NUL] \<and> length line + 1 \<le> length ib"
proof -
  let ?ib = "line @ NUL # NUL # drop (length line + 2) (t_input t)"
  have "command_w sched t = map_option (\<lambda>(s, e). (t\<lparr>t_stdin := rest, t_input := ?ib, t_os := s\<rparr>, e))
      (handle_write sched ?ib (int (length line + 1)) 0 (t_os t))"
    using null_terminate_line(1) [OF assms(2,3), of "drop (length line + 2) (t_input t)"] handle_input_line [OF assms(1,3,4)]
    by (simp add: command_w_def)
  then show ?thesis by (intro exI [of _ ?ib]) simp
qed

lemma command_w_writes:
  assumes "prompt sched"
    and "t_stdin t = line @ newline # rest" and "NUL \<notin> set line" and "newline \<notin> set line" and "length line \<le> 78"
  shows "\<exists>ib s'. command_w sched t = Some (t\<lparr>t_stdin := rest, t_input := ib, t_os := s'\<rparr>, None)
    \<and> o_file s' = write_at (o_file (t_os t)) (o_pos (t_os t)) (line @ [NUL]) \<and> o_pos s' = o_pos (t_os t) + length line + 1"
proof -
  obtain ib where ib: "command_w sched t = map_option (\<lambda>(s, e). (t\<lparr>t_stdin := rest, t_input := ib, t_os := s\<rparr>, e))
      (handle_write sched ib (int (length line + 1)) 0 (t_os t))" "take (length line + 1) ib = line @ [NUL]"
      "length line + 1 \<le> length ib"
    using command_w_line [OF assms(2-5)] by blast
  have "length line + 1 < 2 ^ 31" using assms(5) by simp
  from handle_write_spec [OF assms(1) this _ ib(3), of 0 "t_os t"] ib(1,2) show ?thesis by auto
qed

lemma command_s_seeks:
  assumes "t_stdin t = decimal n @ newline # ''0'' @ newline # rest" and "n < 2 ^ 63"
  shows "\<exists>ib. command_s seek_data t = (t\<lparr>t_stdin := rest, t_input := ib, t_os := (t_os t)\<lparr>o_pos := n\<rparr>\<rparr>, None)"
proof -
  obtain ib where a: "handle_numeric_input t = (int n, t\<lparr>t_stdin := ''0'' @ newline # rest, t_input := ib\<rparr>, None)"
    using numeric_line [OF assms] by blast
  obtain ib' where b: "handle_numeric_input (t\<lparr>t_stdin := ''0'' @ newline # rest, t_input := ib\<rparr>) =
      (0, t\<lparr>t_stdin := rest, t_input := ib'\<rparr>, None)"
    using numeric_line [of "t\<lparr>t_stdin := ''0'' @ newline # rest, t_input := ib\<rparr>" 0 rest] by (auto simp: decimal_digit)
  have "int n < 2 ^ 63" using assms(2) by (metis of_nat_less_iff of_nat_numeral of_nat_power)
  then show ?thesis using a b by (intro exI [of _ ib']) (simp add: command_s_def handle_seek_def sys_lseek_def)
qed

lemma command_r_reads:
  assumes "prompt sched" and "t_stdin t = decimal n @ newline # rest" and "n \<le> length (t_read t)" and "n < 2 ^ 31"
    and "m = min n (length (o_file (t_os t)) - o_pos (t_os t))"
  shows "\<exists>ib rb s'. command_r sched t =
      (t\<lparr>t_stdin := rest, t_input := ib, t_read := rb, t_os := s',
         t_out := t_out t @ [cstr (take m (drop (o_pos (t_os t)) (o_file (t_os t))))]\<rparr>, None)
    \<and> o_file s' = o_file (t_os t) \<and> o_pos s' = o_pos (t_os t) + m"
proof -
  obtain ib where a: "handle_numeric_input t = (int n, t\<lparr>t_stdin := rest, t_input := ib\<rparr>, None)"
    using numeric_line [OF assms(2)] assms(4) by auto
  obtain r rb s' e where h: "handle_read sched (t_read t) (int n) 0 (t_os t) = ((r, rb, s'), e)" by (metis prod.exhaust)
  have n: "int n < 2 ^ 31" using assms(4) by (metis of_nat_less_iff of_nat_numeral of_nat_power)
  have m: "m \<le> length (t_read t)" "m \<le> length (o_file (t_os t)) - o_pos (t_os t)" using assms(3,5) by simp_all
  have spec: "e = None" "r = int m" "o_file s' = o_file (t_os t)" "o_pos s' = o_pos (t_os t) + m"
      "rb = take m (drop (o_pos (t_os t)) (o_file (t_os t))) @ drop m (t_read t)"
    using handle_read_spec [OF assms(1) n, of 0 "t_read t" "t_os t"] m(1) assms(5) unfolding h Let_def by simp_all
  have "take m rb = take m (drop (o_pos (t_os t)) (o_file (t_os t)))" using spec(5) m(2) by simp
  then show ?thesis using a h spec(1-4) by (intro exI [of _ ib] exI [of _ rb] exI [of _ s']) (simp add: command_r_def)
qed

text \<open>A line that holds the letter of a command.\<close>

lemma command_line:
  assumes "t_stdin t = c # newline # rest" and "c \<noteq> newline" and "c \<noteq> NUL"
  shows "\<exists>ib. command sched seek_data t =
    (let t' = t\<lparr>t_stdin := rest, t_input := ib\<rparr> in
     if c = CHR ''r'' then Some (command_r sched t') else if c = CHR ''w'' then command_w sched t'
     else if c = CHR ''s'' then Some (command_s seek_data t') else Some (t', None))"
  using handle_input_line [of t "[c]" rest] assms
  by (intro exI [of _ "[c] @ newline # NUL # drop (length [c] + 2) (t_input t)"]) (simp add: command_def Let_def)

lemma write_at_read: "take (length a) (drop pos (write_at file pos (a @ [NUL]))) = a"
  by (simp add: write_at_def)

subsection \<open>Properties\<close>


definition sample_os :: os where "sample_os = \<lparr>o_file = ''0123456789'', o_pos = 3, o_calls = 0\<rparr>"


text \<open>C37: A \<open>w\<close> command writes the typed line with a NUL in place of its newline at the position of the
  file, whatever pieces the kernel takes; if the kernel never takes a byte, the command does not
  return.\<close>

theorem file_tool_writes:
  assumes "t_stdin t = line @ newline # rest" and "NUL \<notin> set line" and "newline \<notin> set line"
    and "length line \<le> 78" and "length (t_input t) = INPUT_BUF_SIZE"
  shows "(prompt sched \<longrightarrow> (\<exists>t'. command_w sched t = Some (t', None) \<and> t_stdin t' = rest
      \<and> o_file (t_os t') = write_at (o_file (t_os t)) (o_pos (t_os t)) (line @ [NUL])
      \<and> o_pos (t_os t') = o_pos (t_os t) + length line + 1))
    \<and> ((\<forall>i n. sched i n = 0) \<longrightarrow> command_w sched t = None)"
proof -
  obtain ib where ib: "command_w sched t = map_option (\<lambda>(s, e). (t\<lparr>t_stdin := rest, t_input := ib, t_os := s\<rparr>, e))
      (handle_write sched ib (int (length line + 1)) 0 (t_os t))"
    using command_w_line [OF assms(1-4)] by blast
  have "command_w sched t = None" if "\<forall>i n. sched i n = 0"
    using handle_write_stuck [OF that, of ib "int (length line + 1)" 0 "t_os t"] ib
    by (cases "handle_write sched ib (int (length line + 1)) 0 (t_os t)") auto
  then show ?thesis using command_w_writes [OF _ assms(1-4)] by fastforce
qed

definition sample_tool :: tool where
  "sample_tool = \<lparr>t_stdin = ''ab'' @ [newline], t_input = replicate 80 NUL, t_read = replicate 4096 NUL,
     t_os = sample_os, t_out = []\<rparr>"

theorem file_tool_writes_witness:
  "\<exists>t'. command_w (\<lambda>i n. 1) sample_tool = Some (t', None) \<and> o_file (t_os t') = ''012ab'' @ NUL # ''6789''"
  using file_tool_writes [of sample_tool "''ab''" "[]" "\<lambda>i n. 1"]
  by (auto simp: sample_tool_def sample_os_def prompt_def write_at_def)

text \<open>C20: A session that writes a line, seeks back to where it began and reads as many bytes prints the line
  again: with a kernel that makes progress, the three commands succeed in whatever pieces it
  transfers, and the file holds the line with a NUL after it.\<close>

theorem file_tool_session:
  assumes "prompt sched" and "NUL \<notin> set line" and "newline \<notin> set line" and "length line \<le> 78"
    and "pos = o_pos (t_os t)" and "pos < 2 ^ 63" and "length (t_read t) = READ_BUF_SIZE"
    and "t_stdin t = CHR ''w'' # newline # line @ newline #
      CHR ''s'' # newline # decimal pos @ newline # ''0'' @ newline #
      CHR ''r'' # newline # decimal (length line) @ newline # rest"
  shows "\<exists>t'. run_tool 3 sched seek_data t = Some (t', None) \<and> t_out t' = t_out t @ [line] \<and> t_stdin t' = rest
    \<and> o_file (t_os t') = write_at (o_file (t_os t)) pos (line @ [NUL]) \<and> o_pos (t_os t') = pos + length line"
proof -
  let ?file = "write_at (o_file (t_os t)) pos (line @ [NUL])"
  let ?r = "CHR ''r'' # newline # decimal (length line) @ newline # rest"
  let ?s = "CHR ''s'' # newline # decimal pos @ newline # ''0'' @ newline # ?r"
  obtain ib1 s1 where 1: "command sched seek_data t = Some (t\<lparr>t_stdin := ?s, t_input := ib1, t_os := s1\<rparr>, None)"
      "o_file s1 = ?file"
    using command_line [of t "CHR ''w''" "line @ newline # ?s" sched seek_data]
      command_w_writes [OF assms(1) _ assms(2-4), of "t\<lparr>t_stdin := line @ newline # ?s, t_input := ib\<rparr>" ?s for ib] assms(5,8)
    by fastforce
  let ?t1 = "t\<lparr>t_stdin := ?s, t_input := ib1, t_os := s1\<rparr>"
  obtain ib2 where 2: "command sched seek_data ?t1 = Some (t\<lparr>t_stdin := ?r, t_input := ib2, t_os := s1\<lparr>o_pos := pos\<rparr>\<rparr>, None)"
    using command_line [of ?t1 "CHR ''s''" "decimal pos @ newline # ''0'' @ newline # ?r" sched seek_data]
      command_s_seeks [OF _ assms(6), of "?t1\<lparr>t_stdin := decimal pos @ newline # ''0'' @ newline # ?r, t_input := ib\<rparr>" ?r for ib]
    by fastforce
  let ?t2 = "t\<lparr>t_stdin := ?r, t_input := ib2, t_os := s1\<lparr>o_pos := pos\<rparr>\<rparr>"
  have "length ?file - pos \<ge> length line" by (simp add: write_at_def)
  then have m: "length line = min (length line) (length ?file - pos)" by simp
  have print: "cstr (take (length line) (drop pos ?file)) = line"
    unfolding write_at_read by (rule cstr_id [OF assms(2)])
  obtain ib3 rb s3 where 3: "command sched seek_data ?t2 =
      Some (t\<lparr>t_stdin := rest, t_input := ib3, t_read := rb, t_os := s3, t_out := t_out t @ [line]\<rparr>, None)"
      "o_file s3 = ?file" "o_pos s3 = pos + length line"
    using command_line [of ?t2 "CHR ''r''" "decimal (length line) @ newline # rest" sched seek_data]
      command_r_reads [OF assms(1), of "?t2\<lparr>t_stdin := decimal (length line) @ newline # rest, t_input := ib\<rparr>"
        "length line" rest "length line" for ib] assms(4,7) 1(2) m print
    by fastforce
  show ?thesis using 1(1) 2 3 by (simp add: eval_nat_numeral)
qed

definition session_tool :: tool where
  "session_tool = sample_tool\<lparr>t_stdin := ''w'' @ [newline] @ ''ab'' @ [newline] @ ''s'' @ [newline] @ ''3'' @ [newline]
     @ ''0'' @ [newline] @ ''r'' @ [newline] @ ''2'' @ [newline]\<rparr>"

theorem file_tool_session_witness:
  "\<exists>t'. run_tool 3 (\<lambda>i n. 1) (\<lambda>f k. -1) session_tool = Some (t', None)
    \<and> t_out t' = [''ab''] \<and> o_file (t_os t') = ''012ab'' @ NUL # ''6789''"
  using file_tool_session [of "\<lambda>i n. 1" "''ab''" 3 session_tool "[]" "\<lambda>f k. -1"]
  by (auto simp: session_tool_def sample_tool_def sample_os_def prompt_def write_at_def decimal_digit)

end
