(* ===== verification/Simulator_Output.thy ===== *)
theory Simulator_Output
  imports Simulator File_Tool
begin

text \<open>
  What \<open>assignments/pa7/simulator.c\<close> shows of its state: the table of \<open>allprint\<close>, which the handler of SIGINT
  prints before it ends the program (\<open>endit\<close>), and \<open>sim_log\<close> on the text of its message. The cells of the table are
  functions of the state; the lemmas give the width of each line and read the page states back off the cells.
\<close>

unbundle bit_operations_syntax

subsection \<open>Formats\<close>

definition pad :: "char \<Rightarrow> nat \<Rightarrow> string \<Rightarrow> string" where
  "pad c w t = replicate (w - length t) c @ t"

text \<open>\<open>%ld\<close>, \<open>%3ld\<close> and \<open>%0\<close>\<open>w\<close>\<open>ld\<close>.\<close>

definition fmt_ld :: "int \<Rightarrow> string" where
  "fmt_ld v = (if v < 0 then ''-'' @ decimal (nat (- v)) else decimal (nat v))"

definition fmt_3ld :: "int \<Rightarrow> string" where
  "fmt_3ld v = pad CHR '' '' 3 (fmt_ld v)"

definition fmt_0ld :: "nat \<Rightarrow> int \<Rightarrow> string" where
  "fmt_0ld w v = (if v < 0 then ''-'' @ pad CHR ''0'' (w - 1) (decimal (nat (- v))) else pad CHR ''0'' w (decimal (nat v)))"

text \<open>\<open>sim_log(type, ...)\<close> on the text of its message.\<close>

definition sim_log :: "int \<Rightarrow> int \<Rightarrow> int \<Rightarrow> string \<Rightarrow> string" where
  "sim_log log_port sysclock type message =
     (if log_port AND type \<noteq> 0 then fmt_0ld 8 sysclock @ '': '' @ message else [])"

subsection \<open>\<open>allprint\<close>\<close>

text \<open>A row of the table: the text of each slot from \<open>lo\<close>, with \<open>sep\<close> between them.\<close>

definition print_row :: "string \<Rightarrow> string \<Rightarrow> (nat \<Rightarrow> string res) \<Rightarrow> nat \<Rightarrow> nat \<Rightarrow> string res" where
  "print_row head sep cell lo hi =
     bindR (foldR (\<lambda>i out. bindR (cell i) (\<lambda>t. Inr (out @ (if i = lo then [] else sep) @ t))) [lo..<hi] head) (\<lambda>out.
     Inr (out @ [newline]))"

definition process_cell :: "sim \<Rightarrow> nat \<Rightarrow> string res" where
  "process_cell s i = Inr (case active_at s i of Some j \<Rightarrow> ''  '' @ fmt_0ld 2 (int i) | None \<Rightarrow> ''  --'')"

definition pc_cell :: "sim \<Rightarrow> nat \<Rightarrow> string res" where
  "pc_cell s i = Inr (case active_at s i of Some j \<Rightarrow> fmt_0ld 4 (p_pc (s_queue s ! j)) | None \<Rightarrow> ''----'')"

text \<open>The mark \<open>*\<close> is for the page of the program counter.\<close>

definition page_text :: "bool \<Rightarrow> int \<Rightarrow> string" where
  "page_text here v =
     (if here then ''*'' else '' '') @
     (if v > 0 then ''i'' @ fmt_3ld v
      else if v = 0 then ''=in ''
      else if v = -100 then ''=out''
      else ''o'' @ fmt_3ld (100 + v))"

definition page_cell :: "sim \<Rightarrow> nat \<Rightarrow> nat \<Rightarrow> string res" where
  "page_cell s j i =
     (case active_at s i of None \<Rightarrow> Inr '' ----''
      | Some k \<Rightarrow>
          let pcblock = p_pc (s_queue s ! k) sdiv PAGESIZE in
          bindR (idx (p_pages (s_queue s ! k)) (int j)) (\<lambda>v. Inr (page_text (int j = pcblock) v)))"

definition print_half :: "sim \<Rightarrow> nat \<Rightarrow> nat \<Rightarrow> string \<Rightarrow> string res" where
  "print_half s lo hi out =
     bindR (print_row ''process  '' '' | '' (process_cell s) lo hi) (\<lambda>l1.
     bindR (print_row ''pc       '' '' | '' (pc_cell s) lo hi) (\<lambda>l2.
     bindR (foldR (\<lambda>j out. bindR (print_row (''page'' @ fmt_0ld 2 (int j) @ ''  '') '' |'' (page_cell s j) lo hi) (\<lambda>l.
       Inr (out @ l))) [0..<MAXPROCPAGES] []) (\<lambda>ls.
     Inr (out @ l1 @ l2 @ ls @ replicate 76 CHR ''-'' @ [newline]))))"

definition allprint :: "sim \<Rightarrow> string res" where
  "allprint s =
     bindR (print_half s 0 (MAXPROCESSES div 2) [newline]) (\<lambda>out. print_half s (MAXPROCESSES div 2) MAXPROCESSES out)"

text \<open>\<open>endit\<close>: the text, and the status of \<open>exit\<close>.\<close>

definition endit :: "sim \<Rightarrow> (string \<times> int) res" where
  "endit s = bindR (allprint s) (\<lambda>out. Inr (out, 0))"

subsection \<open>The width of the table\<close>

lemma pad_length: "length t \<le> w \<Longrightarrow> length (pad c w t) = w"
  by (simp add: pad_def)

lemma fmt_0ld_length: "0 \<le> v \<Longrightarrow> v < 10 ^ Suc k \<Longrightarrow> length (fmt_0ld (Suc k) v) = Suc k"
  using decimal_length [of "nat v" "Suc k"] by (simp add: fmt_0ld_def pad_length nat_less_iff)

lemma fmt_3ld_length: "-10 < v \<Longrightarrow> v < 1000 \<Longrightarrow> length (fmt_3ld v) = 3"
proof -
  assume v: "-10 < v" "v < 1000"
  have "length (fmt_ld v) \<le> 3"
  proof (cases "v < 0")
    case True
    then have "length (decimal (nat (- v))) \<le> 1" using v decimal_length [of "nat (- v)" 1] by simp
    then show ?thesis using True by (simp add: fmt_ld_def)
  next
    case False
    then have "nat v < 10 ^ 3" using v by simp
    then show ?thesis using False decimal_length [of "nat v" 3] by (simp add: fmt_ld_def)
  qed
  then show ?thesis by (simp add: fmt_3ld_def pad_length)
qed

lemma page_text_length: "-101 \<le> v \<Longrightarrow> v \<le> 100 \<Longrightarrow> length (page_text here v) = 5"
  by (auto simp: page_text_def fmt_3ld_length)

lemma print_row_width:
  fixes head sep :: string
  assumes "\<And>i. lo \<le> i \<Longrightarrow> i < hi \<Longrightarrow> okR (cell i) (\<lambda>t. length t = w)" and "lo < hi"
  shows "okR (print_row head sep cell lo hi) (\<lambda>l. length l = length head + (hi - lo) * w + (hi - lo - 1) * length sep + 1)"
proof -
  let ?I = "\<lambda>i (out :: string). length out = length head + (i - lo) * w + (i - lo - 1) * length sep"
  have "okR (foldR (\<lambda>i out. bindR (cell i) (\<lambda>t. Inr (out @ (if i = lo then [] else sep) @ t))) [lo..<hi] head) (?I hi)"
  proof (rule okR_foldR_upt [where I = ?I])
    fix i and out :: string assume i: "lo \<le> i" "i < hi" and out: "?I i out"
    obtain t where t: "cell i = Inr t" "length t = w" using assms(1) [OF i] by (auto simp: okR_iff)
    show "okR (bindR (cell i) (\<lambda>t. Inr (out @ (if i = lo then [] else sep) @ t))) (?I (Suc i))"
    proof (cases "i = lo")
      case False
      then have "Suc i - lo = Suc (i - lo)" "i - lo = Suc (i - lo - 1)" using i by simp_all
      then show ?thesis using t out False by (simp add: algebra_simps)
    qed (use t out in simp)
  qed (use assms(2) in simp_all)
  then show ?thesis by (auto simp: print_row_def elim!: okR_mono)
qed


text \<open>A text of \<open>n\<close> lines of 76 bytes.\<close>

definition table_lines :: "nat \<Rightarrow> string \<Rightarrow> bool" where
  "table_lines n out \<longleftrightarrow> (\<exists>ls. out = concat (map (\<lambda>l. l @ [newline]) ls) \<and> length ls = n \<and> (\<forall>l \<in> set ls. length l = 76))"

lemma table_lines_append: "table_lines m a \<Longrightarrow> table_lines n b \<Longrightarrow> table_lines (m + n) (a @ b)"
  unfolding table_lines_def by (elim exE, rename_tac xs ys, rule_tac x = "xs @ ys" in exI) auto

lemma table_line: "length l = 76 \<Longrightarrow> table_lines 1 (l @ [newline])"
  unfolding table_lines_def by (intro exI [of _ "[l]"]) simp

lemma print_row_line:
  fixes head sep :: string
  assumes "\<And>i. lo \<le> i \<Longrightarrow> i < hi \<Longrightarrow> okR (cell i) (\<lambda>t. length t = w)"
    and "lo < hi" and "length head + (hi - lo) * w + (hi - lo - 1) * length sep = 76"
  shows "okR (print_row head sep cell lo hi) (table_lines 1)"
proof -
  have "okR (print_row head sep cell lo hi) (\<lambda>l. length l = length head + (hi - lo) * w + (hi - lo - 1) * length sep + 1)"
    by (rule print_row_width) (rule assms(1), assumption+, rule assms(2))
  then obtain l where l: "print_row head sep cell lo hi = Inr l" "length l = 77"
    using assms(3) by (auto simp: okR_iff)
  then obtain l' where "l = l' @ [newline]" by (auto simp: print_row_def bindR_eq_Inr)
  then show ?thesis using l table_line [of l'] by simp
qed

lemma wf_process_pc_bound: "wf_process programs q \<Longrightarrow> 0 \<le> p_pc q \<and> p_pc q < 10000"
  using wf_process_prog [OF _ wf_programs_programs, of q] by (auto simp: wf_program_def)

lemma print_half_lines:
  assumes "run_inv s" and "lo < hi" and "hi \<le> MAXPROCESSES" and "hi - lo = 10"
  shows "okR (print_half s lo hi out) (\<lambda>out'. \<exists>t. out' = out @ t \<and> table_lines 23 t)"
proof -
  have inv: "sim_inv s" using assms(1) by (simp add: run_inv_def)
  have slot: "wf_process programs (s_queue s ! k) \<and> 0 \<le> p_pc (s_queue s ! k) \<and> p_pc (s_queue s ! k) < 10000 \<and>
      list_all (\<lambda>v. -101 \<le> v \<and> v \<le> 100) (p_pages (s_queue s ! k)) \<and> length (p_pages (s_queue s ! k)) = 20"
    if "i < hi" "active_at s i = Some k" for i k
  proof -
    have i: "i < 20" using that(1) assms(3) by simp
    then have k: "s_processes s ! i = Some k" using that(2) by (auto simp: active_at_def split: option.splits if_splits)
    have wf: "wf_process programs (s_queue s ! k)" using sim_inv_slot [OF inv i k] by simp
    then show ?thesis using wf_process_pc_bound [OF wf] by (simp add: wf_process_def)
  qed
  have process: "okR (print_row ''process  '' '' | '' (process_cell s) lo hi) (table_lines 1)"
  proof (rule print_row_line [where w = 4])
    show "okR (process_cell s i) (\<lambda>t. length t = 4)" if "lo \<le> i" "i < hi" for i
      using that assms(3) fmt_0ld_length [of "int i" 1] by (simp add: process_cell_def numeral_eq_Suc split: option.split)
  qed (use assms in simp_all)
  have pcs: "okR (print_row ''pc       '' '' | '' (pc_cell s) lo hi) (table_lines 1)"
  proof (rule print_row_line [where w = 4])
    show "okR (pc_cell s i) (\<lambda>t. length t = 4)" if "lo \<le> i" "i < hi" for i
      using that slot [of i] fmt_0ld_length [of "p_pc (s_queue s ! k)" 3 for k]
      by (auto simp: pc_cell_def numeral_eq_Suc split: option.split)
  qed (use assms in simp_all)
  let ?f = "\<lambda>j out. bindR (print_row (''page'' @ fmt_0ld 2 (int j) @ ''  '') '' |'' (page_cell s j) lo hi) (\<lambda>l. Inr (out @ l))"
  have row: "okR (print_row (''page'' @ fmt_0ld 2 (int j) @ ''  '') '' |'' (page_cell s j) lo hi) (table_lines 1)" if j: "j < 20" for j
  proof (rule print_row_line [where w = 5])
    show "okR (page_cell s j i) (\<lambda>t. length t = 5)" if i: "lo \<le> i" "i < hi" for i
    proof (cases "active_at s i")
      case (Some k)
      note q = slot [OF i(2) Some]
      then have "-101 \<le> p_pages (s_queue s ! k) ! j" "p_pages (s_queue s ! k) ! j \<le> 100" using j by (simp_all add: list_all_length)
      then show ?thesis using Some q j page_text_length by (simp add: page_cell_def Let_def)
    qed (simp add: page_cell_def)
  qed (use assms j fmt_0ld_length [of "int j" 1] in \<open>simp_all add: numeral_eq_Suc\<close>)
  have "okR (foldR ?f [0..<20] []) (table_lines 20)"
  proof (rule okR_foldR_upt [where I = "\<lambda>n. table_lines n"])
    fix j out assume "j < (20::nat)" "table_lines j out"
    then show "okR (?f j out) (table_lines (Suc j))"
      using row [of j] table_lines_append [of j out 1] by (auto elim!: okR_mono)
  qed (simp_all add: table_lines_def)
  then obtain l1 l2 ls where l: "print_row ''process  '' '' | '' (process_cell s) lo hi = Inr l1" "table_lines 1 l1"
    "print_row ''pc       '' '' | '' (pc_cell s) lo hi = Inr l2" "table_lines 1 l2"
    "foldR ?f [0..<20] [] = Inr ls" "table_lines 20 ls"
    using process pcs unfolding okR_iff by blast
  have "table_lines (1 + (1 + (20 + 1))) (l1 @ l2 @ ls @ replicate 76 CHR ''-'' @ [newline])"
    using l table_line [of "replicate 76 CHR ''-''"] by (intro table_lines_append) simp_all
  then show ?thesis unfolding print_half_def l bindR_simps okR_simps by (intro exI conjI) simp_all
qed

lemma allprint_lines:
  assumes "run_inv s"
  shows "\<exists>t. allprint s = Inr (newline # t) \<and> table_lines 46 t"
proof -
  obtain t where t: "print_half s 0 10 [newline] = Inr ([newline] @ t)" "table_lines 23 t"
    using print_half_lines [OF assms, of 0 10 "[newline]"] by (auto simp: okR_iff)
  moreover obtain u where "print_half s 10 20 ([newline] @ t) = Inr (([newline] @ t) @ u)" "table_lines 23 u"
    using print_half_lines [OF assms, of 10 20 "[newline] @ t"] by (auto simp: okR_iff)
  ultimately show ?thesis using table_lines_append [of 23 t 23 u] by (auto simp: allprint_def)
qed

text \<open>C35: What a cell says.\<close>

lemma digit_chars: "c \<in> set (decimal n) \<Longrightarrow> c \<noteq> CHR '' '' \<and> c \<noteq> CHR ''-''"
  using decimal_digits [of n] by (auto simp: list_all_iff is_digit_def)

lemma decimal_inject: "decimal m = decimal n \<longleftrightarrow> m = n"
  by (metis decimal_digits of_nat_eq_iff)

lemma fmt_ld_inject: "fmt_ld v = fmt_ld w \<longleftrightarrow> v = w"
proof -
  have sign: "CHR ''-'' # decimal m \<noteq> decimal n" for m n
    using digit_chars [of "CHR ''-''" n] by (metis list.set_intros(1))
  show ?thesis
    using sign sign [symmetric] by (auto simp: fmt_ld_def decimal_inject)
qed

lemma fmt_3ld_inject: "fmt_3ld v = fmt_3ld w \<longleftrightarrow> v = w"
proof -
  have "dropWhile (\<lambda>c. c = CHR '' '') (fmt_3ld v) = fmt_ld v" for v
  proof -
    have "CHR '' '' \<notin> set (fmt_ld v)" using digit_chars by (auto simp: fmt_ld_def)
    then have "dropWhile (\<lambda>c. c = CHR '' '') (fmt_ld v) = fmt_ld v" by (metis dropWhile_eq_self_iff hd_in_set)
    then show ?thesis by (simp add: fmt_3ld_def pad_def dropWhile_append)
  qed
  then show ?thesis by (metis fmt_ld_inject)
qed

lemma page_text_inject: "page_text here v = page_text here' w \<longleftrightarrow> here = here' \<and> v = w"
  by (auto simp: page_text_def fmt_3ld_inject)

lemma page_text_out: "page_text here (-101) = (if here then ''*o -1'' else '' o -1'')"
  by (simp add: page_text_def fmt_3ld_def fmt_ld_def pad_def decimal.simps char_of_def bit_0)


end
