(* ===== verification/Pager_Basic.thy ===== *)
theory Pager_Basic
  imports Simulator
begin

text \<open>
  The two small pagers of \<open>assignments/pa7\<close>: \<open>pager-basic.c\<close>, which serves one process at a time,
  and the skeleton \<open>pager-lru.c\<close>, which stops the program. \<open>pager-basic\<close> interprets the locale
  \<open>pager\<close>, so runs of the simulator with it are free of faults; the invariant \<open>serial\<close> then shows
  that it runs the jobs one after the other.
\<close>

subsection \<open>\<open>pager-basic.c\<close>\<close>

text \<open>One turn of the victim loop. \<open>vic++ < MAXPROCPAGES\<close> steps before the body, which sees
  \<open>vic = 1, ..., MAXPROCPAGES\<close>.\<close>

definition basic_victim :: "pentry \<Rightarrow> int \<Rightarrow> int \<Rightarrow> int \<Rightarrow> sim \<Rightarrow> sim flow res" where
  "basic_victim e proc page vic s =
     bindR (idx (e_pages e) page) (\<lambda>b.
     if \<not> b then Inr (Next s)
     else if vic = page then Inr (Next s)
     else let (r, s') = pageout proc vic s in Inr (if r then Break s' else Next s'))"

definition basic_slot :: "pentry list \<Rightarrow> int \<Rightarrow> sim \<Rightarrow> sim flow res" where
  "basic_slot es proc s =
     bindR (idx es proc) (\<lambda>e.
     if \<not> e_active e then Inr (Next s)
     else
       let page = e_pc e sdiv PAGESIZE in
       bindR (idx (e_pages e) page) (\<lambda>b.
       if b then Inr (Break s)
       else let (r, s1) = pagein proc page s in
         if r then Inr (Break s1)
         else bindR (loopR (basic_victim e proc page) [1..int MAXPROCPAGES] s1) (\<lambda>s2. Inr (Next s2))))"

definition basic_pageit :: "unit pager" where
  "basic_pageit es m s =
     bindR (loopR (\<lambda>proc. basic_slot es (int proc)) [0..<MAXPROCESSES] s) (\<lambda>s'. Inr (m, s'))"

subsection \<open>\<open>pager-lru.c\<close>\<close>

record lru =
  lru_initialized :: bool
  lru_tick :: int
  lru_timestamps :: "int list list"

definition lru_pageit :: "lru pager" where
  "lru_pageit es m s =
     (let m1 = (if \<not> lru_initialized m
                then m\<lparr>lru_timestamps := replicate MAXPROCESSES (replicate MAXPROCPAGES 0), lru_initialized := True\<rparr>
                else m)
      in Inl Exit_Failure)"

subsection \<open>The victim loop does nothing\<close>

text \<open>The loop looks at the page of the program counter, which is known not to be in memory.\<close>

lemma basic_victim_loop:
  assumes "idx (e_pages e) page = Inr False"
  shows "loopR (basic_victim e proc page) vics s = Inr s"
  by (induction vics) (simp_all add: basic_victim_def assms)

lemma wf_entry_page:
  assumes "wf_entry e" and "e_active e"
  shows "0 \<le> e_pc e sdiv PAGESIZE" and "e_pc e sdiv PAGESIZE < int (length (e_pages e))"
  using assms by (auto simp: wf_entry_def sdiv_nonneg)

lemma basic_slot_spec:
  assumes "wf_entries es" and "proc < MAXPROCESSES"
  shows "basic_slot es (int proc) s =
    (let e = es ! proc; page = e_pc e sdiv PAGESIZE in
     if \<not> e_active e then Inr (Next s)
     else if e_pages e ! nat page then Inr (Break s)
     else Inr (if fst (pagein (int proc) page s) then Break (snd (pagein (int proc) page s))
               else Next (snd (pagein (int proc) page s))))"
proof -
  have e: "idx es (int proc) = Inr (es ! proc)" "wf_entry (es ! proc)"
    using assms by (auto simp: wf_entries_def list_all_length)
  show ?thesis
    using wf_entry_page [OF e(2)]
    by (auto simp: basic_slot_def e Let_def split_def basic_victim_loop)
qed

lemma basic_slot_calls:
  assumes "wf_entries es" and "proc < MAXPROCESSES"
  shows "okR (basic_slot es (int proc) s) (\<lambda>r. paging_call\<^sup>*\<^sup>* s (flow_state r))"
  using paging_call.intros(1) [of s "int proc"]
  by (auto simp: basic_slot_spec [OF assms] Let_def)

lemma basic_pageit_calls:
  assumes "wf_entries es"
  shows "okR (basic_pageit es m s) (\<lambda>(m', s'). paging_call\<^sup>*\<^sup>* s s')"
proof -
  have "okR (loopR (\<lambda>proc. basic_slot es (int proc)) [0..<20] s) (paging_call\<^sup>*\<^sup>* s)"
  proof (rule okR_loopR)
    fix proc s' assume "proc \<in> set [0..<20]" and s': "paging_call\<^sup>*\<^sup>* s s'"
    then have "okR (basic_slot es (int proc) s') (\<lambda>r. paging_call\<^sup>*\<^sup>* s' (flow_state r))"
      using basic_slot_calls [OF assms] by simp
    then show "okR (basic_slot es (int proc) s') (\<lambda>r. paging_call\<^sup>*\<^sup>* s (flow_state r))"
      by (rule okR_mono) (use s' in simp)
  qed simp
  then show ?thesis by (simp add: basic_pageit_def)
qed

interpretation basic: pager basic_pageit "\<lambda>_. True"
  by unfold_locales (use basic_pageit_calls wf_entries_of in \<open>auto elim!: okR_mono\<close>)

subsection \<open>One job at a time\<close>

definition no_going :: "process \<Rightarrow> bool" where
  "no_going q \<longleftrightarrow> list_all (\<lambda>v. 0 \<le> v \<or> v < -PAGEWAIT) (p_pages q)"

text \<open>A job that has not run yet: at address 0, nothing computed, no page in memory or on its way.\<close>

definition waiting :: "process \<Rightarrow> bool" where
  "waiting q \<longleftrightarrow> p_pages q = fresh_pages \<and> p_pc q = 0 \<and> p_compute q = 0"

text \<open>Every loaded job but the first is still waiting, and no page is on its way out.\<close>

definition serial :: "sim \<Rightarrow> bool" where
  "serial s \<longleftrightarrow> (\<forall>i < s_procs s. \<forall>j. s_processes s ! i = Some j \<longrightarrow>
     no_going (s_queue s ! j) \<and> ((\<exists>i' < i. s_processes s ! i' \<noteq> None) \<longrightarrow> waiting (s_queue s ! j)))"

lemma no_going_waiting: "p_pages q = fresh_pages \<Longrightarrow> no_going q"
  by (simp add: no_going_def fresh_pages_def)

lemma waiting_fresh: "job_fresh j q \<Longrightarrow> waiting q"
  by (simp add: job_fresh_def waiting_def)

text \<open>It suffices to look at the slot that changes.\<close>

lemma serial_slot:
  assumes "serial s" and "s_procs s' = s_procs s"
    and "\<And>i' j. i' \<noteq> i \<Longrightarrow> i' < s_procs s \<Longrightarrow> s_processes s ! i' = Some j \<Longrightarrow> s_queue s' ! j = s_queue s ! j"
    and "\<And>i'. i' \<noteq> i \<Longrightarrow> i' < s_procs s \<Longrightarrow> s_processes s' ! i' = s_processes s ! i'"
    and "s_processes s ! i = None \<Longrightarrow> s_processes s' ! i = None"
    and "\<And>j. s_processes s' ! i = Some j \<Longrightarrow> no_going (s_queue s' ! j)
       \<and> ((\<exists>i' < i. s_processes s ! i' \<noteq> None) \<longrightarrow> waiting (s_queue s' ! j))"
  shows "serial s'"
  unfolding serial_def
proof (intro allI impI)
  fix k j assume k: "k < s_procs s'" and j: "s_processes s' ! k = Some j"
  have low: "s_processes s ! i' \<noteq> None" if "i' < k" "s_processes s' ! i' \<noteq> None" for i'
    using that assms(2,4,5) k by (metis less_trans)
  show "no_going (s_queue s' ! j) \<and> ((\<exists>i' < k. s_processes s' ! i' \<noteq> None) \<longrightarrow> waiting (s_queue s' ! j))"
  proof (cases "k = i")
    case True
    then show ?thesis using assms(6) [of j] j low by blast
  next
    case False
    then have "s_processes s ! k = Some j" "s_queue s' ! j = s_queue s ! j"
      using assms(2,3,4) k j by auto
    then show ?thesis using assms(1,2) k low unfolding serial_def by metis
  qed
qed

lemma serial_put:
  assumes "run_inv s" and "serial s" and "i < s_procs s" and "s_processes s ! i = Some j"
    and "no_going q" and "(\<exists>i' < i. s_processes s ! i' \<noteq> None) \<Longrightarrow> waiting q"
  shows "serial (put_process j a q s)"
proof (rule serial_slot [OF assms(2), where i = i])
  note slot = run_inv_slot [OF assms(1,3,4)]
  show "s_queue (put_process j a q s) ! k = s_queue s ! k"
    if "i' \<noteq> i" "i' < s_procs s" "s_processes s ! i' = Some k" for i' k
  proof -
    have "k \<noteq> j"
      using that assms(1,4) sim_table_inj [of s i' i j] slot(1) run_inv_lengths(3) [OF assms(1)]
      by (auto simp: run_inv_def)
    then show ?thesis by simp
  qed
  show "no_going (s_queue (put_process j a q s) ! k)
      \<and> ((\<exists>i' < i. s_processes s ! i' \<noteq> None) \<longrightarrow> waiting (s_queue (put_process j a q s) ! k))"
    if "s_processes (put_process j a q s) ! i = Some k" for k
    using that assms slot(6) by simp
qed (use assms in simp_all)

lemma serialD:
  assumes "serial s" and "i < s_procs s" and "s_processes s ! i = Some j"
  shows "no_going (s_queue s ! j)" and "(\<exists>i' < i. s_processes s ! i' \<noteq> None) \<Longrightarrow> waiting (s_queue s ! j)"
  using assms by (simp_all add: serial_def)

lemma cur_page_waiting: "waiting q \<Longrightarrow> p_pages q ! cur_page q \<noteq> 0"
  by (simp add: waiting_def fresh_pages_def cur_page_def)

lemma serial_step_slot:
  assumes "run_inv s" and "serial s" and "i < s_procs s"
  shows "okR (step_slot i s) serial"
proof (cases "s_processes s ! i")
  case None
  then show ?thesis using step_slot_empty assms by simp
next
  case (Some j)
  note slot = run_inv_slot [OF assms(1,3) Some] and ser = serialD [OF assms(2,3) Some]
  obtain r q where step: "process_step programs (s_queue s ! j) = Inr (r, q)"
    and same: "same_memory (s_queue s ! j) q"
    using process_step_wf [OF wf_programs_programs slot(3)] by (auto simp: okR_iff)
  have stall: "r \<and> waiting q" if "waiting (s_queue s ! j)"
    using step that process_step_stalled [OF wf_programs_programs slot(3,4) cur_page_waiting [OF that]]
    by (auto simp: stalled_def waiting_def)
  show ?thesis
  proof (cases r)
    case True
    have "serial (put_process j (s_pagesavail s) q s)"
      by (rule serial_put [OF assms(1,2,3) Some]) (use same ser stall in \<open>auto simp: no_going_def same_memory_def\<close>)
    then show ?thesis using step_slot_runs [OF assms(1,3) Some] step True by simp
  next
    case False
    let ?p = "fst (next_job s)" and ?e = "snd (next_job s)" and ?a = "s_pagesavail s + frames (s_queue s ! j)"
    have first: "\<not> (\<exists>i' < i. s_processes s ! i' \<noteq> None)" using ser(2) stall False by blast
    obtain q' where s': "step_slot i s = Inr (swap_slot i ?p ?e j ?a q' s)"
      using step_slot_exits [OF assms(1,3) Some, of q] step False by auto
    have len: "length (s_processes s) = 20" "length (s_queue s) = 40"
      using run_inv_lengths [OF assms(1)] by simp_all
    have "serial (swap_slot i ?p ?e j ?a q' s)"
    proof (rule serial_slot [OF assms(2), where i = i])
      show "s_queue (swap_slot i ?p ?e j ?a q' s) ! k = s_queue s ! k"
        if "i' \<noteq> i" "i' < s_procs s" "s_processes s ! i' = Some k" for i' k
      proof -
        have "k \<noteq> j"
          using that assms(1) Some sim_table_inj [of s i' i j] slot(1) run_inv_lengths(3) [OF assms(1)]
          by (auto simp: run_inv_def)
        then show ?thesis by (simp add: swap_slot_def)
      qed
      show "no_going (s_queue (swap_slot i ?p ?e j ?a q' s) ! k) \<and>
          ((\<exists>i' < i. s_processes s ! i' \<noteq> None) \<longrightarrow> waiting (s_queue (swap_slot i ?p ?e j ?a q' s) ! k))"
        if k: "s_processes (swap_slot i ?p ?e j ?a q' s) ! i = Some k" for k
      proof -
        have k: "k = s_queueend s" "k < 40" using k slot(1) len
          by (auto simp: swap_slot_def next_job_def split: if_splits)
        then have "job_fresh k (s_queue s ! k)" using assms(1) by (simp add: run_inv_def jobs_inv_def)
        then have "p_pages (s_queue s ! k) = fresh_pages" by (simp add: job_fresh_def)
        moreover have "s_queue (swap_slot i ?p ?e j ?a q' s) ! k = s_queue s ! k"
          using k slot(7) by (simp add: swap_slot_def)
        ultimately show ?thesis using first no_going_waiting by auto
      qed
    qed (use Some in \<open>simp_all add: swap_slot_def\<close>)
    then show ?thesis using s' by simp
  qed
qed

lemma serial_allstep:
  assumes "run_inv s" and "serial s"
  shows "okR (allstep s) (\<lambda>s'. run_inv s' \<and> s_procs s' = s_procs s \<and> serial s')"
proof -
  let ?I = "\<lambda>n s'. run_inv s' \<and> s_procs s' = s_procs s \<and> serial s'"
  have "okR (foldR step_slot [0..<s_procs s] s) (?I (s_procs s))"
  proof (rule okR_foldR_upt [where I = ?I])
    fix i s' assume i: "i < s_procs s" and I: "?I i s'"
    then have "okR (step_slot i s') (\<lambda>s''. run_inv s'' \<and> slot_stepped i s' s'')" "okR (step_slot i s') serial"
      by (simp_all add: step_slot_inv serial_step_slot)
    then show "okR (step_slot i s') (?I (Suc i))"
      using I by (auto simp: okR_iff slot_stepped_def)
  qed (use assms in simp_all)
  then show ?thesis by (simp add: allstep_def)
qed

lemma no_going_aged: "no_going q \<Longrightarrow> no_going (aged q)"
  by (auto simp: no_going_def aged_def age_def list_all_iff)

lemma waiting_aged: "waiting q \<Longrightarrow> waiting (aged q)"
  by (simp add: waiting_def aged_def fresh_pages_def age_def)

lemma serial_allage:
  assumes "run_inv s" and "serial s"
  shows "serial (allage s)"
proof -
  have "run_inv (allage s) \<and> serial (allage s)"
    unfolding allage_def
  proof (rule fold_invariant [where Q = "\<lambda>i. i < s_procs s" and P = "\<lambda>s'. run_inv s' \<and> serial s' \<and> s_procs s' = s_procs s", THEN conjE])
    fix i s' assume i: "i < s_procs s" and s': "run_inv s' \<and> serial s' \<and> s_procs s' = s_procs s"
    then have i20: "i < 20" using run_inv_lengths(3) [of s'] by simp
    have "serial (age_slot i s')"
    proof (cases "s_processes s' ! i")
      case None
      then show ?thesis using s' i20 by (simp add: age_slot_def active_at_Some run_inv_def)
    next
      case (Some j)
      have "sim_inv s'" using s' by (simp add: run_inv_def)
      show ?thesis
        unfolding age_slot_loaded [OF \<open>sim_inv s'\<close> i20 Some]
        by (rule serial_put [of s' i]) (use s' i Some serialD [of s' i j] no_going_aged waiting_aged in auto)
    qed
    then show "run_inv (age_slot i s') \<and> serial (age_slot i s') \<and> s_procs (age_slot i s') = s_procs s"
      using s' i20 run_inv_age_slot [of s' i] by simp
  qed (use assms in auto)
  then show ?thesis by simp
qed

text \<open>The pager serves the first loaded job and stops there: one job alone never exhausts the
  frames, so its page-in is always granted.\<close>

lemma frames_le_20: "run_inv s \<Longrightarrow> j < QUEUESIZE \<Longrightarrow> frames (s_queue s ! j) \<le> 20"
  using frames_le [of "s_queue s ! j" 20] by (simp add: run_inv_def sim_inv_def sim_shape_def wf_process_def list_all_length)

lemma serial_avail:
  assumes "run_inv s" and "serial s"
  shows "80 \<le> s_pagesavail s"
proof -
  have inv: "sim_inv s" "jobs_inv s" and len: "length (s_queue s) = 40" "s_procs s \<le> 20"
    using assms(1) run_inv_lengths [OF assms(1)] by (simp_all add: run_inv_def)
  have zero: "frames (s_queue s ! j) = 0"
    if j: "j < 40" and no: "\<And>i. i < s_procs s \<Longrightarrow> s_processes s ! i = Some j \<Longrightarrow> \<exists>i' < i. s_processes s ! i' \<noteq> None" for j
  proof (cases "Some j \<in> set (s_processes s)")
    case False
    then show ?thesis using inv(1) j by (simp add: sim_inv_def sim_table_def)
  next
    case True
    then obtain i where i: "i < 20" "s_processes s ! i = Some j" using table_mem_iff [OF inv(1)] by blast
    then have "i < s_procs s" using inv(2) by (auto simp: jobs_inv_def not_less [symmetric] simp del: not_less)
    then have "waiting (s_queue s ! j)" using no i serialD(2) [OF assms(2)] by blast
    then show ?thesis by (simp add: waiting_def)
  qed
  have "total_frames s \<le> 20"
  proof (cases "\<exists>i < s_procs s. s_processes s ! i \<noteq> None")
    case False
    then have "map frames (s_queue s) = replicate 40 0" using zero len by (intro nth_equalityI) auto
    then show ?thesis by (simp add: total_frames_def sum_list_replicate)
  next
    case True
    define i where "i = (LEAST i. i < s_procs s \<and> s_processes s ! i \<noteq> None)"
    have i: "i < s_procs s" "s_processes s ! i \<noteq> None" and least: "\<And>k. k < i \<Longrightarrow> s_processes s ! k = None"
      using LeastI_ex [OF True] not_less_Least [where P = "\<lambda>i. i < s_procs s \<and> s_processes s ! i \<noteq> None"]
      unfolding i_def by (blast, blast, metis (mono_tags, lifting) LeastI_ex True less_trans)
    then obtain j where j: "s_processes s ! i = Some j" by blast
    then have "j < 40" using run_inv_slot [OF assms(1) i(1)] by simp
    have "frames (s_queue s ! k) = 0" if "k < 40" "k \<noteq> j" for k
      using that j i least by (intro zero) (metis linorder_neqE_nat option.inject option.distinct(1))+
    then have "map frames ((s_queue s)[j := (s_queue s ! j)\<lparr>p_pages := []\<rparr>]) = replicate 40 0"
      using len \<open>j < 40\<close> by (intro nth_equalityI) (auto simp: nth_list_update frames_def)
    then have "sum_list (map frames ((s_queue s)[j := (s_queue s ! j)\<lparr>p_pages := []\<rparr>])) = 0"
      by (simp add: sum_list_replicate)
    then have "total_frames s = frames (s_queue s ! j)"
      using \<open>j < 40\<close> len by (simp add: total_frames_def sum_list_map_update frames_def)
    then show ?thesis using frames_le_20 [OF assms(1) \<open>j < 40\<close>] by simp
  qed
  then show ?thesis using inv(1) by (simp add: sim_inv_def sim_frames_def)
qed

lemma pagein_put:
  assumes "sim_inv s" and "i < s_procs s" and "s_processes s ! i = Some j"
  shows "snd (pagein (int i) p s) = s \<or> snd (pagein (int i) p s) =
    put_process j (s_pagesavail s - 1) ((s_queue s ! j)\<lparr>p_pages := (p_pages (s_queue s ! j))[nat p := PAGEWAIT]\<rparr>) s"
  using slot_active(1) [OF assms(1), of "int i"] assms(2,3) by (auto simp: pagein_def Let_def)

lemma serial_pagein:
  assumes "run_inv s" and "serial s" and "i < s_procs s" and "s_processes s ! i = Some j"
    and "\<And>i'. i' < i \<Longrightarrow> s_processes s ! i' = None"
  shows "serial (snd (pagein (int i) p s))"
proof -
  let ?q = "(s_queue s ! j)\<lparr>p_pages := (p_pages (s_queue s ! j))[nat p := PAGEWAIT]\<rparr>"
  have "sim_inv s" using assms(1) by (simp add: run_inv_def)
  have "no_going ?q" using serialD(1) [OF assms(2-4)] by (auto simp: no_going_def intro: list_all_update)
  then have "serial (put_process j (s_pagesavail s - 1) ?q s)"
    by (rule serial_put [OF assms(1-4)]) (use assms(5) in auto)
  then show ?thesis using pagein_put [OF \<open>sim_inv s\<close> assms(3,4), of p] assms(2) by metis
qed

text \<open>The request for the page of the program counter of the first job is granted.\<close>

lemma pagein_granted:
  assumes "run_inv s" and "serial s" and "i < s_procs s" and "s_processes s ! i = Some j"
  shows "fst (pagein (int i) (int (cur_page (s_queue s ! j))) s)"
proof -
  let ?q = "s_queue s ! j" and ?p = "int (cur_page (s_queue s ! j))"
  have inv: "sim_inv s" using assms(1) by (simp add: run_inv_def)
  note slot = run_inv_slot [OF assms(1,3,4)]
  have pg: "cur_page ?q < 20" "length (p_pages ?q) = 20"
    using wf_process_page(2) [OF slot(3) wf_programs_programs] slot(3) by (simp_all add: wf_process_def)
  have valid: "valid_page s (int i) ?p" using assms(3,4) pg by (simp add: valid_page_def)
  have "0 \<le> p_pc ?q" using paging_valid_slot(4) [OF inv, of "int i" j] assms(3,4) by simp
  then have pc: "?p = pc_page s (int i)" using assms(4) by (simp add: pc_page_def cur_page_def)
  have st: "state_of s (int i) ?p = abs_page (p_pages ?q ! cur_page ?q)"
    using assms(4) by (simp add: state_of_def page_of_def)
  have "0 \<le> p_pages ?q ! cur_page ?q \<or> p_pages ?q ! cur_page ?q < -100"
    using serialD(1) [OF assms(2-4)] pg by (simp add: no_going_def list_all_length)
  then have "state_of s (int i) ?p = In \<or> (\<exists>n. state_of s (int i) ?p = Coming n) \<or> state_of s (int i) ?p = Out"
    unfolding st abs_page_def by auto
  then show ?thesis
    using pagein_spec [OF inv, of "int i" ?p] serial_avail [OF assms(1,2)] valid pc by auto
qed

text \<open>What the pager does to a serial system: nothing, or one page-in for the first loaded job.\<close>

definition basic_effect :: "sim \<Rightarrow> sim \<Rightarrow> bool" where
  "basic_effect s s' \<longleftrightarrow> s' = s \<or>
    (\<exists>i < s_procs s. (\<forall>i' < i. s_processes s ! i' = None) \<and>
       (\<exists>j p. s_processes s ! i = Some j \<and> s' = snd (pagein (int i) p s)))"

lemma basic_loop:
  assumes "run_inv s" and "serial s" and "\<And>i. i < m \<Longrightarrow> s_processes s ! i = None" and "m + d = MAXPROCESSES"
  shows "okR (loopR (\<lambda>proc. basic_slot (entries_of s) (int proc)) [m..<MAXPROCESSES] s) (basic_effect s)"
  using assms(3,4)
proof (induction d arbitrary: m)
  case 0
  then show ?case by (simp add: basic_effect_def)
next
  case (Suc d)
  have m: "m < 20" and upt: "[m..<20] = m # [Suc m..<20]" using Suc.prems(2) by (simp_all add: upt_conv_Cons)
  have e: "entries_of s ! m = entry_of s m" using m by (simp add: entries_of_def)
  note spec = basic_slot_spec [OF wf_entries_of [OF assms(1)] m, of s]
  show ?case
  proof (cases "s_processes s ! m")
    case None
    then have "basic_slot (entries_of s) (int m) s = Inr (Next s)"
      unfolding spec e by (simp add: entry_of_def)
    moreover have "s_processes s ! i = None" if "i < Suc m" for i using Suc.prems(1) None that by (auto simp: less_Suc_eq)
    ultimately show ?thesis using Suc.IH [of "Suc m"] Suc.prems(2) upt by simp
  next
    case (Some j)
    have procs: "m < s_procs s"
      using assms(1) Some m by (auto simp: run_inv_def jobs_inv_def not_less [symmetric] simp del: not_less)
    note slot = run_inv_slot [OF assms(1) procs Some]
    have ent: "entry_of s m = \<lparr>e_active = True, e_pc = p_pc (s_queue s ! j), e_npages = 20,
        e_pages = map (\<lambda>v. v = 0) (p_pages (s_queue s ! j))\<rparr>"
      using Some by (simp add: entry_of_def Let_def)
    have pg: "p_pc (s_queue s ! j) sdiv PAGESIZE = int (cur_page (s_queue s ! j))"
      using wf_process_page(1) [OF slot(3) wf_programs_programs] .
    have "basic_slot (entries_of s) (int m) s = Inr (Break s) \<or>
      basic_slot (entries_of s) (int m) s = Inr (Break (snd (pagein (int m) (int (cur_page (s_queue s ! j))) s)))"
      unfolding spec e ent using pagein_granted [OF assms(1,2) procs Some] by (simp add: pg Let_def)
    moreover have "basic_effect s s" "basic_effect s (snd (pagein (int m) p s))" for p
      using procs Some Suc.prems(1) unfolding basic_effect_def by blast+
    ultimately show ?thesis using upt by auto
  qed
qed

lemma serial_tick:
  assumes "run_inv s" and "serial s"
  shows "okR (sim_tick basic_pageit (m, s)) (\<lambda>(m', s'). serial s')"
proof -
  obtain s1 where s1: "allstep s = Inr s1" "run_inv s1" "serial s1"
    using serial_allstep [OF assms] by (auto simp: okR_iff)
  let ?s2 = "(allage s1)\<lparr>s_pageouts := replicate MAXPROCESSES 0\<rparr>"
  have s2: "run_inv (allage s1)" "run_inv ?s2" "serial ?s2"
    using run_inv_allage [OF s1(2)] run_inv_pageouts serial_allage [OF s1(2,3)] by (simp_all add: serial_def)
  obtain s3 where s3: "basic_pageit (entries_of ?s2) m ?s2 = Inr (m, s3)" and eff: "basic_effect ?s2 s3"
    using basic_loop [OF s2(2,3), of 0 20] by (auto simp: okR_iff basic_pageit_def)
  have ser: "serial s3" using eff serial_pagein [OF s2(2,3)] s2(3) unfolding basic_effect_def by blast
  have "run_inv s3"
    using eff run_inv_paging_call [OF call_pagein s2(2)] s2(2) unfolding basic_effect_def by blast
  then obtain b where "allblocked (s3\<lparr>s_sysclock := s_sysclock s3 + 1\<rparr>) = Inr b"
    using allblocked_total by (metis run_inv_sysclock)
  then show ?thesis
    using s1(1) s3 ser by (simp add: sim_tick_def callyou_def snapshot_spec [OF s2(1)] Let_def serial_def)
qed

lemma started_serial:
  assumes "started procs s" and "run_inv s" and "procs \<le> MAXPROCESSES"
  shows "serial s"
  using assms
  by (auto simp: serial_def started_def queue_loaded_def nth_append job_fresh_def waiting_def no_going_waiting
      split: if_splits)

subsection \<open>Properties\<close>

text \<open>C1: A simulation with \<open>pager-basic\<close>, from any seed, on any number of processors and for any
  number of ticks, never faults (no failed assertion, no access outside an array, no NULL) and keeps
  the system invariant: every frame is free or held by one page of a loaded process. When its loop
  ends, all 40 jobs stand at an exit address with their pages released.\<close>

theorem basic_simulation_sound:
  assumes "1 \<le> procs" and "procs \<le> MAXPROCESSES"
  shows "okR (simulate basic_pageit () procs seed n) (\<lambda>(_, s). sim_inv s \<and> (alldone s \<longrightarrow> all_jobs_done s))"
  by (rule okR_mono [OF basic.simulate_inv [OF assms(2) TrueI]])
    (use assms(1) alldone_all_jobs in \<open>auto simp: run_inv_def\<close>)

theorem basic_simulation_sound_witness:
  "okR (simulate basic_pageit () 20 512 1000) (\<lambda>(_, s). s_pagesavail s + total_frames s = PHYSICALPAGES)"
  by (rule okR_mono [OF basic_simulation_sound [of 20]]) (auto simp: sim_inv_def sim_frames_def)

text \<open>C25: \<open>pager-basic\<close> runs the jobs strictly one after the other: at every tick only the first
  loaded slot has computed or holds frames; each later one still waits at address 0 with every page
  out. So at least 80 of the 100 frames are always free, and no page ever goes out.\<close>

theorem basic_simulation_serial:
  assumes "procs \<le> MAXPROCESSES"
  shows "okR (simulate basic_pageit () procs seed n) (\<lambda>(_, s). serial s \<and> 80 \<le> s_pagesavail s)"
  by (rule okR_mono [OF basic.simulate_rule [OF assms TrueI, where I = "\<lambda>_. serial"]])
    (use started_serial [OF _ _ assms] serial_tick serial_avail in auto)

theorem basic_simulation_serial_witness:
  "okR (simulate basic_pageit () 20 512 5000) (\<lambda>(_, s). serial s \<and> 80 \<le> s_pagesavail s)"
  by (rule basic_simulation_serial) simp

text \<open>The LRU skeleton ends the program: with at least one processor the simulation exits with
  \<open>EXIT_FAILURE\<close> in its first tick, whatever the seed.\<close>

lemma lru_simulation_exits:
  assumes "1 \<le> procs" and "procs \<le> MAXPROCESSES"
  shows "simulate lru_pageit m procs seed (Suc n) = Inl Exit_Failure"
proof -
  obtain s where s: "allinit (static_sim procs seed) = Inr s" "started procs s" "run_inv s"
    using allinit_started [OF assms(2), of seed] by (auto simp: okR_iff)
  from s(2) assms(1) have "s_processes s ! 0 = Some 0" "0 < s_procs s"
    by (simp_all add: started_def nth_append)
  then have busy: "\<not> alldone s" using alldone_iff [OF s(3)] by auto
  obtain s1 where s1: "allstep s = Inr s1" "run_inv s1" using allstep_inv [OF s(3)] by (auto simp: okR_iff)
  have "sim_tick lru_pageit (m, s) = Inl Exit_Failure"
    using s1 by (simp add: sim_tick_def callyou_def snapshot_spec [OF run_inv_allage [OF s1(2)]] lru_pageit_def)
  then show ?thesis using s(1) busy by (simp add: simulate_def)
qed

lemma lru_simulation_exits_witness:
  "simulate lru_pageit \<lparr>lru_initialized = False, lru_tick = 1, lru_timestamps = []\<rparr> 20 512 (Suc 0) = Inl Exit_Failure"
  by (rule lru_simulation_exits) simp_all

end
