(* ===== verification/Pages_File.thy ===== *)
theory Pages_File
  imports Simulator_Output Pager_Basic
begin

text \<open>
  The history file \<open>pages.csv\<close> of \<open>assignments/pa7/simulator.c\<close> (option \<open>-csv\<close>). The rows that an operation
  writes are a function of the state before it, with the guards of the code; \<open>step_slot_file\<close>,
  \<open>age_slot_file\<close> and \<open>call_file\<close> run the operations together with the file, \<open>tick_file\<close> is a turn of the main
  loop with any calls a pager may make, and \<open>file_run\<close> a run from \<open>allinit\<close>. The rows of one page of one slot
  are its \<open>column\<close>.
\<close>

subsection \<open>Rows\<close>

datatype mark = Out_Mark | Coming_Mark | In_Mark | Going_Mark

record row =
  r_clock :: int
  r_slot :: int
  r_page :: int
  r_pid :: int
  r_kind :: int
  r_mark :: mark

fun mark_text :: "mark \<Rightarrow> string" where
  "mark_text Out_Mark = ''out''"
| "mark_text Coming_Mark = ''coming''"
| "mark_text In_Mark = ''in''"
| "mark_text Going_Mark = ''going''"

definition row_text :: "row \<Rightarrow> string" where
  "row_text r = fmt_ld (r_clock r) @ '','' @ fmt_ld (r_slot r) @ '','' @ fmt_ld (r_page r) @ '','' @ fmt_ld (r_pid r)
     @ '','' @ fmt_ld (r_kind r) @ '','' @ mark_text (r_mark r) @ [newline]"

definition page_row :: "sim \<Rightarrow> int \<Rightarrow> int \<Rightarrow> process \<Rightarrow> mark \<Rightarrow> row" where
  "page_row s i k q m = \<lparr>r_clock = s_sysclock s, r_slot = i, r_page = k, r_pid = p_pid q, r_kind = p_kind q, r_mark = m\<rparr>"

subsection \<open>The rows of each operation\<close>

definition pageout_rows :: "int \<Rightarrow> int \<Rightarrow> sim \<Rightarrow> row list" where
  "pageout_rows process page s =
     (if process < 0 \<or> process \<ge> int (s_procs s) then []
      else case active_at s (nat process) of None \<Rightarrow> []
      | Some j \<Rightarrow>
          let q = s_queue s ! j in
          if page < 0 \<or> page \<ge> p_npages q then []
          else if p_pages q ! nat page < 0 then []
          else if p_pages q ! nat page > 0 then []
          else [page_row s process page q Going_Mark])"

definition pagein_rows :: "int \<Rightarrow> int \<Rightarrow> sim \<Rightarrow> row list" where
  "pagein_rows process page s =
     (if process < 0 \<or> process \<ge> int (s_procs s) then []
      else case active_at s (nat process) of None \<Rightarrow> []
      | Some j \<Rightarrow>
          let q = s_queue s ! j in
          if p_pc q sdiv PAGESIZE \<noteq> page \<or> page < 0 \<or> page \<ge> p_npages q then []
          else if p_pages q ! nat page \<ge> 0 then []
          else if s_pagesavail s = 0 then []
          else if p_pages q ! nat page \<ge> -PAGEWAIT then []
          else [page_row s process page q Coming_Mark])"

text \<open>One turn of the inner loop of \<open>allage\<close>; a turn changes no other page than its own.\<close>

definition age_page_rows :: "sim \<Rightarrow> nat \<Rightarrow> process \<Rightarrow> nat \<Rightarrow> row list" where
  "age_page_rows s i q k =
     (let v = p_pages q ! k in
      if v = 0 then []
      else if v < -PAGEWAIT then []
      else if v > 0 then (if v - 1 = 0 then [page_row s (int i) (int k) q In_Mark] else [])
      else if v < 0 \<and> v \<ge> -PAGEWAIT then
        (if v - 1 < -PAGEWAIT then [page_row s (int i) (int k) q Out_Mark] else [])
      else [])"

definition age_slot_rows :: "nat \<Rightarrow> sim \<Rightarrow> row list" where
  "age_slot_rows i s =
     (case active_at s i of None \<Rightarrow> []
      | Some j \<Rightarrow> let q = s_queue s ! j in concat (map (age_page_rows s i q) [0..<nat (p_npages q)]))"

text \<open>All pages of a slot out: at the end of its job in \<open>allstep\<close>, and at its start in \<open>allinit\<close>.\<close>

definition all_out_rows :: "nat \<Rightarrow> sim \<Rightarrow> process \<Rightarrow> row list" where
  "all_out_rows i s q = map (\<lambda>k. page_row s (int i) (int k) q Out_Mark) [0..<MAXPROCPAGES]"

definition step_slot_rows :: "nat \<Rightarrow> sim \<Rightarrow> row list" where
  "step_slot_rows i s =
     (case step_process i s of Inl _ \<Rightarrow> []
      | Inr (r, s1) \<Rightarrow>
          if \<not> r then (case active_at s1 i of None \<Rightarrow> [] | Some j \<Rightarrow> all_out_rows i s1 (s_queue s1 ! j))
          else [])"

definition allinit_rows :: "sim \<Rightarrow> row list" where
  "allinit_rows s =
     concat (map (\<lambda>i. case s_processes s ! i of None \<Rightarrow> [] | Some j \<Rightarrow> all_out_rows i s (s_queue s ! j)) [0..<s_procs s])"

subsection \<open>Runs with the file\<close>

definition step_slot_file :: "nat \<Rightarrow> sim \<times> row list \<Rightarrow> (sim \<times> row list) res" where
  "step_slot_file i = (\<lambda>(s, f). bindR (step_slot i s) (\<lambda>s'. Inr (s', f @ step_slot_rows i s)))"

definition age_slot_file :: "nat \<Rightarrow> sim \<times> row list \<Rightarrow> sim \<times> row list" where
  "age_slot_file i = (\<lambda>(s, f). (age_slot i s, f @ age_slot_rows i s))"

inductive call_file :: "sim \<times> row list \<Rightarrow> sim \<times> row list \<Rightarrow> bool" where
  file_pagein: "call_file (s, f) (snd (pagein i p s), f @ pagein_rows i p s)"
| file_pageout: "call_file (s, f) (snd (pageout i p s), f @ pageout_rows i p s)"

inductive tick_file :: "sim \<times> row list \<Rightarrow> sim \<times> row list \<Rightarrow> bool" where
  file_tick: "foldR step_slot_file [0..<s_procs s] (s, f) = Inr (s1, f1) \<Longrightarrow>
    fold age_slot_file [0..<s_procs s1] (s1, f1) = (s2, f2) \<Longrightarrow>
    call_file\<^sup>*\<^sup>* (s2\<lparr>s_pageouts := replicate MAXPROCESSES 0\<rparr>, f2) (s3, f3) \<Longrightarrow>
    tick_file (s, f) (s3\<lparr>s_sysclock := s_sysclock s3 + 1\<rparr>, f3)"

inductive file_run :: "nat \<Rightarrow> int \<Rightarrow> sim \<times> row list \<Rightarrow> bool" for procs seed where
  file_init: "allinit (static_sim procs seed) = Inr s \<Longrightarrow> file_run procs seed (s, allinit_rows s)"
| file_next: "file_run procs seed c \<Longrightarrow> tick_file c c' \<Longrightarrow> file_run procs seed c'"

subsection \<open>The history of a page\<close>

definition column :: "nat \<Rightarrow> nat \<Rightarrow> row list \<Rightarrow> row list" where
  "column i k f = filter (\<lambda>r. r_slot r = int i \<and> r_page r = int k) f"

text \<open>What a row says about the row before it in its column.\<close>

definition follows :: "row \<Rightarrow> row \<Rightarrow> bool" where
  "follows a b \<longleftrightarrow> r_clock a \<le> r_clock b \<and>
     (case r_mark b of
        Coming_Mark \<Rightarrow> r_mark a = Out_Mark
      | In_Mark \<Rightarrow> r_mark a = Coming_Mark \<and> r_clock b = r_clock a + PAGEWAIT
      | Going_Mark \<Rightarrow> r_mark a = In_Mark
      | Out_Mark \<Rightarrow> r_mark a = Going_Mark \<longrightarrow> r_clock b \<le> r_clock a + PAGEWAIT)"

text \<open>The page state that a row stands for at the tick \<open>c\<close>, while no row follows.\<close>

definition stands_for :: "int \<Rightarrow> row \<Rightarrow> page_state" where
  "stands_for c r =
     (case r_mark r of
        Out_Mark \<Rightarrow> Out
      | Coming_Mark \<Rightarrow> Coming (nat (r_clock r + PAGEWAIT + 1 - c))
      | In_Mark \<Rightarrow> In
      | Going_Mark \<Rightarrow> Going (nat (r_clock r + PAGEWAIT + 1 - c)))"

definition slot_page :: "sim \<Rightarrow> nat \<Rightarrow> nat \<Rightarrow> int" where
  "slot_page s i k = (case s_processes s ! i of None \<Rightarrow> -PAGEWAIT - 1 | Some j \<Rightarrow> p_pages (s_queue s ! j) ! k)"


subsection \<open>Columns\<close>

lemma column_append [simp]: "column i k (f @ g) = column i k f @ column i k g"
  and column_Nil [simp]: "column i k [] = []"
  by (simp_all add: column_def)

lemma column_concat:
  assumes "\<And>j. j < n \<Longrightarrow> list_all (\<lambda>r. r_slot r = int i \<and> r_page r = int j) (g j)"
  shows "column i' k (concat (map g [0..<n])) = (if i' = i \<and> k < n then g k else [])"
  using assms
proof (induction n)
  case (Suc n)
  have "column i' k (g n) = (if i' = i \<and> k = n then g n else [])"
    using Suc.prems [of n] by (auto simp: column_def list_all_iff intro!: filter_True)
  then show ?case using Suc by (auto simp: less_Suc_eq)
qed simp

lemma column_all_out:
  "column i' k (all_out_rows i s q) = (if i' = i \<and> k < MAXPROCPAGES then [page_row s (int i) (int k) q Out_Mark] else [])"
proof -
  have "all_out_rows i s q = concat (map (\<lambda>k. [page_row s (int i) (int k) q Out_Mark]) [0..<20])"
    by (simp add: all_out_rows_def concat_map_singleton)
  also have "column i' k \<dots> = (if i' = i \<and> k < 20 then [page_row s (int i) (int k) q Out_Mark] else [])"
    by (rule column_concat) (simp add: page_row_def)
  finally show ?thesis .
qed

lemma column_age_slot:
  assumes "run_inv s" and "i < MAXPROCESSES" and "k < MAXPROCPAGES"
  shows "column i' k (age_slot_rows i s) =
    (case s_processes s ! i of Some j \<Rightarrow> if i' = i then age_page_rows s i (s_queue s ! j) k else [] | None \<Rightarrow> [])"
proof (cases "s_processes s ! i")
  case (Some j)
  have inv: "sim_inv s" using assms(1) by (simp add: run_inv_def)
  have "nat (p_npages (s_queue s ! j)) = 20" using sim_inv_slot [OF inv assms(2) Some] by (simp add: wf_process_def)
  moreover have "column i' k (concat (map (age_page_rows s i q) [0..<20])) = (if i' = i \<and> k < 20 then age_page_rows s i q k else [])" for q
    by (rule column_concat) (simp add: age_page_rows_def Let_def page_row_def)
  ultimately show ?thesis
    using Some assms by (simp add: age_slot_rows_def active_at_Some [OF inv] Let_def del: upt.simps)
qed (use assms in \<open>simp add: age_slot_rows_def active_at_def\<close>)

lemma column_single: "column i k [page_row s i' k' q m] = (if i' = int i \<and> k' = int k then [page_row s i' k' q m] else [])"
  by (simp add: column_def page_row_def)

subsection \<open>The history invariant\<close>

definition shows_page :: "int \<Rightarrow> row \<Rightarrow> int \<Rightarrow> bool" where
  "shows_page c r v \<longleftrightarrow>
     (case r_mark r of
        Out_Mark \<Rightarrow> v = -PAGEWAIT - 1
      | Coming_Mark \<Rightarrow> 0 < v \<and> v \<le> PAGEWAIT \<and> r_clock r = c - PAGEWAIT - 1 + v
      | In_Mark \<Rightarrow> v = 0
      | Going_Mark \<Rightarrow> -PAGEWAIT \<le> v \<and> v < 0 \<and> r_clock r = c + v)"

lemma shows_page_abs: "shows_page c r v \<Longrightarrow> abs_page v = stands_for c r"
  by (auto simp: shows_page_def stands_for_def abs_page_def split: mark.splits)

definition page_history :: "int \<Rightarrow> int \<Rightarrow> int \<Rightarrow> row list \<Rightarrow> bool" where
  "page_history now c v l \<longleftrightarrow> l \<noteq> [] \<and> r_mark (hd l) = Out_Mark \<and> successively follows l
     \<and> shows_page c (last l) v \<and> r_clock (last l) \<le> now"

lemma page_history_snoc:
  "page_history now c v l \<Longrightarrow> follows (last l) r \<Longrightarrow> shows_page c' r v' \<Longrightarrow> r_clock r \<le> now' \<Longrightarrow>
   page_history now' c' v' (l @ [r])"
  by (auto simp: page_history_def successively_append_iff)

lemma page_history_later: "page_history now c v l \<Longrightarrow> page_history (now + 1) c v l"
  by (auto simp: page_history_def)

definition slot_history :: "int \<Rightarrow> sim \<Rightarrow> row list \<Rightarrow> nat \<Rightarrow> bool" where
  "slot_history c s f i \<longleftrightarrow> (\<forall>k < MAXPROCPAGES. page_history (s_sysclock s) c (slot_page s i k) (column i k f))"

lemma slot_history_cong:
  "slot_history c s f i \<Longrightarrow> s_sysclock s' = s_sysclock s \<Longrightarrow>
   (\<And>k. k < MAXPROCPAGES \<Longrightarrow> slot_page s' i k = slot_page s i k \<and> column i k f' = column i k f) \<Longrightarrow> slot_history c s' f' i"
  by (simp add: slot_history_def)

text \<open>What each operation does to the history of one page.\<close>

lemma history_unload:
  assumes "page_history now now v l" and "s_sysclock s = now"
  shows "page_history now now (-PAGEWAIT - 1) (l @ [page_row s i k q Out_Mark])"
  using assms
  by (intro page_history_snoc [OF assms(1)]) (auto simp: page_history_def follows_def shows_page_def page_row_def split: mark.splits)

lemma history_age:
  assumes "page_history now now (p_pages q ! k) l" and "s_sysclock s = now"
  shows "page_history now (now + 1) (age (p_pages q ! k)) (l @ age_page_rows s i q k)"
proof -
  let ?v = "p_pages q ! k"
  have last: "shows_page now (last l) ?v" "r_clock (last l) \<le> now" using assms(1) by (simp_all add: page_history_def)
  consider (end_in) "?v = 1" | (end_out) "?v = -100" | (other) "?v \<noteq> 1" "?v \<noteq> -100" by blast
  then show ?thesis
  proof cases
    case end_in
    then have "age_page_rows s i q k = [page_row s (int i) (int k) q In_Mark]" by (simp add: age_page_rows_def)
    moreover have "page_history now (now + 1) (age ?v) (l @ [page_row s (int i) (int k) q In_Mark])"
      using last end_in assms(2)
      by (intro page_history_snoc [OF assms(1)])
        (auto simp: follows_def shows_page_def page_row_def age_def split: mark.splits)
    ultimately show ?thesis by simp
  next
    case end_out
    then have "age_page_rows s i q k = [page_row s (int i) (int k) q Out_Mark]" by (simp add: age_page_rows_def)
    moreover have "page_history now (now + 1) (age ?v) (l @ [page_row s (int i) (int k) q Out_Mark])"
      using last end_out assms(2)
      by (intro page_history_snoc [OF assms(1)])
        (auto simp: follows_def shows_page_def page_row_def age_def split: mark.splits)
    ultimately show ?thesis by simp
  next
    case other
    then have "age_page_rows s i q k = []" by (auto simp: age_page_rows_def Let_def)
    moreover have "shows_page (now + 1) (last l) (age ?v)"
      using last other by (auto simp: shows_page_def age_def split: mark.splits)
    ultimately show ?thesis using assms(1) by (simp add: page_history_def)
  qed
qed

lemma history_going:
  assumes "page_history now (now + 1) 0 l" and "s_sysclock s = now"
  shows "page_history now (now + 1) (-1) (l @ [page_row s i k q Going_Mark])"
  using assms
  by (intro page_history_snoc [OF assms(1)]) (auto simp: page_history_def follows_def shows_page_def page_row_def split: mark.splits)

lemma history_coming:
  assumes "page_history now (now + 1) v l" and "v < -PAGEWAIT" and "s_sysclock s = now"
  shows "page_history now (now + 1) PAGEWAIT (l @ [page_row s i k q Coming_Mark])"
  using assms
  by (intro page_history_snoc [OF assms(1)]) (auto simp: page_history_def follows_def shows_page_def page_row_def split: mark.splits)

subsection \<open>The operations keep the history\<close>

lemma slot_page_frame [simp]:
  "slot_page (s\<lparr>s_pageouts := ps\<rparr>) i k = slot_page s i k" "slot_page (s\<lparr>s_sysclock := t\<rparr>) i k = slot_page s i k"
  by (simp_all add: slot_page_def split: option.split)

definition history :: "int \<Rightarrow> sim \<Rightarrow> row list \<Rightarrow> bool" where
  "history c s f \<longleftrightarrow> (\<forall>i < s_procs s. slot_history c s f i)"

lemma slot_page_other:
  assumes "run_inv s" and "i < s_procs s" and "s_processes s ! i = Some j" and "i' < s_procs s" and "i' \<noteq> i"
  shows "slot_page (put_process j a q s) i' k = slot_page s i' k"
proof (cases "s_processes s ! i'")
  case (Some j')
  have "sim_inv s" "i < 20" "i' < 20"
    using assms(1,2,4) run_inv_lengths(3) [OF assms(1)] by (simp_all add: run_inv_def)
  then have "j' \<noteq> j" using sim_table_inj [of s i' i j] assms(3,5) Some by auto
  then show ?thesis using Some by (simp add: slot_page_def)
qed (simp add: slot_page_def)

text \<open>A job that goes on writes no row and moves no page; a job that exits writes its pages out, and its
  slot then shows them out, whether it gets another job or not.\<close>

lemma exit_pages:
  assumes "run_inv s" and "i < s_procs s" and "s_processes s ! i = Some j" and "i' < s_procs s" and "k < MAXPROCPAGES"
  shows "slot_page (swap_slot i (fst (next_job s)) (snd (next_job s)) j a q s) i' k =
    (if i' = i then -PAGEWAIT - 1 else slot_page s i' k)"
proof (cases "i' = i")
  case True
  have lens: "i < length (s_processes s)"
    using assms(2) run_inv_lengths(2,3) [OF assms(1)] by simp
  show ?thesis
  proof (cases "s_queueend s < 40")
    case queue: True
    then have "job_fresh (s_queueend s) (s_queue s ! s_queueend s)" "s_queueend s \<noteq> j"
      using assms(1) run_inv_slot(7) [OF assms(1-3)] by (auto simp: run_inv_def jobs_inv_def)
    then show ?thesis using True queue assms(5) lens by (simp add: slot_page_def swap_slot_def next_job_def job_fresh_def fresh_pages_def)
  qed (use True lens in \<open>simp add: slot_page_def swap_slot_def next_job_def\<close>)
next
  case False
  then have "slot_page (swap_slot i (fst (next_job s)) (snd (next_job s)) j a q s) i' k = slot_page (put_process j a q s) i' k"
    by (simp add: slot_page_def swap_slot_def split: option.split)
  then show ?thesis using slot_page_other [OF assms(1-4) False] False by simp
qed

lemma step_slot_pages:
  assumes "run_inv s" and "i < s_procs s" and "step_slot i s = Inr s'"
  shows "(step_slot_rows i s = [] \<and> (\<forall>i' < s_procs s. \<forall>k < MAXPROCPAGES. slot_page s' i' k = slot_page s i' k))
    \<or> ((\<exists>s1 q. s_sysclock s1 = s_sysclock s \<and> step_slot_rows i s = all_out_rows i s1 q)
        \<and> (\<forall>i' < s_procs s. \<forall>k < MAXPROCPAGES. slot_page s' i' k = (if i' = i then -PAGEWAIT - 1 else slot_page s i' k)))"
proof (cases "s_processes s ! i")
  case None
  then show ?thesis
    using assms(3) step_slot_empty [OF assms(1,2) None] by (simp add: step_slot_rows_def step_process_def active_at_def)
next
  case (Some j)
  note slot = run_inv_slot [OF assms(1,2) Some]
  obtain r q where step: "process_step programs (s_queue s ! j) = Inr (r, q)" and q: "same_memory (s_queue s ! j) q"
    using process_step_wf [OF wf_programs_programs slot(3)] by (auto simp: okR_iff)
  let ?s1 = "put_process j (s_pagesavail s) q s"
  show ?thesis
  proof (cases r)
    case True
    then have "s' = ?s1" using step_slot_runs [OF assms(1,2) Some] step assms(3) by simp
    moreover have "slot_page ?s1 i' k = slot_page s i' k" if "i' < s_procs s" for i' k
      using slot_page_other [OF assms(1,2) Some that] Some slot(6) q
      by (cases "i' = i") (simp_all add: slot_page_def same_memory_def)
    ultimately show ?thesis using Some step True by (simp add: step_slot_rows_def step_process_def)
  next
    case False
    obtain q' where "s' = swap_slot i (fst (next_job s)) (snd (next_job s)) j (s_pagesavail s + frames (s_queue s ! j)) q' s"
      using step_slot_exits [OF assms(1,2) Some, of q] step False assms(3) by auto
    then have "\<forall>i' < s_procs s. \<forall>k < 20. slot_page s' i' k = (if i' = i then -100 - 1 else slot_page s i' k)"
      using exit_pages [OF assms(1,2) Some] by blast
    moreover have "p_active q" using q slot(4) by (simp add: same_memory_def)
    then have "active_at ?s1 i = Some j" using Some slot(6) by (simp add: active_at_def)
    then have "step_slot_rows i s = all_out_rows i ?s1 q"
      using Some step False slot(6) by (simp add: step_slot_rows_def step_process_def)
    moreover have "s_sysclock ?s1 = s_sysclock s" by simp
    ultimately show ?thesis by blast
  qed
qed

lemma step_slot_history:
  assumes "run_inv s" and "i < s_procs s" and "history (s_sysclock s) s f"
  shows "okR (step_slot_file i (s, f)) (\<lambda>(s', f'). run_inv s' \<and> s_procs s' = s_procs s \<and> s_sysclock s' = s_sysclock s
    \<and> history (s_sysclock s) s' f')"
proof -
  obtain s' where s': "step_slot i s = Inr s'" "run_inv s'" "slot_stepped i s s'"
    using step_slot_inv [OF assms(1,2)] by (auto simp: okR_iff)
  then have frame: "s_procs s' = s_procs s" "s_sysclock s' = s_sysclock s" by (simp_all add: slot_stepped_def)
  have "page_history (s_sysclock s) (s_sysclock s) (slot_page s' i' k) (column i' k (f @ step_slot_rows i s))"
    if i': "i' < s_procs s" and k: "k < 20" for i' k
  proof -
    have h: "page_history (s_sysclock s) (s_sysclock s) (slot_page s i' k) (column i' k f)"
      using assms(3) i' k by (simp add: history_def slot_history_def)
    consider (quiet) "step_slot_rows i s = []" "slot_page s' i' k = slot_page s i' k"
      | (out) s1 q where "s_sysclock s1 = s_sysclock s" "step_slot_rows i s = all_out_rows i s1 q"
          "slot_page s' i' k = (if i' = i then -PAGEWAIT - 1 else slot_page s i' k)"
      using step_slot_pages [OF assms(1,2) s'(1)] i' k by blast
    then show ?thesis using h k by cases (auto simp: column_all_out intro: history_unload [simplified])
  qed
  then show ?thesis using s' frame by (simp add: step_slot_file_def history_def slot_history_def)
qed

lemma allstep_history:
  assumes "run_inv s" and "history (s_sysclock s) s f"
  shows "okR (foldR step_slot_file [0..<s_procs s] (s, f)) (\<lambda>(s', f'). run_inv s' \<and> s_procs s' = s_procs s
    \<and> s_sysclock s' = s_sysclock s \<and> history (s_sysclock s) s' f')"
proof (rule okR_foldR_upt [where I = "\<lambda>_ (s', f'). run_inv s' \<and> s_procs s' = s_procs s
    \<and> s_sysclock s' = s_sysclock s \<and> history (s_sysclock s) s' f'"])
  fix i and c :: "sim \<times> row list"
  assume "i < s_procs s" "case c of (s', f') \<Rightarrow> run_inv s' \<and> s_procs s' = s_procs s
    \<and> s_sysclock s' = s_sysclock s \<and> history (s_sysclock s) s' f'"
  then show "okR (step_slot_file i c) (\<lambda>(s', f'). run_inv s' \<and> s_procs s' = s_procs s
    \<and> s_sysclock s' = s_sysclock s \<and> history (s_sysclock s) s' f')"
    using step_slot_history [of "fst c" i "snd c"] by (cases c) simp
qed (use assms in simp_all)


lemma age_slot_history:
  assumes "run_inv s" and "i < s_procs s" and "slot_history (s_sysclock s) s f i"
    and "\<forall>i' < s_procs s. i' \<noteq> i \<longrightarrow> slot_history (c i') s f i'"
  shows "slot_history (s_sysclock s + 1) (age_slot i s) (f @ age_slot_rows i s) i
    \<and> (\<forall>i' < s_procs s. i' \<noteq> i \<longrightarrow> slot_history (c i') (age_slot i s) (f @ age_slot_rows i s) i')"
proof -
  have inv: "sim_inv s" and i: "i < 20"
    using assms(1,2) run_inv_lengths(3) [OF assms(1)] by (simp_all add: run_inv_def)
  have rows: "column i' k (age_slot_rows i s) =
      (case s_processes s ! i of Some j \<Rightarrow> if i' = i then age_page_rows s i (s_queue s ! j) k else [] | None \<Rightarrow> [])"
    if "k < 20" for i' k by (rule column_age_slot [OF assms(1) i that])
  show ?thesis
  proof (cases "s_processes s ! i")
    case None
    then have "age_slot i s = s" using inv i by (simp add: age_slot_def active_at_Some)
    moreover have "slot_page s i k = -101" for k using None by (simp add: slot_page_def)
    moreover have "shows_page (c + 1) r (-101)" if "shows_page c r (-101)" for c r
      using that by (auto simp: shows_page_def split: mark.splits)
    ultimately show ?thesis using assms(3,4) None rows by (auto simp: slot_history_def page_history_def)
  next
    case (Some j)
    note slot = sim_inv_slot [OF inv i Some]
    let ?q = "s_queue s ! j"
    have aged: "age_slot i s = put_process j (s_pagesavail s + frames ?q - frames (aged ?q)) (aged ?q) s"
      by (rule age_slot_loaded [OF inv i Some])
    have own: "slot_page s i k = p_pages ?q ! k \<and> slot_page (age_slot i s) i k = age (p_pages ?q ! k)" if "k < 20" for k
      using Some slot(2,5) that by (simp add: slot_page_def aged aged_def wf_process_def)
    have other: "slot_page (age_slot i s) i' k = slot_page s i' k" if "i' < s_procs s" "i' \<noteq> i" for i' k
      using slot_page_other [OF assms(1,2) Some that] by (simp add: aged)
    have "page_history (s_sysclock s) (s_sysclock s + 1) (age (p_pages ?q ! k)) (column i k f @ age_page_rows s i ?q k)"
      if k: "k < 20" for k
    proof (rule history_age)
      have "page_history (s_sysclock s) (s_sysclock s) (slot_page s i k) (column i k f)"
        using assms(3) k by (simp add: slot_history_def)
      then show "page_history (s_sysclock s) (s_sysclock s) (p_pages ?q ! k) (column i k f)" using own [OF k] by simp
    qed simp
    then have "slot_history (s_sysclock s + 1) (age_slot i s) (f @ age_slot_rows i s) i"
      using own rows Some by (simp add: slot_history_def)
    moreover have "slot_history (c i') (age_slot i s) (f @ age_slot_rows i s) i'" if "i' < s_procs s" "i' \<noteq> i" for i'
    proof (rule slot_history_cong)
      show "slot_history (c i') s f i'" using assms(4) that by blast
      show "slot_page (age_slot i s) i' k = slot_page s i' k \<and> column i' k (f @ age_slot_rows i s) = column i' k f"
        if "k < 20" for k
        using other \<open>i' < s_procs s\<close> \<open>i' \<noteq> i\<close> rows [OF that, of i'] Some by simp
    qed simp
    ultimately show ?thesis by blast
  qed
qed

lemma allage_history:
  assumes "run_inv s" and "history (s_sysclock s) s f" and "n \<le> s_procs s"
  shows "case fold age_slot_file [0..<n] (s, f) of (s', f') \<Rightarrow>
    run_inv s' \<and> s_procs s' = s_procs s \<and> s_sysclock s' = s_sysclock s
    \<and> (\<forall>i < s_procs s. slot_history (if i < n then s_sysclock s + 1 else s_sysclock s) s' f' i)"
  using assms(3)
proof (induction n)
  case 0
  then show ?case using assms by (simp add: history_def)
next
  case (Suc n)
  obtain s' f' where c: "fold age_slot_file [0..<n] (s, f) = (s', f')" by (cases "fold age_slot_file [0..<n] (s, f)")
  let ?c = "\<lambda>n i. if i < n then s_sysclock s + 1 else s_sysclock s"
  from Suc c have I: "run_inv s'" "s_procs s' = s_procs s" "s_sysclock s' = s_sysclock s"
    "\<forall>i < s_procs s. slot_history (?c n i) s' f' i" by simp_all
  have n: "n < s_procs s'" using Suc.prems I(2) by simp
  then have "slot_history (?c n n) s' f' n" using I(2,4) by auto
  then have own: "slot_history (s_sysclock s') s' f' n" using I(3) by simp
  have "\<forall>i < s_procs s'. i \<noteq> n \<longrightarrow> slot_history (?c (Suc n) i) s' f' i" using I by (auto simp: less_Suc_eq)
  then have "slot_history (s_sysclock s' + 1) (age_slot n s') (f' @ age_slot_rows n s') n
    \<and> (\<forall>i < s_procs s'. i \<noteq> n \<longrightarrow> slot_history (?c (Suc n) i) (age_slot n s') (f' @ age_slot_rows n s') i)"
    using age_slot_history [OF I(1) n own, of "?c (Suc n)"] by blast
  then have "slot_history (?c (Suc n) i) (age_slot n s') (f' @ age_slot_rows n s') i" if "i < s_procs s" for i
    using I that by (cases "i = n") auto
  moreover have "run_inv (age_slot n s')" using run_inv_age_slot [OF I(1)] n run_inv_lengths(3) [OF I(1)] by simp
  moreover have "fold age_slot_file [0..<Suc n] (s, f) = (age_slot n s', f' @ age_slot_rows n s')"
    using c by (simp add: age_slot_file_def)
  ultimately show ?case using I(2,3) by simp
qed

lemma history_write:
  assumes "run_inv s" and "history c s f" and "i < s_procs s" and "s_processes s ! i = Some j" and "k < MAXPROCPAGES"
    and "s' = put_process j a ((s_queue s ! j)\<lparr>p_pages := (p_pages (s_queue s ! j))[k := v]\<rparr>) (s\<lparr>s_pageouts := ps\<rparr>)"
    and "page_history (s_sysclock s) c v (column i k f @ [page_row s (int i) (int k) q m])"
  shows "history c s' (f @ [page_row s (int i) (int k) q m])"
proof -
  note slot = run_inv_slot [OF assms(1,3,4)]
  have pages: "slot_page s' i' k' = (if i' = i \<and> k' = k then v else slot_page s i' k')"
    if "i' < s_procs s" "k' < 20" for i' k'
  proof (cases "i' = i")
    case True
    then show ?thesis using slot(3,6) assms(4,5) that by (simp add: assms(6) slot_page_def wf_process_def nth_list_update)
  next
    case False
    let ?q = "(s_queue s ! j)\<lparr>p_pages := (p_pages (s_queue s ! j))[k := v]\<rparr>"
    have "slot_page s' i' k' = slot_page (put_process j a ?q s) i' k'"
      by (simp add: assms(6) slot_page_def put_process_def split: option.split)
    then show ?thesis using slot_page_other [OF assms(1,3,4) that(1) False] False by simp
  qed
  have "s_sysclock s' = s_sysclock s" "s_procs s' = s_procs s" by (simp_all add: assms(6))
  then show ?thesis
    using assms(2,7) pages by (auto simp: history_def slot_history_def column_single)
qed

lemma history_pagein:
  assumes "run_inv s" and "history (s_sysclock s + 1) s f"
  shows "history (s_sysclock s + 1) (snd (pagein i p s)) (f @ pagein_rows i p s)"
proof (cases "pagein_rows i p s = []")
  case True
  then have "snd (pagein i p s) = s"
    by (auto simp: pagein_rows_def pagein_def Let_def split: option.splits if_splits)
  then show ?thesis using True assms(2) by simp
next
  case False
  then obtain j where i: "0 \<le> i" "i < int (s_procs s)" "active_at s (nat i) = Some j"
    "0 \<le> p" "p < p_npages (s_queue s ! j)" "p_pages (s_queue s ! j) ! nat p < -100"
    and rows: "pagein_rows i p s = [page_row s i p (s_queue s ! j) Coming_Mark]"
    and s': "snd (pagein i p s) = put_process j (s_pagesavail s - 1)
      ((s_queue s ! j)\<lparr>p_pages := (p_pages (s_queue s ! j))[nat p := 100]\<rparr>) s"
    by (auto simp: pagein_rows_def pagein_def Let_def split: option.splits if_splits)
  have Some: "s_processes s ! nat i = Some j" using i(3) by (auto simp: active_at_def split: option.splits if_splits)
  have n: "nat i < s_procs s" "nat p < 20"
    using i run_inv_slot(3) [OF assms(1) _ Some] by (auto simp: wf_process_def)
  have "page_history (s_sysclock s) (s_sysclock s + 1) (slot_page s (nat i) (nat p)) (column (nat i) (nat p) f)"
    using assms(2) n by (simp add: history_def slot_history_def)
  then have "page_history (s_sysclock s) (s_sysclock s + 1) 100
      (column (nat i) (nat p) f @ [page_row s (int (nat i)) (int (nat p)) (s_queue s ! j) Coming_Mark])"
    by (rule history_coming) (use Some i(6) in \<open>simp_all add: slot_page_def\<close>)
  from history_write [OF assms(1,2) n(1) Some n(2) _ this, of "snd (pagein i p s)" "s_pagesavail s - 1" "s_pageouts s"]
  show ?thesis using i rows by (simp add: s')
qed

lemma history_pageout:
  assumes "run_inv s" and "history (s_sysclock s + 1) s f"
  shows "history (s_sysclock s + 1) (snd (pageout i p s)) (f @ pageout_rows i p s)"
proof (cases "pageout_rows i p s = []")
  case True
  then have "snd (pageout i p s) = s"
    by (auto simp: pageout_rows_def pageout_def Let_def split: option.splits if_splits)
  then show ?thesis using True assms(2) by simp
next
  case False
  then obtain j where i: "0 \<le> i" "i < int (s_procs s)" "active_at s (nat i) = Some j"
    "0 \<le> p" "p < p_npages (s_queue s ! j)" "p_pages (s_queue s ! j) ! nat p = 0"
    and rows: "pageout_rows i p s = [page_row s i p (s_queue s ! j) Going_Mark]"
    and s': "snd (pageout i p s) = put_process j (s_pagesavail s)
      ((s_queue s ! j)\<lparr>p_pages := (p_pages (s_queue s ! j))[nat p := -1]\<rparr>)
      (s\<lparr>s_pageouts := (s_pageouts s)[nat i := 1]\<rparr>)"
    by (auto simp: pageout_rows_def pageout_def Let_def split: option.splits if_splits)
  have Some: "s_processes s ! nat i = Some j" using i(3) by (auto simp: active_at_def split: option.splits if_splits)
  have n: "nat i < s_procs s" "nat p < 20"
    using i run_inv_slot(3) [OF assms(1) _ Some] by (auto simp: wf_process_def)
  have "page_history (s_sysclock s) (s_sysclock s + 1) (slot_page s (nat i) (nat p)) (column (nat i) (nat p) f)"
    using assms(2) n by (simp add: history_def slot_history_def)
  then have "page_history (s_sysclock s) (s_sysclock s + 1) (-1)
      (column (nat i) (nat p) f @ [page_row s (int (nat i)) (int (nat p)) (s_queue s ! j) Going_Mark])"
    by (intro history_going) (use Some i(6) in \<open>simp_all add: slot_page_def\<close>)
  from history_write [OF assms(1,2) n(1) Some n(2) _ this, of "snd (pageout i p s)" "s_pagesavail s" "(s_pageouts s)[nat i := 1]"]
  show ?thesis using i rows by (simp add: s')
qed

lemma history_call:
  assumes "call_file (s, f) (s', f')" and "run_inv s" and "history (s_sysclock s + 1) s f"
  shows "paging_call s s' \<and> history (s_sysclock s + 1) s' f'"
  using assms(1)
  by (cases rule: call_file.cases)
    (use assms(2,3) in \<open>auto intro: history_pagein history_pageout paging_call.intros\<close>)

lemma history_calls:
  assumes "call_file\<^sup>*\<^sup>* (s, f) (s', f')" and "run_inv s" and "history (s_sysclock s + 1) s f"
  shows "paging_call\<^sup>*\<^sup>* s s' \<and> run_inv s' \<and> s_sysclock s' = s_sysclock s \<and> s_procs s' = s_procs s
    \<and> history (s_sysclock s + 1) s' f'"
  using assms(1)
proof (induction "(s', f')" arbitrary: s' f' rule: rtranclp_induct)
  case base
  then show ?case using assms by simp
next
  case (step y)
  obtain s1 f1 where y: "y = (s1, f1)" by (cases y)
  from step.hyps(3) [OF y] have I: "paging_call\<^sup>*\<^sup>* s s1" "run_inv s1" "s_sysclock s1 = s_sysclock s" "s_procs s1 = s_procs s"
    "history (s_sysclock s + 1) s1 f1" by simp_all
  have call: "paging_call s1 s'" "history (s_sysclock s + 1) s' f'"
    using history_call [of s1 f1 s' f'] step.hyps(2) y I by simp_all
  then have "run_inv s'" "s_sysclock s' = s_sysclock s" "s_procs s' = s_procs s"
    using run_inv_paging_call [OF call(1) I(2)] work_paging_call [OF I(2) call(1)] paging_call_table [OF call(1)] I
    by (simp_all add: same_table_def)
  then show ?case using call I(1) by (meson rtranclp.rtrancl_into_rtrancl)
qed

lemma history_clock: "history c s f \<Longrightarrow> c = s_sysclock s + 1 \<Longrightarrow> history c (s\<lparr>s_sysclock := s_sysclock s + 1\<rparr>) f"
  unfolding history_def slot_history_def by (auto intro: page_history_later)

lemma tick_history:
  assumes "tick_file (s, f) (s', f')" and "run_inv s" and "history (s_sysclock s) s f"
  shows "run_inv s' \<and> s_procs s' = s_procs s \<and> history (s_sysclock s') s' f'"
  using assms(1)
proof (cases rule: tick_file.cases)
  case (file_tick s1 f1 s2 f2 s3)
  have s1: "run_inv s1" "s_procs s1 = s_procs s" "s_sysclock s1 = s_sysclock s" "history (s_sysclock s) s1 f1"
    using allstep_history [OF assms(2,3)] file_tick(2) by simp_all
  have s2: "run_inv s2" "s_procs s2 = s_procs s" "s_sysclock s2 = s_sysclock s" "history (s_sysclock s + 1) s2 f2"
    using allage_history [of s1 f1 "s_procs s1"] s1 file_tick(3) by (simp_all add: history_def)
  let ?s2 = "s2\<lparr>s_pageouts := replicate MAXPROCESSES 0\<rparr>"
  have "history (s_sysclock ?s2 + 1) ?s2 f2" using s2 by (simp add: history_def slot_history_def)
  from history_calls [OF file_tick(4) run_inv_pageouts [OF s2(1)] this]
  have s3: "run_inv s3" "s_sysclock s3 = s_sysclock s" "s_procs s3 = s_procs s" "history (s_sysclock s3 + 1) s3 f'"
    using s2(2,3) by simp_all
  show ?thesis
    unfolding file_tick(1) using s3(1,3) history_clock [OF s3(4) refl] by (simp add: run_inv_sysclock)
qed

lemma start_history:
  assumes "procs \<le> MAXPROCESSES" and "allinit (static_sim procs seed) = Inr s"
  shows "run_inv s \<and> s_procs s = procs \<and> history (s_sysclock s) s (allinit_rows s)"
proof -
  have s: "run_inv s" "started procs s" using allinit_started [OF assms(1), of seed] assms(2) by simp_all
  have slot: "s_processes s ! i = Some i" "job_fresh i (s_queue s ! i)" if "i < procs" for i
    using s(2) that assms(1) by (auto simp: started_def nth_append queue_loaded_def)
  have col: "column i k (allinit_rows s) = [page_row s (int i) (int k) (s_queue s ! i) Out_Mark]" if i: "i < procs" and k: "k < 20" for i k
  proof -
    have "column i k (concat (map (\<lambda>i. case s_processes s ! i of None \<Rightarrow> [] | Some j \<Rightarrow> all_out_rows i s (s_queue s ! j)) [0..<n])) =
        (if i < n then [page_row s (int i) (int k) (s_queue s ! i) Out_Mark] else [])" if "n \<le> procs" for n
      using that
    proof (induction n)
      case (Suc n)
      then show ?case using slot(1) [of n] k by (auto simp: column_all_out less_Suc_eq)
    qed simp
    then show ?thesis using i s(2) by (simp add: allinit_rows_def started_def)
  qed
  have "slot_page s i k = -101" if "i < procs" "k < 20" for i k
    using slot that by (simp add: slot_page_def job_fresh_def fresh_pages_def)
  then show ?thesis
    using s col by (simp add: history_def slot_history_def started_def page_history_def shows_page_def page_row_def)
qed

lemma file_run_history:
  assumes "file_run procs seed c" and "procs \<le> MAXPROCESSES"
  shows "case c of (s, f) \<Rightarrow> run_inv s \<and> s_procs s = procs \<and> history (s_sysclock s) s f"
  using assms(1)
proof (induction rule: file_run.induct)
  case (file_init s)
  then show ?case using start_history [OF assms(2)] by simp
next
  case (file_next c c')
  then show ?case using tick_history [of "fst c" "snd c" "fst c'" "snd c'"] by (cases c; cases c') simp
qed


subsection \<open>Simulations write such files\<close>

lemma steps_with_file:
  "foldR step_slot is s = Inr s' \<Longrightarrow> \<exists>f'. foldR step_slot_file is (s, f) = Inr (s', f')"
proof (induction "is" arbitrary: s f)
  case (Cons i "is")
  then obtain s1 where "step_slot i s = Inr s1" "foldR step_slot is s1 = Inr s'" by (auto simp: bindR_eq_Inr)
  then show ?case using Cons.IH [of s1 "f @ step_slot_rows i s"] by (simp add: step_slot_file_def)
qed simp

lemma ages_with_file: "\<exists>f'. fold age_slot_file is (s, f) = (fold age_slot is s, f')"
  by (induction "is" arbitrary: s f) (simp_all add: age_slot_file_def)

lemma calls_with_file: "paging_call\<^sup>*\<^sup>* s s' \<Longrightarrow> \<exists>f'. call_file\<^sup>*\<^sup>* (s, f) (s', f')"
proof (induction rule: rtranclp_induct)
  case (step s1 s2)
  then obtain f1 where f1: "call_file\<^sup>*\<^sup>* (s, f) (s1, f1)" by blast
  moreover have "\<exists>f2. call_file (s1, f1) (s2, f2)"
    using step.hyps(2) by (auto elim!: paging_callE intro: file_pagein file_pageout)
  ultimately show ?case by (meson rtranclp.rtrancl_into_rtrancl)
qed blast

context pager begin

lemma sim_tick_file:
  assumes "run_inv s" and "ok m" and "sim_tick pageit (m, s) = Inr (m', s')"
  shows "\<exists>f'. tick_file (s, f) (s', f')"
proof -
  obtain s1 where s1: "allstep s = Inr s1" "run_inv s1" using allstep_inv [OF assms(1)] by (auto simp: okR_iff)
  let ?s2 = "(allage s1)\<lparr>s_pageouts := replicate MAXPROCESSES 0\<rparr>"
  have s2: "run_inv (allage s1)" "run_inv ?s2" using run_inv_allage [OF s1(2)] run_inv_pageouts by auto
  obtain m3 s3 where s3: "pageit (entries_of ?s2) m ?s2 = Inr (m3, s3)" "paging_call\<^sup>*\<^sup>* ?s2 s3"
    using pageit_calls [OF s2(2) assms(2)] by (auto simp: okR_iff)
  have s': "s' = s3\<lparr>s_sysclock := s_sysclock s3 + 1\<rparr>"
    using assms(3) s1(1) s3(1) by (auto simp: sim_tick_def callyou_def snapshot_spec [OF s2(1)] Let_def bindR_eq_Inr)
  obtain f1 where "foldR step_slot_file [0..<s_procs s] (s, f) = Inr (s1, f1)"
    using steps_with_file s1(1) unfolding allstep_def by blast
  moreover obtain f2 where "fold age_slot_file [0..<s_procs s1] (s1, f1) = (allage s1, f2)"
    using ages_with_file unfolding allage_def by blast
  moreover obtain f3 where "call_file\<^sup>*\<^sup>* (?s2, f2) (s3, f3)" using calls_with_file s3(2) by blast
  ultimately show ?thesis unfolding s' by (blast intro: file_tick)
qed

lemma run_loop_file:
  assumes "file_run procs seed (s, f)" and "procs \<le> MAXPROCESSES" and "ok m" and "run_loop pageit n (m, s) = Inr (m', s')"
  shows "\<exists>f'. file_run procs seed (s', f')"
  using assms(1,3,4)
proof (induction n arbitrary: m s f)
  case (Suc n)
  show ?case
  proof (cases "alldone s")
    case False
    have s: "run_inv s" using file_run_history [OF Suc.prems(1) assms(2)] by simp
    obtain m1 s1 where t: "sim_tick pageit (m, s) = Inr (m1, s1)" "ok m1"
      using sim_tick_inv [OF s Suc.prems(2)] by (auto simp: okR_iff)
    obtain f1 where "tick_file (s, f) (s1, f1)" using sim_tick_file [OF s Suc.prems(2) t(1)] by blast
    then have "file_run procs seed (s1, f1)" by (rule file_next [OF Suc.prems(1)])
    then show ?thesis using Suc.IH t Suc.prems(3) False by simp
  qed (use Suc.prems in auto)
qed auto

lemma simulate_file:
  assumes "procs \<le> MAXPROCESSES" and "ok m" and "simulate pageit m procs seed n = Inr (m', s')"
  shows "\<exists>f. file_run procs seed (s', f)"
proof -
  obtain s where "allinit (static_sim procs seed) = Inr s" "run_loop pageit n (m, s) = Inr (m', s')"
    using assms(3) by (auto simp: simulate_def bindR_eq_Inr)
  then show ?thesis using run_loop_file [OF file_init assms(1,2)] by blast
qed

end

text \<open>C10: The rows of a page tell its life: the first row is \<open>out\<close>; \<open>coming\<close> only follows \<open>out\<close>, \<open>going\<close> only
  follows \<open>in\<close>, and \<open>in\<close> follows \<open>coming\<close> exactly 100 ticks later; a \<open>going\<close> page is out at most 100 ticks later;
  the clock never goes back. And the last row is the state of the page at any tick, with the wait that is left.\<close>

theorem pages_file_tells_history:
  assumes "file_run procs seed (s, f)" and "procs \<le> MAXPROCESSES" and "i < procs" and "k < MAXPROCPAGES"
  shows "column i k f \<noteq> [] \<and> r_mark (hd (column i k f)) = Out_Mark \<and> successively follows (column i k f)
    \<and> abs_page (slot_page s i k) = stands_for (s_sysclock s) (last (column i k f))"
  using file_run_history [OF assms(1,2)] assms(3,4)
  by (auto simp: history_def slot_history_def page_history_def shows_page_abs)

theorem pages_file_tells_history_witness:
  "\<exists>s f. simulate basic_pageit () 4 512 300 = Inr ((), s) \<and> file_run 4 512 (s, f)
    \<and> abs_page (slot_page s 0 0) = stands_for (s_sysclock s) (last (column 0 0 f)) \<and> successively follows (column 0 0 f)"
proof -
  obtain s where s: "simulate basic_pageit () 4 512 300 = Inr ((), s)"
    using basic.simulate_inv [of 4 "()" 512 300] by (auto simp: okR_iff)
  then obtain f where f: "file_run 4 512 (s, f)" using basic.simulate_file by fastforce
  then show ?thesis using pages_file_tells_history [of 4 512 s f 0 0] s by auto
qed
end
