(* ===== verification/Job_Progress.thy ===== *)
theory Job_Progress
  imports Process
begin

text \<open>
  The programs of \<open>programs.c\<close> come to an end: \<open>job_rank\<close> falls, in lexicographic order, with every step
  that a job makes on a page in memory, whatever trip counts and decisions were drawn for its
  branches. The rank counts the decisions still to come before the loops of the program fall through.
\<close>

subsection \<open>How long a context gives the same decision\<close>

text \<open>The number of decisions of a context before the first one that is \<open>v\<close>.\<close>

definition until :: "int \<Rightarrow> bcontext \<Rightarrow> nat" where
  "until v c = (if c_bvalue c = v then 0 else nat (max 1 (c_brings c ! nat (c_boffset c) - c_bcount c)))"

lemma until_decide:
  assumes "wf_bcontext c" and "bcontext_decide c = Inr (d, c')" and "v \<in> {0, 1}"
  shows "d \<in> {0, 1}" and "d \<noteq> v \<Longrightarrow> until v c' < until v c" and "d = v \<Longrightarrow> until v c = 0"
proof -
  have c: "c_bvalue c \<in> {0, 1}" "c_bsize c \<noteq> 0" using assms(1) by (auto simp: wf_bcontext_def)
  have flip: "c_not (c_bvalue c) = v" if "c_bvalue c \<noteq> v" using that assms(3) c(1) by (auto simp: c_not_def)
  show "d \<in> {0, 1}" "d \<noteq> v \<Longrightarrow> until v c' < until v c" "d = v \<Longrightarrow> until v c = 0"
    using assms(1,2) c flip
    by (auto simp: bcontext_decide_def wf_bcontext_def until_def Let_def split: if_splits)
qed

subsection \<open>The rank of a job\<close>

definition exit_address :: "nat \<Rightarrow> int" where
  "exit_address k = g_exits (programs ! k) ! 0"

definition job_rank :: "process \<Rightarrow> nat \<times> nat \<times> nat" where
  "job_rank q =
     (let c = (\<lambda>i. p_bcontexts q ! i); pc = p_pc q; k = the (p_program q); d = nat (exit_address k - pc) in
      if k = 0 then (if pc \<le> 1533 then until 0 (c 2) else 0, 0, d)
      else if k = 1 then (if pc \<le> 1129 then until 0 (c 0) else 0, 0, d)
      else if k = 2 then (if pc \<le> 1683 then until 0 (c 1) else 0, if pc \<le> 1682 then until 0 (c 0) else 0, d)
      else if k = 3 then (if pc \<le> 0 then until 0 (c 0) else 0, 0, d)
      else (if pc \<le> 503 then until 0 (c 3) else 0,
            if pc \<le> 500 then 2 * until 1 (c 0) else if pc \<le> 501 then 2 * until 1 (c 0) + 1 else 0, d))"

definition rank_less :: "((nat \<times> nat \<times> nat) \<times> (nat \<times> nat \<times> nat)) set" where
  "rank_less = less_than <*lex*> less_than <*lex*> less_than"

lemma wf_rank_less: "wf rank_less"
  by (simp add: rank_less_def wf_lex_prod)

lemma rank_lessI:
  "a < a' \<Longrightarrow> ((a, b, d), a', b', d') \<in> rank_less"
  "a \<le> a' \<Longrightarrow> b < b' \<Longrightarrow> ((a, b, d), a', b', d') \<in> rank_less"
  "a \<le> a' \<Longrightarrow> b \<le> b' \<Longrightarrow> d < d' \<Longrightarrow> ((a, b, d), a', b', d') \<in> rank_less"
  by (auto simp: rank_less_def)

text \<open>A job on its way: at an address up to the exit of its program.\<close>

definition on_track :: "process \<Rightarrow> bool" where
  "on_track q \<longleftrightarrow> (\<exists>k < 5. p_program q = Some k \<and> 0 \<le> p_pc q \<and> p_pc q \<le> exit_address k)"

subsection \<open>The branches of the five programs\<close>

lemma exit_address_table:
  "exit_address 0 = 1534" "exit_address (Suc 0) = 1130" "exit_address 2 = 1684" "exit_address 3 = 1911" "exit_address 4 = 504"
  by (simp_all add: exit_address_def programs_eval numeral_eq_Suc)

lemma branch_taken_table:
  "branch_taken (programs ! 0) pc = (if pc = 500 then Some 0 else if pc = 1401 then Some 1 else if pc = 1533 then Some 2 else None)"
  "branch_taken (programs ! Suc 0) pc = (if pc = 1129 then Some 0 else None)"
  "branch_taken (programs ! 2) pc = (if pc = 1682 then Some 0 else if pc = 1683 then Some 1 else None)"
  "branch_taken (programs ! 3) pc = (if pc = 0 then Some 0 else None)"
  "branch_taken (programs ! 4) pc = (if pc = 500 then Some 0 else if pc = 501 then Some 1 else if pc = 502 then Some 2
     else if pc = 503 then Some 3 else None)"
  by (auto simp: branch_taken_def branch_index_def programs_eval upt_conv_Cons numeral_eq_Suc)

lemma exits_table: "k < 5 \<Longrightarrow> set (take (nat (g_nexits (programs ! k))) (g_exits (programs ! k))) = {exit_address k}"
  by (auto simp: exit_address_def programs_eval numeral_eq_Suc less_Suc_eq)

lemma size_table: "k < 5 \<Longrightarrow> exit_address k + 1 = g_size (programs ! k)"
  by (auto simp: exit_address_def programs_eval numeral_eq_Suc less_Suc_eq)

lemma target_table:
  "b_whereto (g_branches (programs ! 0) ! 0) = 1402" "b_whereto (g_branches (programs ! 0) ! Suc 0) = 1533"
  "b_whereto (g_branches (programs ! 0) ! 2) = 0" "b_whereto (g_branches (programs ! Suc 0) ! 0) = 0"
  "b_whereto (g_branches (programs ! 2) ! 0) = 1166" "b_whereto (g_branches (programs ! 2) ! Suc 0) = 0"
  "b_whereto (g_branches (programs ! 3) ! 0) = 0" "b_whereto (g_branches (programs ! 4) ! 0) = 503"
  "b_whereto (g_branches (programs ! 4) ! Suc 0) = 0" "b_whereto (g_branches (programs ! 4) ! 2) = 503"
  "b_whereto (g_branches (programs ! 4) ! 3) = 0"
  by (simp_all add: programs_eval numeral_eq_Suc)

lemma wrap_inside: "k < 5 \<Longrightarrow> 0 \<le> pc \<Longrightarrow> pc \<le> exit_address k \<Longrightarrow> wrap_branch (programs ! k) pc = pc"
  using size_table [of k] by (auto simp: wrap_branch_def)

subsection \<open>Every step makes progress\<close>

text \<open>A step of a job that is not at its exit: the next address, or a decision.\<close>

lemma job_moves:
  assumes "wf_process programs q" and "p_active q" and "p_pages q ! cur_page q = 0"
    and "p_program q = Some k" and "k < 5" and "0 \<le> p_pc q" and "p_pc q < exit_address k"
  obtains q' where "process_step programs q = Inr (True, q')" and "p_program q' = Some k"
    and "branch_taken (programs ! k) (p_pc q) = None \<Longrightarrow> p_pc q' = p_pc q + 1 \<and> p_bcontexts q' = p_bcontexts q"
    and "\<And>j. branch_taken (programs ! k) (p_pc q) = Some j \<Longrightarrow> \<exists>d c'.
      wf_bcontext (p_bcontexts q ! nat j) \<and> bcontext_decide (p_bcontexts q ! nat j) = Inr (d, c')
      \<and> p_bcontexts q' = (p_bcontexts q)[nat j := c'] \<and> nat j < length (p_bcontexts q)
      \<and> p_pc q' = wrap_branch (programs ! k) (if d \<noteq> 0 then b_whereto (g_branches (programs ! k) ! nat j) else p_pc q + 1)"
proof -
  let ?g = "programs ! k"
  have g: "wf_program ?g" using wf_programs_programs assms(5) by (simp add: wf_programs_def programs_def)
  have cs: "length (p_bcontexts q) = 40" "list_all wf_bcontext (p_bcontexts q)"
    using assms(1) by (simp_all add: wf_process_def)
  have run: "process_step programs q = (case branch_taken ?g (p_pc q) of
        Some j \<Rightarrow> process_dobranch ?g (ticked q) j
      | None \<Rightarrow> Inr (True, (ticked q)\<lparr>p_pc := wrap_step ?g (p_pc q + 1)\<rparr>))"
    using process_step_running [OF wf_programs_programs assms(1-4) refl] exits_table [OF assms(5)] assms(7) by simp
  show ?thesis
  proof (cases "branch_taken ?g (p_pc q)")
    case None
    show ?thesis
      by (rule that [of "(ticked q)\<lparr>p_pc := p_pc q + 1\<rparr>"])
        (use None run assms(4,6,7) size_table [OF assms(5)] in \<open>simp_all add: wrap_step_def\<close>)
  next
    case (Some j)
    have j: "nat j < 40" using branch_taken_range [OF g Some] by (simp add: nat_less_iff)
    obtain d :: int and c' where d: "bcontext_decide (p_bcontexts q ! nat j) = Inr (d, c')"
      "process_dobranch ?g (ticked q) j = Inr (True, (ticked q)\<lparr>p_bcontexts := (p_bcontexts q)[nat j := c'],
        p_pc := wrap_branch ?g (if d \<noteq> 0 then b_whereto (g_branches ?g ! nat j) else p_pc q + 1)\<rparr>)"
      using process_dobranch_spec [OF g Some, of "ticked q"] cs by auto
    show ?thesis
      by (rule that [of "(ticked q)\<lparr>p_bcontexts := (p_bcontexts q)[nat j := c'],
          p_pc := wrap_branch ?g (if d \<noteq> 0 then b_whereto (g_branches ?g ! nat j) else p_pc q + 1)\<rparr>"])
        (use run Some d assms(4) cs j in \<open>simp_all add: list_all_length\<close>)
  qed
qed

lemmas rank_tables = job_rank_def on_track_def branch_taken_table exit_address_table target_table Let_def

text \<open>The five programs one by one: a step at an address without a branch, a branch taken, a branch passed.\<close>

lemma rank_progress:
  assumes "wf_process programs q" and "p_active q" and "p_pages q ! cur_page q = 0"
    and "on_track q" and "p_program q = Some k" and "p_pc q \<noteq> exit_address k"
  shows "\<exists>q'. process_step programs q = Inr (True, q') \<and> on_track q' \<and> (job_rank q', job_rank q) \<in> rank_less"
proof -
  have k: "k < 5" "0 \<le> p_pc q" "p_pc q < exit_address k" using assms(4-6) by (auto simp: on_track_def)
  obtain q' where q': "process_step programs q = Inr (True, q')" "p_program q' = Some k"
    and straight: "branch_taken (programs ! k) (p_pc q) = None \<Longrightarrow> p_pc q' = p_pc q + 1 \<and> p_bcontexts q' = p_bcontexts q"
    and branch: "\<And>j. branch_taken (programs ! k) (p_pc q) = Some j \<Longrightarrow> \<exists>d c'.
      wf_bcontext (p_bcontexts q ! nat j) \<and> bcontext_decide (p_bcontexts q ! nat j) = Inr (d, c')
      \<and> p_bcontexts q' = (p_bcontexts q)[nat j := c'] \<and> nat j < length (p_bcontexts q)
      \<and> p_pc q' = wrap_branch (programs ! k) (if d \<noteq> 0 then b_whereto (g_branches (programs ! k) ! nat j) else p_pc q + 1)"
    using job_moves [OF assms(1-3,5) k] by metis
  have "on_track q' \<and> (job_rank q', job_rank q) \<in> rank_less"
  proof (cases "branch_taken (programs ! k) (p_pc q)")
    case None
    note s = straight [OF None]
    have t: "on_track q'" using s q'(2) k by (auto simp: on_track_def)
    from k(1) consider "k = 0" | "k = 1" | "k = 2" | "k = 3" | "k = 4" by linarith
    then have "(job_rank q', job_rank q) \<in> rank_less"
      by cases (use None s q'(2) assms(5) k in
        \<open>auto simp: rank_tables split: if_splits intro!: rank_lessI(3)\<close>)
    with t show ?thesis ..
  next
    case (Some j)
    then obtain d c' where d: "wf_bcontext (p_bcontexts q ! nat j)" "bcontext_decide (p_bcontexts q ! nat j) = Inr (d, c')"
      "p_bcontexts q' = (p_bcontexts q)[nat j := c']" "nat j < length (p_bcontexts q)"
      "p_pc q' = wrap_branch (programs ! k) (if d \<noteq> 0 then b_whereto (g_branches (programs ! k) ! nat j) else p_pc q + 1)"
      using branch by blast
    have bit: "d = 0 \<or> d = 1" using until_decide(1) [OF d(1,2), of 0] by simp
    have zero: "d \<noteq> 0 \<Longrightarrow> until 0 c' < until 0 (p_bcontexts q ! nat j)"
      and one: "d = 0 \<Longrightarrow> until 1 c' < until 1 (p_bcontexts q ! nat j)"
      using until_decide(2) [OF d(1,2)] by simp_all
    have out: "d = 0 \<Longrightarrow> until 0 (p_bcontexts q ! nat j) = 0" using until_decide(3) [OF d(1,2), of 0] by simp
    have near: "wrap_branch (programs ! k) (p_pc q + 1) = p_pc q + 1" using k by (intro wrap_inside) simp_all
    from k(1) consider "k = 0" | "k = 1" | "k = 2" | "k = 3" | "k = 4" by linarith
    then show ?thesis
      by cases (use Some d(3-5) zero one q'(2) assms(5) near wrap_inside [OF k(1)] bit k(2,3) in
        \<open>auto simp: rank_tables split: if_splits intro: rank_lessI\<close>)
  qed
  then show ?thesis using q'(1) by blast
qed

lemma at_exit:
  assumes "wf_process programs q" and "p_active q" and "p_pages q ! cur_page q = 0"
    and "on_track q" and "p_program q = Some k" and "p_pc q = exit_address k"
  shows "process_step programs q = Inr (False, ticked q)"
proof -
  have "k < 5" using assms(4,5) by (auto simp: on_track_def)
  then show ?thesis using process_step_running [OF wf_programs_programs assms(1-3,5) refl] exits_table assms(6) by simp
qed

lemma fresh_on_track: "p_program q = Some k \<Longrightarrow> k < 5 \<Longrightarrow> p_pc q = 0 \<Longrightarrow> on_track q"
proof -
  assume q: "p_program q = Some k" "k < 5" "p_pc q = 0"
  from q(2) consider "k = 0" | "k = 1" | "k = 2" | "k = 3" | "k = 4" by linarith
  then show ?thesis by cases (use q in \<open>auto simp: on_track_def exit_address_table\<close>)
qed

subsection \<open>Properties\<close>

text \<open>One step of a job that goes on.\<close>

definition job_runs :: "process \<Rightarrow> process \<Rightarrow> bool" where
  "job_runs q q' \<longleftrightarrow> process_step programs q = Inr (True, q')"

text \<open>C17: Each of the five programs terminates: a job whose pages are all in memory reaches the exit of
  its program after finitely many steps, whatever its branch contexts hold, and its next step exits.\<close>

theorem every_program_exits:
  assumes "wf_process programs q" and "p_active q" and "\<forall>i < MAXPROCPAGES. p_pages q ! i = 0" and "on_track q"
  shows "\<exists>q'. job_runs\<^sup>*\<^sup>* q q' \<and> p_pc q' = exit_address (the (p_program q)) \<and> process_step programs q' = Inr (False, ticked q')"
  using assms
proof (induction "job_rank q" arbitrary: q rule: wf_induct_rule [OF wf_rank_less])
  case (1 q)
  obtain k where k: "p_program q = Some k" using "1.prems"(4) by (auto simp: on_track_def)
  have res: "p_pages q ! cur_page q = 0"
    using "1.prems"(3) wf_process_page(2) [OF "1.prems"(1) wf_programs_programs] by simp
  show ?case
  proof (cases "p_pc q = exit_address k")
    case True
    then show ?thesis using at_exit [OF "1.prems"(1,2) res "1.prems"(4) k] k by (intro exI [of _ q]) simp
  next
    case False
    obtain q1 where q1: "process_step programs q = Inr (True, q1)" "on_track q1" "(job_rank q1, job_rank q) \<in> rank_less"
      using rank_progress [OF "1.prems"(1,2) res "1.prems"(4) k False] by blast
    have keep: "wf_process programs q1" "same_memory q q1"
      using process_step_wf [OF wf_programs_programs "1.prems"(1)] q1(1) by simp_all
    then obtain q' where "job_runs\<^sup>*\<^sup>* q1 q'" "p_pc q' = exit_address k" "process_step programs q' = Inr (False, ticked q')"
      using "1.hyps" [OF q1(3)] "1.prems"(2,3) q1(2) k by (auto simp: same_memory_def)
    then show ?thesis using q1(1) k by (metis converse_rtranclp_into_rtranclp job_runs_def option.sel)
  qed
qed

theorem every_program_exits_witness:
  "\<exists>q'. job_runs\<^sup>*\<^sup>* (resident_process 2 0) q' \<and> p_pc q' = 1684"
proof -
  have "wf_process programs (resident_process 2 0)" by (rule wf_resident_process) (simp_all add: programs_eval)
  moreover have "on_track (resident_process 2 0)" by (rule fresh_on_track [of _ 2]) (simp_all add: resident_process_def)
  ultimately show ?thesis
    using every_program_exits [of "resident_process 2 0"] by (auto simp: resident_process_def exit_address_table)
qed
end
