(* ===== verification/Basic_Liveness.thy ===== *)
theory Basic_Liveness
  imports Pager_Basic Job_Progress
begin

text \<open>
  A simulation with \<open>pager-basic\<close> ends. Since it runs one job at a time (\<open>serial\<close>), it is enough to
  follow the first loaded job: in each tick either a job leaves, or the rank of the first job falls, or its page
  comes nearer. The three together are a measure for the main loop.
\<close>

subsection \<open>What the loop still has to do\<close>

text \<open>The jobs that have not left: those in the queue and those in the table.\<close>

definition jobs_left :: "sim \<Rightarrow> nat" where
  "jobs_left s = (QUEUESIZE - s_queueend s) + length (filter (\<lambda>p. p \<noteq> None) (s_processes s))"

text \<open>How far a page is from being in memory, when pages never go out.\<close>

fun page_wait :: "page_state \<Rightarrow> nat" where
  "page_wait In = 0"
| "page_wait (Coming n) = n"
| "page_wait Out = 101"
| "page_wait (Going n) = 0"

definition cur_wait :: "process \<Rightarrow> nat" where
  "cur_wait q = page_wait (abs_page (p_pages q ! cur_page q))"

text \<open>The first loaded slot and its job.\<close>

definition first_job :: "sim \<Rightarrow> nat \<Rightarrow> nat \<Rightarrow> bool" where
  "first_job s i j \<longleftrightarrow> i < s_procs s \<and> s_processes s ! i = Some j \<and> (\<forall>i' < i. s_processes s ! i' = None)"

definition tracked :: "sim \<Rightarrow> bool" where
  "tracked s \<longleftrightarrow> (\<forall>j < QUEUESIZE. on_track (s_queue s ! j))"

lemma on_track_cong: "p_program q' = p_program q \<Longrightarrow> p_pc q' = p_pc q \<Longrightarrow> on_track q' = on_track q"
  by (simp add: on_track_def)

lemma first_job_exists:
  assumes "run_inv s" and "\<not> alldone s"
  shows "\<exists>i j. first_job s i j"
proof -
  have ex: "\<exists>i. i < s_procs s \<and> s_processes s ! i \<noteq> None" using assms alldone_iff by blast
  define i where "i = (LEAST i. i < s_procs s \<and> s_processes s ! i \<noteq> None)"
  have i: "i < s_procs s" "s_processes s ! i \<noteq> None" using LeastI_ex [OF ex] by (simp_all add: i_def)
  moreover have "s_processes s ! i' = None" if "i' < i" for i'
    using not_less_Least [OF that [unfolded i_def]] that i(1) by simp
  ultimately show ?thesis by (auto simp: first_job_def)
qed

subsection \<open>A step of the table\<close>

text \<open>The number of jobs left never grows, and an exit lowers it.\<close>

lemma loaded_update:
  "i < length xs \<Longrightarrow> length (filter P (xs[i := y])) + (if P (xs ! i) then 1 else 0)
    = length (filter P xs) + (if P y then 1 else 0)"
proof (induction xs arbitrary: i)
  case (Cons x xs)
  then show ?case by (cases i) auto
qed simp

lemma jobs_left_swap:
  assumes "run_inv s" and "i < s_procs s" and "s_processes s ! i = Some j"
  shows "jobs_left (swap_slot i (fst (next_job s)) (snd (next_job s)) j a q s) < jobs_left s"
proof -
  have "i < length (s_processes s)" "s_queueend s \<le> 40" using run_inv_lengths [OF assms(1)] assms(2) by simp_all
  then show ?thesis
    using loaded_update [of i "s_processes s" "\<lambda>p. p \<noteq> None" "fst (next_job s)"] assms(3)
    by (simp add: jobs_left_def swap_slot_def next_job_def split: if_splits)
qed

text \<open>What \<open>allstep\<close> does to the table: nothing, or fewer jobs are left.\<close>

definition same_jobs :: "sim \<Rightarrow> sim \<Rightarrow> bool" where
  "same_jobs s s' \<longleftrightarrow> s_processes s' = s_processes s \<and> s_queueend s' = s_queueend s"

lemma same_jobs_left: "same_jobs s s' \<Longrightarrow> jobs_left s' = jobs_left s"
  by (simp add: same_jobs_def jobs_left_def)

lemma step_slot_outcome:
  assumes "run_inv s" and "i < s_procs s" and "tracked s"
  shows "okR (step_slot i s) (\<lambda>s'. tracked s' \<and> (jobs_left s' < jobs_left s \<or>
    (same_jobs s s' \<and> (case s_processes s ! i of None \<Rightarrow> s' = s
       | Some j \<Rightarrow> \<exists>q. process_step programs (s_queue s ! j) = Inr (True, q) \<and> s' = put_process j (s_pagesavail s) q s))))"
proof (cases "s_processes s ! i")
  case None
  then show ?thesis using step_slot_empty [OF assms(1,2)] assms(3) by (simp add: same_jobs_def)
next
  case (Some j)
  note slot = run_inv_slot [OF assms(1,2) Some]
  have track: "on_track (s_queue s ! j)" using assms(3) slot(2) by (simp add: tracked_def)
  obtain r q where step: "process_step programs (s_queue s ! j) = Inr (r, q)" "same_memory (s_queue s ! j) q"
    using process_step_wf [OF wf_programs_programs slot(3)] by (auto simp: okR_iff)
  show ?thesis
  proof (cases r)
    case True
    have "on_track q"
    proof (cases "p_pages (s_queue s ! j) ! cur_page (s_queue s ! j) = 0")
      case False
      then show ?thesis
        using process_step_stalled [OF wf_programs_programs slot(3,4)] step(1) track
        by (simp add: stalled_def on_track_def)
    next
      case in_mem: True
      then show ?thesis
        using rank_progress [OF slot(3,4) in_mem track slot(5)] at_exit [OF slot(3,4) in_mem track slot(5)] step(1) True
        by (cases "p_pc (s_queue s ! j) = exit_address (j mod 5)") auto
    qed
    then have "tracked (put_process j (s_pagesavail s) q s)"
      using assms(3) slot(6) run_inv_lengths(1) [OF assms(1)] by (auto simp: tracked_def nth_list_update)
    then show ?thesis
      using step_slot_runs [OF assms(1,2) Some] step(1) True Some by (simp add: same_jobs_def)
  next
    case False
    let ?a = "s_pagesavail s + frames (s_queue s ! j)"
    obtain q' where q': "step_slot i s = Inr (swap_slot i (fst (next_job s)) (snd (next_job s)) j ?a q' s)"
      "job_done j q'" "p_program q' = p_program (s_queue s ! j)"
      using step_slot_exits [OF assms(1,2) Some, of q] step(1) False by auto
    have k: "j mod 5 < 5" by simp
    then have "p_pc q' = exit_address (j mod 5)" using q'(2) exits_table [OF k] by (simp add: job_done_def Let_def)
    then have "on_track q'"
      using q'(3) slot(5) k size_table [OF k] track by (auto simp: on_track_def)
    then have "tracked (swap_slot i (fst (next_job s)) (snd (next_job s)) j ?a q' s)"
      using assms(3) slot(6) run_inv_lengths(1) [OF assms(1)] by (auto simp: tracked_def swap_slot_def nth_list_update)
    then show ?thesis using q'(1) jobs_left_swap [OF assms(1,2) Some] by simp
  qed
qed

lemma allstep_outcome:
  assumes "run_inv s" and "serial s" and "tracked s" and "first_job s i j"
  shows "okR (allstep s) (\<lambda>s'. run_inv s' \<and> serial s' \<and> tracked s' \<and> s_procs s' = s_procs s \<and>
    (jobs_left s' < jobs_left s \<or> (same_jobs s s' \<and>
      process_step programs (s_queue s ! j) = Inr (True, s_queue s' ! j))))"
proof -
  have i: "i < s_procs s" "s_processes s ! i = Some j" and low: "\<And>i'. i' < i \<Longrightarrow> s_processes s ! i' = None"
    using assms(4) by (simp_all add: first_job_def)
  let ?I = "\<lambda>n s'. run_inv s' \<and> s_procs s' = s_procs s \<and> tracked s' \<and> (jobs_left s' < jobs_left s \<or> (same_jobs s s' \<and>
      (if n \<le> i then s_queue s' ! j = s_queue s ! j else process_step programs (s_queue s ! j) = Inr (True, s_queue s' ! j))))"
  have "okR (foldR step_slot [0..<s_procs s] s) (?I (s_procs s))"
  proof (rule okR_foldR_upt [where I = ?I])
    fix n s' assume n: "n < s_procs s" and I: "?I n s'"
    then have n': "n < s_procs s'" and inv: "run_inv s'" and trk: "tracked s'" by simp_all
    obtain s'' where s'': "step_slot n s' = Inr s''" "run_inv s''" "s_procs s'' = s_procs s'" "tracked s''"
      and out: "jobs_left s'' < jobs_left s' \<or> (same_jobs s' s'' \<and> (case s_processes s' ! n of None \<Rightarrow> s'' = s'
         | Some k \<Rightarrow> \<exists>q. process_step programs (s_queue s' ! k) = Inr (True, q) \<and> s'' = put_process k (s_pagesavail s') q s'))"
      using step_slot_outcome [OF inv n' trk] step_slot_inv [OF inv n'] by (auto simp: okR_iff slot_stepped_def)
    have "jobs_left s'' < jobs_left s \<or> (same_jobs s s'' \<and> (if Suc n \<le> i then s_queue s'' ! j = s_queue s ! j
        else process_step programs (s_queue s ! j) = Inr (True, s_queue s'' ! j)))"
    proof (cases "jobs_left s'' < jobs_left s' \<or> jobs_left s' < jobs_left s")
      case True
      then show ?thesis using I out same_jobs_left [of s s'] same_jobs_left [of s' s''] by fastforce
    next
      case False
      then have same: "same_jobs s s'" "same_jobs s' s''" and q: "if n \<le> i then s_queue s' ! j = s_queue s ! j
          else process_step programs (s_queue s ! j) = Inr (True, s_queue s' ! j)"
        using I out by auto
      then have proc: "s_processes s' = s_processes s" by (simp add: same_jobs_def)
      show ?thesis
      proof (cases "s_processes s ! n")
        case None
        then have "s'' = s'" "n \<noteq> i" using out False proc i(2) by auto
        then show ?thesis using same q by (auto simp: same_jobs_def)
      next
        case (Some k)
        then obtain p where p: "process_step programs (s_queue s' ! k) = Inr (True, p)"
            "s'' = put_process k (s_pagesavail s') p s'"
          using out False proc by auto
        have ni: "\<not> n < i" using low Some by auto
        have k: "k < length (s_queue s')" using run_inv_slot(6) [OF inv n'] proc Some by simp
        show ?thesis
        proof (cases "n = i")
          case True
          then have "k = j" using Some i(2) by simp
          then show ?thesis using p same q k True by (simp add: same_jobs_def)
        next
          case False
          have "sim_inv s" using assms(1) by (simp add: run_inv_def)
          from sim_table_inj [OF this _ _ Some, of i] have "k \<noteq> j"
            using False i run_inv_lengths(3) [OF assms(1)] n by auto
          then show ?thesis using p same q ni False by (simp add: same_jobs_def)
        qed
      qed
    qed
    then show "okR (step_slot n s') (?I (Suc n))" using s'' I by simp
  qed (use assms(1,3) i in \<open>simp_all add: same_jobs_def\<close>)
  then have "okR (allstep s) (?I (s_procs s))" by (simp add: allstep_def)
  then show ?thesis using serial_allstep [OF assms(1,2)] i(1) by (auto simp: okR_iff)
qed

subsection \<open>The pager serves the first job\<close>

lemma basic_serves_first:
  assumes "run_inv s" and "serial s" and "first_job s i j"
  shows "basic_pageit (entries_of s) m s = Inr (m, if p_pages (s_queue s ! j) ! cur_page (s_queue s ! j) = 0 then s
    else snd (pagein (int i) (int (cur_page (s_queue s ! j))) s))"
proof -
  have i: "i < s_procs s" "s_processes s ! i = Some j" "i < 20" and low: "\<And>i'. i' < i \<Longrightarrow> s_processes s ! i' = None"
    using assms(3) run_inv_lengths(3) [OF assms(1)] by (simp_all add: first_job_def)
  note slot = run_inv_slot [OF assms(1) i(1,2)]
  let ?q = "s_queue s ! j"
  have pg: "p_pc ?q sdiv PAGESIZE = int (cur_page ?q)" "cur_page ?q < length (p_pages ?q)"
    using wf_process_page [OF slot(3) wf_programs_programs] slot(3) by (simp_all add: wf_process_def)
  let ?f = "\<lambda>proc. basic_slot (entries_of s) (int proc)"
  have skip: "loopR ?f [0..<20] s = loopR ?f [n..<20] s" if "n \<le> i" for n
    using that
  proof (induction n)
    case (Suc n)
    then have n: "n < 20" "n < i" using i(3) by simp_all
    have "?f n s = Inr (Next s)"
      using basic_slot_spec [OF wf_entries_of [OF assms(1)] n(1), of s] low [OF n(2)] n(1)
      by (simp add: entries_of_def entry_of_def)
    then show ?case using Suc n by (simp add: upt_conv_Cons)
  qed simp
  have e: "entries_of s ! i = \<lparr>e_active = True, e_pc = p_pc ?q, e_npages = 20, e_pages = map (\<lambda>v. v = 0) (p_pages ?q)\<rparr>"
    using i by (simp add: entries_of_def entry_of_def Let_def)
  have "?f i s = Inr (Break (if p_pages ?q ! cur_page ?q = 0 then s else snd (pagein (int i) (int (cur_page ?q)) s)))"
    using basic_slot_spec [OF wf_entries_of [OF assms(1)] i(3), of s] pg pagein_granted [OF assms(1,2) i(1,2)]
    by (simp add: e Let_def)
  then have "loopR ?f [i..<20] s = Inr (if p_pages ?q ! cur_page ?q = 0 then s else snd (pagein (int i) (int (cur_page ?q)) s))"
    using i(3) by (simp add: upt_conv_Cons)
  then show ?thesis using skip [of i] by (simp add: basic_pageit_def)
qed
subsection \<open>A tick of the main loop\<close>

text \<open>Aging and paging leave the table and the programs of the jobs alone.\<close>

definition same_code :: "sim \<Rightarrow> sim \<Rightarrow> bool" where
  "same_code s s' \<longleftrightarrow> same_jobs s s' \<and> (\<forall>j < QUEUESIZE. p_program (s_queue s' ! j) = p_program (s_queue s ! j)
     \<and> p_pc (s_queue s' ! j) = p_pc (s_queue s ! j) \<and> p_bcontexts (s_queue s' ! j) = p_bcontexts (s_queue s ! j))"

lemma same_code_refl [simp]: "same_code s s"
  and same_code_trans: "same_code s s' \<Longrightarrow> same_code s' s'' \<Longrightarrow> same_code s s''"
  by (simp_all add: same_code_def same_jobs_def)

lemma same_code_put:
  "same_code s (put_process j a ((s_queue s ! j)\<lparr>p_pages := pg\<rparr>) s)"
  by (cases "j < length (s_queue s)") (auto simp: same_code_def same_jobs_def nth_list_update list_update_beyond not_less)

lemma same_code_pageouts [simp]: "same_code s (s'\<lparr>s_pageouts := ps\<rparr>) = same_code s s'"
  by (simp add: same_code_def same_jobs_def)

lemma same_code_call:
  assumes "paging_call s s'"
  shows "same_code s s'"
proof -
  have out: "same_code s (put_process j a ((s_queue s ! j)\<lparr>p_pages := pg\<rparr>) (s\<lparr>s_pageouts := ps\<rparr>))" for j a pg ps
    using same_code_put [of s j a pg] by (auto simp: same_code_def same_jobs_def put_process_def)
  have "same_code s (snd (pagein i p s))" "same_code s (snd (pageout i p s))" for i p
    by (auto simp: pagein_def pageout_def Let_def same_code_put out split: option.split)
  then show ?thesis using assms by (auto elim!: paging_callE)
qed

lemma same_code_calls: "paging_call\<^sup>*\<^sup>* s s' \<Longrightarrow> same_code s s'"
  by (induction rule: rtranclp_induct) (auto intro: same_code_trans same_code_call)

lemma allage_queueend: "s_queueend (allage s) = s_queueend s"
proof -
  have "s_queueend (fold age_slot xs s) = s_queueend s" for xs
    by (induction xs arbitrary: s) (simp_all add: age_slot_def split: option.split prod.split)
  then show ?thesis by (simp add: allage_def)
qed

lemma same_code_allage:
  assumes "run_inv s"
  shows "same_code s (allage s)"
  using assms allage_frame [of s] allage_queueend [of s] allage_queue [of s]
  by (auto simp: same_code_def same_jobs_def run_inv_def aged_def)

lemma same_code_tracked: "same_code s s' \<Longrightarrow> tracked s \<Longrightarrow> tracked s'"
  by (auto simp: same_code_def tracked_def on_track_def)

lemma same_code_rank: "same_code s s' \<Longrightarrow> j < QUEUESIZE \<Longrightarrow> job_rank (s_queue s' ! j) = job_rank (s_queue s ! j)
    \<and> cur_page (s_queue s' ! j) = cur_page (s_queue s ! j)"
  by (simp add: same_code_def job_rank_def cur_page_def)

lemma first_job_same: "same_jobs s s' \<Longrightarrow> s_procs s' = s_procs s \<Longrightarrow> first_job s' i j = first_job s i j"
  by (simp add: same_jobs_def first_job_def)

text \<open>The page of the first job after the pager has run.\<close>

lemma pagein_first:
  assumes "run_inv s" and "serial s" and "first_job s i j" and "q = s_queue s ! j" and "p_pages q ! cur_page q \<noteq> 0"
  shows "cur_wait (s_queue (snd (pagein (int i) (int (cur_page q)) s)) ! j) = min 100 (cur_wait q)"
proof -
  have i: "i < s_procs s" "s_processes s ! i = Some j" using assms(3) by (simp_all add: first_job_def)
  note slot = run_inv_slot [OF assms(1) i]
  have inv: "sim_inv s" using assms(1) by (simp add: run_inv_def)
  have l: "cur_page q < length (p_pages q)" "list_all (\<lambda>v. -101 \<le> v \<and> v \<le> 100) (p_pages q)"
    using wf_process_page(2) [OF slot(3) wf_programs_programs] slot(3) assms(4) by (simp_all add: wf_process_def)
  then have v: "-101 \<le> p_pages q ! cur_page q" "p_pages q ! cur_page q \<le> 100" by (simp_all add: list_all_length)
  have ng: "0 \<le> p_pages q ! cur_page q \<or> p_pages q ! cur_page q < -100"
    using serialD(1) [OF assms(2) i] l(1) assms(4) by (simp add: no_going_def list_all_length)
  have grant: "fst (pagein (int i) (int (cur_page q)) s)" using pagein_granted [OF assms(1,2) i] assms(4) by simp
  have act: "active_at s i = Some j" using i active_at_Some [OF inv slot(1)] by simp
  show ?thesis
  proof (cases "0 \<le> p_pages q ! cur_page q")
    case True
    then have "snd (pagein (int i) (int (cur_page q)) s) = s"
      using act assms(4) by (auto simp: pagein_def Let_def)
    then show ?thesis using True v assms(4,5) by (simp add: cur_wait_def abs_page_def)
  next
    case False
    then have "snd (pagein (int i) (int (cur_page q)) s) =
        put_process j (s_pagesavail s - 1) (q\<lparr>p_pages := (p_pages q)[cur_page q := PAGEWAIT]\<rparr>) s"
      using grant act assms(4) by (auto simp: pagein_def Let_def split: if_splits)
    then show ?thesis using False ng l slot(6) by (simp add: cur_wait_def cur_page_def abs_page_def)
  qed
qed

lemma cur_wait_aged:
  assumes "wf_process programs q" and "no_going q" and "p_pages q ! cur_page q \<noteq> 0"
  shows "cur_wait (aged q) < cur_wait q \<or> cur_wait (aged q) = 101 \<and> cur_wait q = 101"
proof -
  have l: "cur_page q < length (p_pages q)"
    using wf_process_page(2) [OF assms(1) wf_programs_programs] assms(1) by (simp add: wf_process_def)
  then have "0 \<le> p_pages q ! cur_page q \<or> p_pages q ! cur_page q < -100"
    using assms(2) by (simp add: no_going_def list_all_length)
  then show ?thesis
    using l assms(3) by (auto simp: cur_wait_def aged_def cur_page_def age_def abs_page_def)
qed

text \<open>Aging and paging: the programs stand still, and a missing page of the first job comes nearer.\<close>

lemma paging_outcome:
  assumes "run_inv s" and "serial s"
  shows "\<exists>s'. callyou basic_pageit m (allage s) = Inr (m, s') \<and> run_inv s' \<and> same_code s s' \<and> s_procs s' = s_procs s
    \<and> (\<forall>i j. first_job s i j \<longrightarrow> p_pages (s_queue s ! j) ! cur_page (s_queue s ! j) \<noteq> 0
         \<longrightarrow> cur_wait (s_queue s' ! j) < cur_wait (s_queue s ! j))"
proof -
  let ?t = "(allage s)\<lparr>s_pageouts := replicate MAXPROCESSES 0\<rparr>"
  have inv: "sim_inv s" using assms(1) by (simp add: run_inv_def)
  have t: "run_inv (allage s)" "run_inv ?t" "serial ?t" "s_procs ?t = s_procs s" "same_code s ?t"
    using run_inv_allage [OF assms(1)] run_inv_pageouts serial_allage [OF assms] allage_frame [OF inv]
      same_code_allage [OF assms(1)] by (simp_all add: serial_def)
  obtain s' where s': "callyou basic_pageit m (allage s) = Inr (m, s')" "basic_pageit (entries_of ?t) m ?t = Inr (m, s')"
      and calls: "paging_call\<^sup>*\<^sup>* ?t s'"
    using basic.pageit_calls [OF t(2), of m] snapshot_spec [OF t(1)] by (auto simp: callyou_def okR_iff)
  have "cur_wait (s_queue s' ! j) < cur_wait (s_queue s ! j)"
    if f: "first_job s i j" and out: "p_pages (s_queue s ! j) ! cur_page (s_queue s ! j) \<noteq> 0" for i j
  proof -
    let ?q = "s_queue s ! j"
    have i: "i < s_procs s" "s_processes s ! i = Some j" using f by (simp_all add: first_job_def)
    note slot = run_inv_slot [OF assms(1) i]
    have "same_jobs s ?t" using t(5) by (simp only: same_code_def)
    then have ft: "first_job ?t i j" using f t(4) first_job_same [of s ?t i j] by simp
    have "Some j \<in> set (take (s_procs s) (s_processes s))"
      using i run_inv_lengths [OF assms(1)] by (auto simp: in_set_conv_nth intro!: exI [of _ i])
    then have q: "s_queue ?t ! j = aged ?q" using allage_queue [OF inv slot(2)] by simp
    have less: "cur_wait (aged ?q) < cur_wait ?q \<or> cur_wait (aged ?q) = 101 \<and> cur_wait ?q = 101"
      using cur_wait_aged [OF slot(3) _ out] serialD(1) [OF assms(2) i] by simp
    show ?thesis
    proof (cases "p_pages (aged ?q) ! cur_page (aged ?q) = 0")
      case True
      then have "s' = ?t" "cur_wait (aged ?q) = 0"
        using s'(2) basic_serves_first [OF t(2,3) ft, of m] q by (simp_all add: cur_wait_def abs_page_def)
      then show ?thesis using less q by simp
    next
      case False
      then have "cur_wait (s_queue s' ! j) = min 100 (cur_wait (aged ?q))"
        using s'(2) basic_serves_first [OF t(2,3) ft, of m] pagein_first [OF t(2,3) ft q [symmetric]] q by simp
      then show ?thesis using less by auto
    qed
  qed
  moreover have "run_inv s'" by (rule run_inv_paging_calls [OF calls t(2)])
  moreover have "same_code s s'" by (rule same_code_trans [OF t(5) same_code_calls [OF calls]])
  moreover have "s_procs s' = s_procs s"
    using basic.callyou_inv [OF t(1) TrueI, of m] s'(1) t(4) by simp
  ultimately show ?thesis using s'(1) by blast
qed

text \<open>The measure of the main loop.\<close>

definition loop_less :: "((nat \<times> (nat \<times> nat \<times> nat) \<times> nat) \<times> (nat \<times> (nat \<times> nat \<times> nat) \<times> nat)) set" where
  "loop_less = less_than <*lex*> rank_less <*lex*> less_than"

definition loop_rank :: "sim \<Rightarrow> nat \<times> (nat \<times> nat \<times> nat) \<times> nat" where
  "loop_rank s = (let q = s_queue s ! the (s_processes s ! (LEAST i. s_processes s ! i \<noteq> None))
     in (jobs_left s, job_rank q, cur_wait q))"

lemma wf_loop_less: "wf loop_less"
  by (simp add: loop_less_def wf_rank_less wf_lex_prod)

lemma loop_rank_first:
  assumes "first_job s i j"
  shows "loop_rank s = (jobs_left s, job_rank (s_queue s ! j), cur_wait (s_queue s ! j))"
proof -
  have "(LEAST i. s_processes s ! i \<noteq> None) = i"
    using assms unfolding first_job_def by (intro Least_equality) (auto simp: not_less [symmetric] simp del: not_less)
  then show ?thesis using assms by (simp add: loop_rank_def first_job_def Let_def)
qed

definition loop_inv :: "sim \<Rightarrow> bool" where
  "loop_inv s \<longleftrightarrow> run_inv s \<and> serial s \<and> tracked s"

lemma tick_outcome:
  assumes "loop_inv s" and "\<not> alldone s"
  shows "\<exists>s'. sim_tick basic_pageit (m, s) = Inr (m, s') \<and> loop_inv s' \<and> s_procs s' = s_procs s
    \<and> (loop_rank s', loop_rank s) \<in> loop_less"
proof -
  have inv: "run_inv s" "serial s" "tracked s" using assms(1) by (simp_all add: loop_inv_def)
  obtain i j where f: "first_job s i j" using first_job_exists [OF inv(1) assms(2)] by blast
  then have i: "i < s_procs s" "s_processes s ! i = Some j" by (simp_all add: first_job_def)
  note slot = run_inv_slot [OF inv(1) i]
  obtain s1 where s1: "allstep s = Inr s1" "run_inv s1" "serial s1" "tracked s1" "s_procs s1 = s_procs s"
    and step: "jobs_left s1 < jobs_left s \<or> (same_jobs s s1 \<and> process_step programs (s_queue s ! j) = Inr (True, s_queue s1 ! j))"
    using allstep_outcome [OF inv f] by (auto simp: okR_iff)
  obtain s2 where s2: "callyou basic_pageit m (allage s1) = Inr (m, s2)" "run_inv s2" "same_code s1 s2" "s_procs s2 = s_procs s1"
    and near: "\<And>i j. first_job s1 i j \<Longrightarrow> p_pages (s_queue s1 ! j) ! cur_page (s_queue s1 ! j) \<noteq> 0
       \<Longrightarrow> cur_wait (s_queue s2 ! j) < cur_wait (s_queue s1 ! j)"
    using paging_outcome [OF s1(2,3), of m] by blast
  let ?s3 = "s2\<lparr>s_sysclock := s_sysclock s2 + 1\<rparr>"
  have s3: "run_inv ?s3" using s2(2) by (simp add: run_inv_sysclock)
  have tick: "sim_tick basic_pageit (m, s) = Inr (m, ?s3)"
    using s1(1) s2(1) allblocked_total [OF s3] by (auto simp: sim_tick_def Let_def)
  have ser: "serial ?s3" using serial_tick [OF inv(1,2), of m] tick by simp
  have trk: "tracked ?s3" using same_code_tracked [OF s2(3) s1(4)] by (simp add: tracked_def)
  have left: "jobs_left ?s3 = jobs_left s1" using s2(3) by (simp add: same_code_def same_jobs_def jobs_left_def)
  have "(loop_rank ?s3, loop_rank s) \<in> loop_less"
  proof (cases "jobs_left s1 < jobs_left s")
    case True
    then show ?thesis using left by (simp add: loop_rank_def loop_less_def Let_def)
  next
    case False
    then have same: "same_jobs s s1" "process_step programs (s_queue s ! j) = Inr (True, s_queue s1 ! j)" using step by blast+
    have f1: "first_job s1 i j" using f first_job_same [OF same(1) s1(5)] by simp
    have f3: "first_job ?s3 i j" using f1 s2(3,4) by (simp add: first_job_def same_code_def same_jobs_def)
    have rank: "job_rank (s_queue ?s3 ! j) = job_rank (s_queue s1 ! j)" using same_code_rank [OF s2(3) slot(2)] by simp
    have eq: "jobs_left ?s3 = jobs_left s" using left same_jobs_left [OF same(1)] by simp
    show ?thesis
    proof (cases "p_pages (s_queue s ! j) ! cur_page (s_queue s ! j) = 0")
      case True
      have on: "on_track (s_queue s ! j)" using inv(3) slot(2) by (simp add: tracked_def)
      have "p_pc (s_queue s ! j) \<noteq> exit_address (j mod 5)"
        using at_exit [OF slot(3,4) True on slot(5)] same(2) by auto
      then have "(job_rank (s_queue s1 ! j), job_rank (s_queue s ! j)) \<in> rank_less"
        using rank_progress [OF slot(3,4) True on slot(5)] same(2) by auto
      then show ?thesis using rank eq by (simp add: loop_rank_first [OF f3] loop_rank_first [OF f] loop_less_def)
    next
      case False
      then have q: "s_queue s1 ! j = stalled (s_queue s ! j)"
        using process_step_stalled [OF wf_programs_programs slot(3,4)] same(2) by simp
      then have w: "cur_wait (s_queue s2 ! j) < cur_wait (s_queue s ! j)"
        using near [OF f1] False by (simp add: stalled_def cur_wait_def cur_page_def)
      have "job_rank (s_queue s1 ! j) = job_rank (s_queue s ! j)" using q by (simp add: stalled_def job_rank_def)
      then show ?thesis using w rank eq by (simp add: loop_rank_first [OF f3] loop_rank_first [OF f] loop_less_def)
    qed
  qed
  then show ?thesis using tick s3 ser trk s1(5) s2(4) by (intro exI [of _ ?s3]) (simp add: loop_inv_def)
qed

subsection \<open>The main loop ends\<close>

lemma run_loop_ended: "alldone s \<Longrightarrow> run_loop pageit n (m, s) = Inr (m, s)"
  by (cases n) simp_all

lemma run_loop_basic_ends:
  assumes "loop_inv s"
  shows "\<exists>n s'. (\<forall>n' \<ge> n. run_loop basic_pageit n' (m, s) = Inr (m, s')) \<and> loop_inv s' \<and> s_procs s' = s_procs s \<and> alldone s'"
  using assms
proof (induction "loop_rank s" arbitrary: s rule: wf_induct_rule [OF wf_loop_less])
  case (1 s)
  show ?case
  proof (cases "alldone s")
    case True
    then show ?thesis using "1.prems" by (intro exI [of _ 0] exI [of _ s]) (simp add: run_loop_ended)
  next
    case False
    obtain s1 where s1: "sim_tick basic_pageit (m, s) = Inr (m, s1)" "loop_inv s1" "s_procs s1 = s_procs s"
      "(loop_rank s1, loop_rank s) \<in> loop_less"
      using tick_outcome [OF "1.prems" False] by blast
    obtain n s' where n: "\<forall>n' \<ge> n. run_loop basic_pageit n' (m, s1) = Inr (m, s')"
      and s': "loop_inv s'" "s_procs s' = s_procs s1" "alldone s'"
      using "1.hyps" [OF s1(4) s1(2)] by blast
    have "run_loop basic_pageit n' (m, s) = Inr (m, s')" if "n' \<ge> Suc n" for n'
      using that n s1(1) False by (cases n') simp_all
    then show ?thesis using s' s1(3) by metis
  qed
qed

lemma started_loop_inv:
  assumes "started procs s" and "run_inv s" and "procs \<le> MAXPROCESSES"
  shows "loop_inv s"
proof -
  have "tracked s" using assms(1) fresh_on_track
    by (auto simp: tracked_def started_def queue_loaded_def job_fresh_def)
  then show ?thesis using started_serial [OF assms] assms(2) by (simp add: loop_inv_def)
qed

subsection \<open>Properties\<close>

text \<open>C4: With \<open>pager-basic\<close> the simulator finishes: from any seed and on any number of processors from
  1 to 20 there is a number of ticks after which the main loop has ended, and all 40 jobs have then
  run to an exit of their programs, with every frame free again.\<close>

theorem basic_simulation_finishes:
  assumes "1 \<le> procs" and "procs \<le> MAXPROCESSES"
  shows "\<exists>n s. (\<forall>n' \<ge> n. simulate basic_pageit () procs seed n' = Inr ((), s)) \<and> alldone s \<and> all_jobs_done s"
proof -
  obtain s where s: "allinit (static_sim procs seed) = Inr s" "started procs s" "run_inv s"
    using allinit_started [OF assms(2), of seed] by (auto simp: okR_iff)
  obtain n s' where n: "\<forall>n' \<ge> n. run_loop basic_pageit n' ((), s) = Inr ((), s')"
    and s': "loop_inv s'" "s_procs s' = s_procs s" "alldone s'"
    using run_loop_basic_ends [OF started_loop_inv [OF s(2,3) assms(2)], of "()"] by blast
  have "0 < s_procs s'" using s'(2) s(2) assms(1) by (simp add: started_def)
  then have "all_jobs_done s'" using alldone_all_jobs s'(1,3) by (simp add: loop_inv_def)
  then show ?thesis using n s(1) s'(3) by (auto simp: simulate_def)
qed

theorem basic_simulation_finishes_witness:
  "\<exists>n s. simulate basic_pageit () 20 512 n = Inr ((), s) \<and> all_jobs_done s"
  using basic_simulation_finishes [of 20 512] by auto
end
