(* ===== verification/Output_File.thy ===== *)
theory Output_File
  imports Simulator_Output Basic_Liveness
begin

text \<open>
  The history file \<open>output.csv\<close> of \<open>assignments/pa7/simulator.c\<close> (option \<open>-csv\<close>): the program counters at which
  jobs are loaded and unloaded, blocked and unblocked, branch and exit. As for \<open>pages.csv\<close>, the rows of an operation
  are a function of the state before it. Only \<open>allinit\<close> and \<open>allstep\<close> write rows; \<open>out_run\<close> is a run
  with the file. \<open>replay\<close> reads the program counter of a slot at any tick off the last row of the slot.
\<close>

subsection \<open>Rows\<close>

datatype pc_event = Loaded | Unloaded | Blocked | Unblocked | Exited | Branched_From | Branched_To | Out_Of_Range | Restarted

record pc_row =
  o_clock :: int
  o_slot :: int
  o_pid :: int
  o_kind :: int
  o_pc :: int
  o_event :: pc_event

fun event_text :: "pc_event \<Rightarrow> string" where
  "event_text Loaded = ''load''"
| "event_text Unloaded = ''unload''"
| "event_text Blocked = ''blocked''"
| "event_text Unblocked = ''unblocked''"
| "event_text Exited = ''exit''"
| "event_text Branched_From = ''branch_from''"
| "event_text Branched_To = ''branch_to''"
| "event_text Out_Of_Range = ''out_of_range''"
| "event_text Restarted = ''restart''"

definition pc_row_text :: "pc_row \<Rightarrow> string" where
  "pc_row_text r = fmt_ld (o_clock r) @ '','' @ fmt_ld (o_slot r) @ '','' @ fmt_ld (o_pid r) @ '','' @ fmt_ld (o_kind r)
     @ '','' @ fmt_ld (o_pc r) @ '','' @ event_text (o_event r) @ [newline]"

definition event_row :: "sim \<Rightarrow> nat \<Rightarrow> process \<Rightarrow> int \<Rightarrow> pc_event \<Rightarrow> pc_row" where
  "event_row s i q pc e =
     \<lparr>o_clock = s_sysclock s, o_slot = int i, o_pid = p_pid q, o_kind = p_kind q, o_pc = pc, o_event = e\<rparr>"

subsection \<open>The rows of each operation\<close>

text \<open>A run that faults writes no further row.\<close>

definition dobranch_rows :: "sim \<Rightarrow> nat \<Rightarrow> program \<Rightarrow> process \<Rightarrow> int \<Rightarrow> pc_row list" where
  "dobranch_rows s i g q j =
     (case bindR (idx (g_branches g) j) (\<lambda>b. bindR (idx (p_bcontexts q) j) (\<lambda>c. bindR (bcontext_decide c) (\<lambda>(d, c'). Inr (b, d)))) of
        Inl e \<Rightarrow> []
      | Inr (b, d) \<Rightarrow>
          if d \<noteq> 0 then [event_row s i q (p_pc q) Branched_From, event_row s i q (b_whereto b) Branched_To] else [])"

definition process_step_rows :: "program list \<Rightarrow> sim \<Rightarrow> nat \<Rightarrow> process \<Rightarrow> pc_row list" where
  "process_step_rows progs s i q =
     (let pc = p_pc q; page = p_pc q sdiv PAGESIZE in
      if \<not> p_active q then []
      else case idx (p_pages q) page of Inl e \<Rightarrow> []
      | Inr st \<Rightarrow>
        if st \<noteq> 0 then (if \<not> p_blocked q ! nat page then [event_row s i q pc Blocked] else [])
        else
          (if p_blocked q ! nat page then [event_row s i q pc Unblocked] else []) @
          (case p_program q of None \<Rightarrow> []
           | Some k \<Rightarrow>
             (case idx progs (int k) of Inl e \<Rightarrow> []
              | Inr g \<Rightarrow>
                if \<not> (g_nexits g \<ge> 0 \<and> g_nexits g \<le> int MAXEXITS) then []
                else if should_exit g pc then [event_row s i q pc Exited]
                else if \<not> (g_nbranches g \<ge> 0 \<and> g_nbranches g \<le> int MAXBRANCHES) then []
                else (case pick_branch progs k g pc of Inl e \<Rightarrow> []
                      | Inr (Some j) \<Rightarrow> dobranch_rows s i g q j
                      | Inr None \<Rightarrow>
                          if pc + 1 < 0 \<or> pc + 1 > g_size g
                          then [event_row s i q (pc + 1) Out_Of_Range, event_row s i q 0 Restarted] else []))))"

definition step_slot_events :: "nat \<Rightarrow> sim \<Rightarrow> pc_row list" where
  "step_slot_events i s =
     (case s_processes s ! i of None \<Rightarrow> [] | Some j \<Rightarrow> process_step_rows programs s i (s_queue s ! j)) @
     (case step_process i s of Inl e \<Rightarrow> []
      | Inr (r, s1) \<Rightarrow>
          if \<not> r then
            (case active_at s1 i of None \<Rightarrow> []
             | Some j \<Rightarrow> [event_row s1 i (s_queue s1 ! j) (p_pc (s_queue s1 ! j)) Unloaded]) @
            (if \<not> queue_empty s1
             then [event_row s1 i (s_queue s1 ! s_queueend s1) (p_pc (s_queue s1 ! s_queueend s1)) Loaded] else [])
          else [])"

definition allinit_events :: "sim \<Rightarrow> pc_row list" where
  "allinit_events s =
     concat (map (\<lambda>i. case s_processes s ! i of None \<Rightarrow> []
       | Some j \<Rightarrow> [event_row s i (s_queue s ! j) (p_pc (s_queue s ! j)) Loaded]) [0..<s_procs s])"

subsection \<open>Runs with the file\<close>

definition step_slot_out :: "nat \<Rightarrow> sim \<times> pc_row list \<Rightarrow> (sim \<times> pc_row list) res" where
  "step_slot_out i = (\<lambda>(s, f). bindR (step_slot i s) (\<lambda>s'. Inr (s', f @ step_slot_events i s)))"

inductive out_tick :: "sim \<times> pc_row list \<Rightarrow> sim \<times> pc_row list \<Rightarrow> bool" where
  tick_out: "foldR step_slot_out [0..<s_procs s] (s, f) = Inr (s1, f1) \<Longrightarrow>
    paging_call\<^sup>*\<^sup>* ((allage s1)\<lparr>s_pageouts := replicate MAXPROCESSES 0\<rparr>) s2 \<Longrightarrow>
    out_tick (s, f) (s2\<lparr>s_sysclock := s_sysclock s2 + 1\<rparr>, f1)"

inductive out_run :: "nat \<Rightarrow> int \<Rightarrow> sim \<times> pc_row list \<Rightarrow> bool" for procs seed where
  out_init: "allinit (static_sim procs seed) = Inr s \<Longrightarrow> out_run procs seed (s, allinit_events s)"
| out_next: "out_run procs seed c \<Longrightarrow> out_tick c c' \<Longrightarrow> out_run procs seed c'"

subsection \<open>Reading the file\<close>

definition slot_rows :: "nat \<Rightarrow> pc_row list \<Rightarrow> pc_row list" where
  "slot_rows i f = filter (\<lambda>r. o_slot r = int i) f"

text \<open>The program counter after \<open>c\<close> ticks of a slot with the last row \<open>r\<close>: a blocked job stays where it is, any
  other has made one step in each tick since the row, counting the tick of the row only if it was unblocked in it.\<close>

definition replay :: "int \<Rightarrow> pc_row \<Rightarrow> int" where
  "replay c r =
     (case o_event r of
        Unblocked \<Rightarrow> o_pc r + (c - o_clock r)
      | Branched_To \<Rightarrow> o_pc r + (c - o_clock r - 1)
      | Loaded \<Rightarrow> o_pc r + max 0 (c - o_clock r - 1)
      | _ \<Rightarrow> o_pc r)"

text \<open>The job in a slot.\<close>

definition job_at :: "sim \<Rightarrow> nat \<Rightarrow> process option" where
  "job_at s i = map_option (\<lambda>j. s_queue s ! j) (s_processes s ! i)"

subsection \<open>The steps of a job on its way\<close>

definition job_history :: "int \<Rightarrow> process \<Rightarrow> pc_row \<Rightarrow> bool" where
  "job_history c q r \<longleftrightarrow> o_pid r = p_pid q \<and> o_kind r = p_kind q \<and> p_pc q = replay c r
     \<and> o_event r \<in> {Loaded, Blocked, Unblocked, Branched_To}
     \<and> (\<forall>k < MAXPROCPAGES. p_blocked q ! k \<longleftrightarrow> o_event r = Blocked \<and> k = cur_page q)
     \<and> (o_clock r < c \<or> (o_clock r = c \<and> o_event r = Loaded \<and> p_pages q = fresh_pages))"

lemma branch_target:
  assumes "k < 5" and "branch_taken (programs ! k) pc = Some j"
  shows "0 \<le> b_whereto (g_branches (programs ! k) ! nat j)" and "b_whereto (g_branches (programs ! k) ! nat j) \<le> exit_address k"
proof -
  from assms(1) consider "k = 0" | "k = 1" | "k = 2" | "k = 3" | "k = 4" by linarith
  then have "0 \<le> b_whereto (g_branches (programs ! k) ! nat j) \<and> b_whereto (g_branches (programs ! k) ! nat j) \<le> exit_address k"
    by cases (use assms(2) in \<open>auto simp: branch_taken_table target_table exit_address_table split: if_splits\<close>)
  then show "0 \<le> b_whereto (g_branches (programs ! k) ! nat j)" "b_whereto (g_branches (programs ! k) ! nat j) \<le> exit_address k"
    by simp_all
qed


lemma process_step_rows_spec:
  assumes "wf_process programs q" and "p_active q" and "p_program q = Some k" and "on_track q"
  shows "process_step_rows programs s i q =
    (if p_pages q ! cur_page q \<noteq> 0 then (if \<not> p_blocked q ! cur_page q then [event_row s i q (p_pc q) Blocked] else [])
     else (if p_blocked q ! cur_page q then [event_row s i q (p_pc q) Unblocked] else []) @
       (if p_pc q = exit_address k then [event_row s i q (p_pc q) Exited]
        else case branch_taken (programs ! k) (p_pc q) of Some j \<Rightarrow> dobranch_rows s i (programs ! k) q j | None \<Rightarrow> []))"
proof -
  let ?g = "programs ! k"
  have k: "k < 5" "0 \<le> p_pc q" "p_pc q \<le> exit_address k" using assms(3,4) by (auto simp: on_track_def)
  then have kl: "k < length programs" and g: "wf_program ?g"
    using wf_programs_programs by (simp_all add: wf_programs_def programs_def)
  have "length (p_pages q) = 20" using assms(1) by (simp add: wf_process_def)
  moreover have "0 \<le> g_nexits ?g" "g_nexits ?g \<le> 10" "0 \<le> g_nbranches ?g" "g_nbranches ?g \<le> 40"
    using g by (simp_all add: wf_program_def)
  moreover have "should_exit ?g (p_pc q) \<longleftrightarrow> p_pc q = exit_address k"
    using should_exit_iff [OF g] exits_table [OF k(1)] by simp
  moreover have "p_pc q \<noteq> exit_address k \<Longrightarrow> \<not> (p_pc q + 1 < 0 \<or> g_size ?g < p_pc q + 1)"
    using k size_table [OF k(1)] by linarith
  ultimately show ?thesis
    using assms(2,3) kl wf_process_page [OF assms(1) wf_programs_programs] pick_branch_taken [OF wf_programs_programs kl]
    by (auto simp: process_step_rows_def Let_def split: option.split)
qed

lemma dobranch_rows_spec:
  assumes "wf_process programs q" and "k < 5" and "branch_taken (programs ! k) pc = Some j"
    and "bcontext_decide (p_bcontexts q ! nat j) = Inr (d, c')"
  shows "dobranch_rows s i (programs ! k) q j =
    (if d \<noteq> 0 then [event_row s i q (p_pc q) Branched_From, event_row s i q (b_whereto (g_branches (programs ! k) ! nat j)) Branched_To]
     else [])"
proof -
  have g: "wf_program (programs ! k)" using wf_programs_programs assms(2) by (simp add: wf_programs_def programs_def)
  then have "length (g_branches (programs ! k)) = 40" by (simp add: wf_program_def)
  then show ?thesis
    using branch_taken_range [OF g assms(3)] assms(1,4) by (simp add: dobranch_rows_def wf_process_def)
qed

text \<open>What \<open>replay\<close> says after one more tick, with the last row of the tick.\<close>

lemma history_stalled:
  assumes "wf_process programs q" and "job_history (s_sysclock s) q r"
  shows "job_history (s_sysclock s + 1) (stalled q)
    (last (r # (if \<not> p_blocked q ! cur_page q then [event_row s i q (p_pc q) Blocked] else [])))"
proof -
  have cur: "cur_page q < 20" using wf_process_page(2) [OF assms(1) wf_programs_programs] .
  have len: "length (p_blocked q) = 20" using assms(1) by (simp add: wf_process_def)
  have same: "cur_page (stalled q) = cur_page q" by (simp add: cur_page_def stalled_def)
  show ?thesis
  proof (cases "o_event r = Blocked")
    case True
    then have "p_blocked q ! cur_page q" using assms(2) cur by (auto simp: job_history_def)
    then show ?thesis
      using assms(2) True cur len same by (auto simp: job_history_def stalled_def replay_def nth_list_update)
  next
    case False
    then have "\<not> p_blocked q ! cur_page q" using assms(2) cur by (auto simp: job_history_def)
    then show ?thesis
      using assms(2) False cur len same
      by (auto simp: job_history_def stalled_def replay_def event_row_def nth_list_update)
  qed
qed

lemma history_ticked:
  assumes "wf_process programs q" and "job_history (s_sysclock s) q r" and "p_pages q ! cur_page q = 0"
    and "p_pid q' = p_pid q" and "p_kind q' = p_kind q" and "p_blocked q' = (p_blocked q)[cur_page q := False]"
    and "p_pages q' = p_pages q"
    and "if d = 0 then p_pc q' = p_pc q + 1 else p_pc q' = pc'"
  shows "job_history (s_sysclock s + 1) q'
    (last (r # (if p_blocked q ! cur_page q then [event_row s i q (p_pc q) Unblocked] else []) @
      (if d = 0 then [] else [event_row s i q (p_pc q) Branched_From, event_row s i q pc' Branched_To])))"
proof -
  have cur: "cur_page q < 20" using wf_process_page(2) [OF assms(1) wf_programs_programs] .
  have len: "length (p_blocked q) = 20" using assms(1) by (simp add: wf_process_def)
  have old: "o_clock r < s_sysclock s"
    using assms(2,3) cur by (auto simp: job_history_def fresh_pages_def)
  have flags: "\<not> p_blocked q' ! k" if "k < 20" for k
    using assms(2,6) cur len that by (auto simp: job_history_def nth_list_update)
  show ?thesis
  proof (cases "o_event r = Blocked")
    case True
    then have "p_blocked q ! cur_page q" using assms(2) cur by (auto simp: job_history_def)
    then show ?thesis
      using assms(4,5,8) flags by (auto simp: job_history_def replay_def event_row_def)
  next
    case False
    then have "\<not> p_blocked q ! cur_page q" using assms(2) cur by (auto simp: job_history_def)
    then show ?thesis
      using assms(2,4,5,8) flags old False by (auto simp: job_history_def replay_def event_row_def)
  qed
qed

lemma job_step_history:
  assumes "wf_process programs q" and "p_active q" and "on_track q" and "job_history (s_sysclock s) q r"
    and "process_step programs q = Inr (True, q')"
  shows "job_history (s_sysclock s + 1) q' (last (r # process_step_rows programs s i q))"
proof -
  obtain k where k: "p_program q = Some k" "k < 5" "0 \<le> p_pc q" "p_pc q \<le> exit_address k"
    using assms(3) by (auto simp: on_track_def)
  note rows = process_step_rows_spec [OF assms(1,2) k(1) assms(3)]
  show ?thesis
  proof (cases "p_pages q ! cur_page q = 0")
    case False
    then show ?thesis
      using history_stalled [OF assms(1,4)] process_step_stalled [OF wf_programs_programs assms(1,2)] assms(5) rows by simp
  next
    case True
    have ne: "p_pc q < exit_address k" using at_exit [OF assms(1,2) True assms(3) k(1)] assms(5) k(4) by force
    have wrap: "wrap_step (programs ! k) (p_pc q + 1) = p_pc q + 1" "wrap_branch (programs ! k) (p_pc q + 1) = p_pc q + 1"
      using ne k size_table [OF k(2)] by (auto simp: wrap_step_def wrap_branch_def)
    have run: "process_step programs q = (case branch_taken (programs ! k) (p_pc q) of
        Some j \<Rightarrow> process_dobranch (programs ! k) (ticked q) j
      | None \<Rightarrow> Inr (True, (ticked q)\<lparr>p_pc := wrap_step (programs ! k) (p_pc q + 1)\<rparr>))"
      using process_step_running [OF wf_programs_programs assms(1,2) True k(1) refl] exits_table [OF k(2)] ne by simp
    show ?thesis
    proof (cases "branch_taken (programs ! k) (p_pc q)")
      case None
      then have q': "q' = (ticked q)\<lparr>p_pc := p_pc q + 1\<rparr>" using run assms(5) wrap(1) by simp
      have "job_history (s_sysclock s + 1) q' (last (r # (if p_blocked q ! cur_page q then [event_row s i q (p_pc q) Unblocked] else []) @
          (if (0::int) = 0 then [] else [event_row s i q (p_pc q) Branched_From, event_row s i q 0 Branched_To])))"
        by (rule history_ticked [OF assms(1,4) True]) (simp_all add: q' ticked_def)
      then show ?thesis using rows True ne None by simp
    next
      case (Some j)
      have g: "wf_program (programs ! k)" using wf_programs_programs k(2) by (simp add: wf_programs_def programs_def)
      obtain d :: int and c' where d: "bcontext_decide (p_bcontexts q ! nat j) = Inr (d, c')"
        "process_dobranch (programs ! k) (ticked q) j = Inr (True, (ticked q)\<lparr>p_bcontexts := (p_bcontexts q)[nat j := c'],
          p_pc := wrap_branch (programs ! k) (if d \<noteq> 0 then b_whereto (g_branches (programs ! k) ! nat j) else p_pc q + 1)\<rparr>)"
        using process_dobranch_spec [OF g Some, of "ticked q"] assms(1) by (auto simp: ticked_def wf_process_def)
      let ?to = "b_whereto (g_branches (programs ! k) ! nat j)"
      have "wrap_branch (programs ! k) ?to = ?to" by (rule wrap_inside [OF k(2) branch_target [OF k(2) Some]])
      then have q': "q' = (ticked q)\<lparr>p_bcontexts := (p_bcontexts q)[nat j := c'], p_pc := if d \<noteq> 0 then ?to else p_pc q + 1\<rparr>"
        using run assms(5) Some d(2) wrap(2) by simp
      have "job_history (s_sysclock s + 1) q' (last (r # (if p_blocked q ! cur_page q then [event_row s i q (p_pc q) Unblocked] else []) @
          (if d = 0 then [] else [event_row s i q (p_pc q) Branched_From, event_row s i q ?to Branched_To])))"
        by (rule history_ticked [OF assms(1,4) True]) (simp_all add: q' ticked_def)
      then show ?thesis using rows True ne Some dobranch_rows_spec [OF assms(1) k(2) Some d(1)] by (cases "d = 0") simp_all
    qed
  qed
qed

subsection \<open>The jobs in the queue have never been blocked\<close>

definition queue_clear :: "sim \<Rightarrow> bool" where
  "queue_clear s \<longleftrightarrow> (\<forall>j < QUEUESIZE. s_queueend s \<le> j \<longrightarrow> p_blocked (s_queue s ! j) = replicate MAXPROCPAGES False)"

lemma load_job_clears:
  assumes "load_job i s = Inr s'"
  shows "\<exists>q. s_queue s' = (s_queue s)[i := q] \<and> p_blocked q = replicate MAXPROCPAGES False"
  using assms by (auto simp: load_job_def process_load_def Let_def bindR_eq_Inr)

lemma load_jobs_clear:
  assumes "foldR load_job [0..<n] s = Inr s'" and "n \<le> length (s_queue s)"
  shows "length (s_queue s') = length (s_queue s) \<and> (\<forall>j < n. p_blocked (s_queue s' ! j) = replicate MAXPROCPAGES False)"
  using assms
proof (induction n arbitrary: s')
  case (Suc n)
  then obtain s1 where s1: "foldR load_job [0..<n] s = Inr s1" "load_job n s1 = Inr s'"
    by (auto simp: foldR_append bindR_eq_Inr)
  obtain q where "s_queue s' = (s_queue s1)[n := q]" "p_blocked q = replicate 20 False"
    using load_job_clears [OF s1(2)] by blast
  then show ?case using Suc.IH [OF s1(1)] Suc.prems(2) by (auto simp: nth_list_update less_Suc_eq)
qed simp

lemma fill_slots_queue: "s_queue (fold fill_slot xs s) = s_queue s"
  by (induction xs arbitrary: s) (simp_all add: fill_slot_def dequeue_def)

lemma allinit_blocked:
  assumes "allinit (static_sim procs seed) = Inr s"
  shows "\<forall>j < QUEUESIZE. p_blocked (s_queue s ! j) = replicate MAXPROCPAGES False"
proof -
  obtain s1 where s1: "foldR load_job [0..<40] (static_sim procs seed) = Inr s1" "s_queue s = s_queue s1"
    using assms by (auto simp: allinit_def initqueue_def bindR_eq_Inr fill_slots_queue simp del: upt_Suc)
  have "length (s_queue (static_sim procs seed)) = 40" by (simp add: static_sim_def)
  then show ?thesis using load_jobs_clear [OF s1(1)] s1(2) by simp
qed

lemma allinit_clear: "allinit (static_sim procs seed) = Inr s \<Longrightarrow> queue_clear s"
  using allinit_blocked by (simp add: queue_clear_def)

subsection \<open>The rows of a slot\<close>

lemma slot_rows_append [simp]: "slot_rows i (f @ g) = slot_rows i f @ slot_rows i g"
  and slot_rows_Nil [simp]: "slot_rows i [] = []"
  by (simp_all add: slot_rows_def)

lemma slot_rows_own: "list_all (\<lambda>r. o_slot r = int i) f \<Longrightarrow> slot_rows i' f = (if i' = i then f else [])"
  by (auto simp: slot_rows_def list_all_iff intro: filter_True)

lemma step_slot_events_slot: "list_all (\<lambda>r. o_slot r = int i) (step_slot_events i s)"
proof -
  have "list_all (\<lambda>r. o_slot r = int i) (dobranch_rows s i g q j)" for g q j
    by (simp add: dobranch_rows_def event_row_def split: sum.split)
  then have "list_all (\<lambda>r. o_slot r = int i) (process_step_rows programs s i q)" for q
    by (simp add: process_step_rows_def event_row_def Let_def split: sum.split option.split)
  then show ?thesis
    by (simp add: step_slot_events_def event_row_def split: option.split sum.split)
qed

lemma slot_rows_step: "slot_rows i' (step_slot_events i s) = (if i' = i then step_slot_events i s else [])"
  by (rule slot_rows_own [OF step_slot_events_slot])

subsection \<open>The history of the slots\<close>

definition slot_trace :: "int \<Rightarrow> sim \<Rightarrow> pc_row list \<Rightarrow> nat \<Rightarrow> bool" where
  "slot_trace c s f i \<longleftrightarrow> slot_rows i f \<noteq> [] \<and>
     (case job_at s i of None \<Rightarrow> o_event (last (slot_rows i f)) = Unloaded
      | Some q \<Rightarrow> job_history c q (last (slot_rows i f)))"

definition out_inv :: "sim \<Rightarrow> bool" where
  "out_inv s \<longleftrightarrow> run_inv s \<and> tracked s \<and> queue_clear s"

lemma job_at_put:
  assumes "run_inv s" and "i < s_procs s" and "s_processes s ! i = Some j" and "i' < s_procs s"
  shows "job_at (put_process j a q s) i' = (if i' = i then Some q else job_at s i')"
proof (cases "i' = i")
  case True
  then show ?thesis using run_inv_slot(6) [OF assms(1-3)] assms(3) by (simp add: job_at_def)
next
  case False
  have "sim_inv s" "i < 20" "i' < 20"
    using assms(1,2,4) run_inv_lengths(3) [OF assms(1)] by (simp_all add: run_inv_def)
  then have "s_processes s ! i' \<noteq> Some j" using sim_table_inj [of s i' i j] assms(3) False by auto
  then show ?thesis using False by (cases "s_processes s ! i'") (auto simp: job_at_def)
qed

lemma job_at_swap:
  assumes "run_inv s" and "i < s_procs s" and "s_processes s ! i = Some j" and "i' < s_procs s"
  shows "job_at (swap_slot i (fst (next_job s)) (snd (next_job s)) j a q s) i' =
    (if i' = i then (if queue_empty s then None else Some (s_queue s ! s_queueend s)) else job_at s i')"
proof (cases "i' = i")
  case True
  have "i < length (s_processes s)" using run_inv_lengths(2,3) [OF assms(1)] assms(2) by simp
  moreover have "s_queueend s \<noteq> j" using run_inv_slot(7) [OF assms(1-3)] by simp
  ultimately show ?thesis using True by (auto simp: job_at_def swap_slot_def next_job_def queue_empty_def)
next
  case False
  have "job_at (swap_slot i (fst (next_job s)) (snd (next_job s)) j a q s) i' = job_at (put_process j a q s) i'"
    using False by (cases "s_processes s ! i'") (simp_all add: job_at_def swap_slot_def)
  then show ?thesis using job_at_put [OF assms] False by simp
qed

subsection \<open>A step of a slot\<close>

lemma step_slot_trace_runs:
  assumes "out_inv s" and "i < s_procs s" and "s_processes s ! i = Some j" and "slot_trace (s_sysclock s) s f i"
    and "process_step programs (s_queue s ! j) = Inr (True, q)"
  shows "slot_trace (s_sysclock s + 1) (put_process j (s_pagesavail s) q s) (f @ step_slot_events i s) i"
proof -
  have inv: "run_inv s" "tracked s" using assms(1) by (simp_all add: out_inv_def)
  note slot = run_inv_slot [OF inv(1) assms(2,3)]
  have track: "on_track (s_queue s ! j)" using inv(2) slot(2) by (simp add: tracked_def)
  have old: "slot_rows i f \<noteq> []" "job_history (s_sysclock s) (s_queue s ! j) (last (slot_rows i f))"
    using assms(3,4) by (simp_all add: slot_trace_def job_at_def)
  have "step_slot_events i s = process_step_rows programs s i (s_queue s ! j)"
    using assms(3,5) by (simp add: step_slot_events_def step_process_def)
  then have "last (slot_rows i (f @ step_slot_events i s)) =
      last (last (slot_rows i f) # process_step_rows programs s i (s_queue s ! j))"
    using old(1) slot_rows_step [of i i s] by simp
  then show ?thesis
    using old(1) job_at_put [OF inv(1) assms(2,3,2)] job_step_history [OF slot(3,4) track old(2) assms(5)]
    by (simp add: slot_trace_def)
qed

lemma step_slot_trace_exits:
  assumes "out_inv s" and "i < s_procs s" and "s_processes s ! i = Some j" and "slot_trace c s f i"
    and "process_step programs (s_queue s ! j) = Inr (False, q)"
  shows "slot_trace (s_sysclock s + 1) (swap_slot i (fst (next_job s)) (snd (next_job s)) j a q' s) (f @ step_slot_events i s) i"
proof -
  have inv: "run_inv s" "queue_clear s" using assms(1) by (simp_all add: out_inv_def)
  note slot = run_inv_slot [OF inv(1) assms(2,3)]
  let ?s1 = "put_process j (s_pagesavail s) q s" and ?n = "s_queueend s"
  have "same_memory (s_queue s ! j) q"
    using process_step_wf [OF wf_programs_programs slot(3)] assms(5) by simp
  then have "active_at ?s1 i = Some j" using assms(3) slot(4,6) by (simp add: active_at_def same_memory_def)
  moreover have "s_queue ?s1 ! ?n = s_queue s ! ?n" using slot(7) by simp
  ultimately have rows: "step_slot_events i s = process_step_rows programs s i (s_queue s ! j) @
      [event_row ?s1 i q (p_pc q) Unloaded] @
      (if queue_empty s then [] else [event_row ?s1 i (s_queue s ! ?n) (p_pc (s_queue s ! ?n)) Loaded])"
    using assms(3,5) slot(6) by (simp add: step_slot_events_def step_process_def queue_empty_def)
  have new: "job_history (s_sysclock s + 1) (s_queue s ! ?n) (event_row ?s1 i (s_queue s ! ?n) (p_pc (s_queue s ! ?n)) Loaded)"
    if "\<not> queue_empty s"
  proof -
    have "?n < 40" using that by (simp add: queue_empty_def)
    then have "job_fresh ?n (s_queue s ! ?n)" "p_blocked (s_queue s ! ?n) = replicate 20 False"
      using inv by (auto simp: run_inv_def jobs_inv_def queue_clear_def)
    then show ?thesis by (simp add: job_history_def event_row_def replay_def)
  qed
  have own: "slot_rows i (f @ step_slot_events i s) = slot_rows i f @ step_slot_events i s"
    using slot_rows_step [of i i s] by simp
  have "o_event (event_row ?s1 i q (p_pc q) Unloaded) = Unloaded" by (simp add: event_row_def)
  then show ?thesis
    unfolding slot_trace_def own unfolding rows using job_at_swap [OF inv(1) assms(2,3,2), of a q'] new
    by (cases "queue_empty s") simp_all
qed

lemma queue_clear_put: "queue_clear s \<Longrightarrow> j < s_queueend s \<Longrightarrow> queue_clear (put_process j a q s)"
  by (auto simp: queue_clear_def nth_list_update)

lemma queue_clear_swap:
  assumes "queue_clear s" and "j < s_queueend s"
  shows "queue_clear (swap_slot i p (snd (next_job s)) j a q s)"
  using queue_clear_put [OF assms, of a q] by (auto simp: queue_clear_def swap_slot_def next_job_def)

lemma step_slot_trace:
  assumes "out_inv s" and "i < s_procs s" and "slot_trace (s_sysclock s) s f i"
    and "\<forall>i' < s_procs s. i' \<noteq> i \<longrightarrow> slot_trace (c i') s f i'"
  shows "okR (step_slot_out i (s, f)) (\<lambda>(s', f'). out_inv s' \<and> s_procs s' = s_procs s \<and> s_sysclock s' = s_sysclock s
    \<and> slot_trace (s_sysclock s + 1) s' f' i \<and> (\<forall>i' < s_procs s. i' \<noteq> i \<longrightarrow> slot_trace (c i') s' f' i'))"
proof -
  have inv: "run_inv s" "tracked s" "queue_clear s" using assms(1) by (simp_all add: out_inv_def)
  obtain s' where s': "step_slot i s = Inr s'" "run_inv s'" "slot_stepped i s s'" "tracked s'"
    using step_slot_inv [OF inv(1) assms(2)] step_slot_outcome [OF inv(1) assms(2) inv(2)] by (auto simp: okR_iff)
  have frame: "s_procs s' = s_procs s" "s_sysclock s' = s_sysclock s" using s'(3) by (simp_all add: slot_stepped_def)
  have "queue_clear s' \<and> slot_trace (s_sysclock s + 1) s' (f @ step_slot_events i s) i
      \<and> (\<forall>i' < s_procs s. i' \<noteq> i \<longrightarrow> job_at s' i' = job_at s i')"
  proof (cases "s_processes s ! i")
    case None
    then have same: "s' = s" "queue_empty s"
      using step_slot_empty [OF inv(1) assms(2) None] s'(1) inv(1) assms(2) by (auto simp: run_inv_def jobs_inv_def)
    then have "step_slot_events i s = []"
      using None by (simp add: step_slot_events_def step_process_def active_at_def)
    then show ?thesis using same inv(3) assms(3) None by (simp add: slot_trace_def job_at_def)
  next
    case (Some j)
    note slot = run_inv_slot [OF inv(1) assms(2) Some]
    obtain r q where step: "process_step programs (s_queue s ! j) = Inr (r, q)"
      using process_step_wf [OF wf_programs_programs slot(3)] by (auto simp: okR_iff)
    show ?thesis
    proof (cases r)
      case True
      then have e: "s' = put_process j (s_pagesavail s) q s" using step_slot_runs [OF inv(1) assms(2) Some] step s'(1) by simp
      show ?thesis
        using step_slot_trace_runs [OF assms(1,2) Some assms(3)] step True queue_clear_put [OF inv(3) slot(7)]
          job_at_put [OF inv(1) assms(2) Some]
        by (simp add: e)
    next
      case False
      obtain a q' where e: "s' = swap_slot i (fst (next_job s)) (snd (next_job s)) j a q' s"
        using step_slot_exits [OF inv(1) assms(2) Some, of q] step False s'(1) by auto
      show ?thesis
        using step_slot_trace_exits [OF assms(1,2) Some assms(3)] step False queue_clear_swap [OF inv(3) slot(7)]
          job_at_swap [OF inv(1) assms(2) Some]
        by (simp add: e)
    qed
  qed
  then have fin: "queue_clear s'" "slot_trace (s_sysclock s + 1) s' (f @ step_slot_events i s) i"
    and same: "\<And>i'. i' < s_procs s \<Longrightarrow> i' \<noteq> i \<Longrightarrow> job_at s' i' = job_at s i'" by blast+
  have "slot_trace (c i') s' (f @ step_slot_events i s) i'" if i': "i' < s_procs s" "i' \<noteq> i" for i'
  proof -
    have eq: "slot_rows i' (f @ step_slot_events i s) = slot_rows i' f" using i'(2) slot_rows_step [of i' i s] by simp
    have "slot_trace (c i') s f i'" using assms(4) i' by blast
    then show ?thesis unfolding slot_trace_def same [OF i'] eq .
  qed
  then show ?thesis using s' frame fin by (simp add: step_slot_out_def out_inv_def)
qed

text \<open>No row is from the future.\<close>

definition rows_until :: "int \<Rightarrow> pc_row list \<Rightarrow> bool" where
  "rows_until c f \<longleftrightarrow> list_all (\<lambda>r. o_clock r \<le> c) f"

lemma step_slot_events_clock: "rows_until (s_sysclock s) (step_slot_events i s)"
proof -
  have "rows_until (s_sysclock s) (dobranch_rows s i g q j)" for g q j
    by (simp add: dobranch_rows_def event_row_def rows_until_def split: sum.split)
  then have rows: "rows_until (s_sysclock s) (process_step_rows programs s i q)" for q
    by (simp add: process_step_rows_def event_row_def rows_until_def Let_def split: sum.split option.split)
  show ?thesis
  proof (cases "step_process i s")
    case (Inl e)
    then show ?thesis using rows by (simp add: step_slot_events_def rows_until_def split: option.split)
  next
    case (Inr c)
    obtain r s1 where c: "c = (r, s1)" by (cases c)
    have "s_sysclock s1 = s_sysclock s"
      using Inr c by (auto simp: step_process_def bindR_eq_Inr split: option.splits)
    then show ?thesis using rows Inr c by (simp add: step_slot_events_def event_row_def rows_until_def split: option.split)
  qed
qed

lemma allstep_trace:
  assumes "out_inv s" and "\<forall>i < s_procs s. slot_trace (s_sysclock s) s f i" and "rows_until (s_sysclock s) f"
  shows "okR (foldR step_slot_out [0..<s_procs s] (s, f)) (\<lambda>(s', f'). out_inv s' \<and> s_procs s' = s_procs s
    \<and> s_sysclock s' = s_sysclock s \<and> rows_until (s_sysclock s) f' \<and> (\<forall>i < s_procs s. slot_trace (s_sysclock s + 1) s' f' i))"
proof -
  let ?c = "\<lambda>n i. if i < n then s_sysclock s + 1 else s_sysclock s"
  let ?I = "\<lambda>n (s', f'). out_inv s' \<and> s_procs s' = s_procs s \<and> s_sysclock s' = s_sysclock s
    \<and> rows_until (s_sysclock s) f' \<and> (\<forall>i < s_procs s. slot_trace (?c n i) s' f' i)"
  have "okR (foldR step_slot_out [0..<s_procs s] (s, f)) (?I (s_procs s))"
  proof (rule okR_foldR_upt [where I = ?I])
    fix n and c :: "sim \<times> pc_row list"
    assume n: "n < s_procs s" and I: "?I n c"
    obtain s' f' where c: "c = (s', f')" by (cases c)
    have inv: "out_inv s'" "s_procs s' = s_procs s" "s_sysclock s' = s_sysclock s"
      "\<forall>i < s_procs s. slot_trace (?c n i) s' f' i" "rows_until (s_sysclock s) f'" using I c by simp_all
    have "slot_trace (?c n n) s' f' n" using inv(4) n by blast
    then have own: "slot_trace (s_sysclock s') s' f' n" using inv(3) by simp
    have "\<forall>i < s_procs s'. i \<noteq> n \<longrightarrow> slot_trace (?c (Suc n) i) s' f' i" using inv by (auto simp: less_Suc_eq)
    from step_slot_trace [OF inv(1) _ own this]
    have "okR (step_slot_out n (s', f')) (\<lambda>(s'', f''). out_inv s'' \<and> s_procs s'' = s_procs s' \<and> s_sysclock s'' = s_sysclock s'
        \<and> slot_trace (s_sysclock s' + 1) s'' f'' n \<and> (\<forall>i < s_procs s'. i \<noteq> n \<longrightarrow> slot_trace (?c (Suc n) i) s'' f'' i))"
      using n inv(2) by simp
    then obtain s'' f'' where step: "step_slot_out n (s', f') = Inr (s'', f'')" "out_inv s''" "s_procs s'' = s_procs s'"
        "s_sysclock s'' = s_sysclock s'" "slot_trace (s_sysclock s' + 1) s'' f'' n"
        "\<forall>i < s_procs s'. i \<noteq> n \<longrightarrow> slot_trace (?c (Suc n) i) s'' f'' i"
      by (auto simp: okR_iff)
    have "rows_until (s_sysclock s) f''"
      using step(1) inv(3,5) step_slot_events_clock [of s' n] by (auto simp: step_slot_out_def bindR_eq_Inr rows_until_def)
    have "slot_trace (?c (Suc n) i) s'' f'' i" if "i < s_procs s" for i
      using step(5,6) inv(2,3) that by (cases "i = n") simp_all
    then show "okR (step_slot_out n c) (?I (Suc n))"
      unfolding c step(1) using step(2-4) \<open>rows_until (s_sysclock s) f''\<close> inv(2,3) by simp
  qed (use assms in simp_all)
  then show ?thesis by (rule okR_mono) auto
qed

subsection \<open>The rest of a tick\<close>

text \<open>Aging and paging change nothing of a process but its pages.\<close>

definition only_pages :: "sim \<Rightarrow> sim \<Rightarrow> bool" where
  "only_pages s s' \<longleftrightarrow> s_processes s' = s_processes s \<and> s_queueend s' = s_queueend s \<and>
     (\<forall>j < QUEUESIZE. s_queue s' ! j = (s_queue s ! j)\<lparr>p_pages := p_pages (s_queue s' ! j)\<rparr>)"

lemma only_pages_refl [simp]: "only_pages s s"
  by (simp add: only_pages_def)

lemma only_pages_trans:
  assumes "only_pages s s'" and "only_pages s' s''"
  shows "only_pages s s''"
proof -
  have "s_queue s'' ! j = (s_queue s ! j)\<lparr>p_pages := p_pages (s_queue s'' ! j)\<rparr>" if "j < 40" for j
  proof -
    have a: "s_queue s'' ! j = (s_queue s' ! j)\<lparr>p_pages := p_pages (s_queue s'' ! j)\<rparr>"
      and b: "s_queue s' ! j = (s_queue s ! j)\<lparr>p_pages := p_pages (s_queue s' ! j)\<rparr>"
      using assms that unfolding only_pages_def by blast+
    show ?thesis by (subst a, subst b) simp
  qed
  then show ?thesis using assms unfolding only_pages_def by simp
qed

lemma only_pages_put: "only_pages s (put_process j a ((s_queue s ! j)\<lparr>p_pages := pg\<rparr>) s)"
  by (cases "j < length (s_queue s)") (auto simp: only_pages_def nth_list_update list_update_beyond not_less)

lemma only_pages_pageouts [simp]: "only_pages s (s'\<lparr>s_pageouts := ps\<rparr>) = only_pages s s'"
  by (simp add: only_pages_def)

lemma only_pages_call:
  assumes "paging_call s s'"
  shows "only_pages s s'"
proof -
  have out: "only_pages s (put_process j a ((s_queue s ! j)\<lparr>p_pages := pg\<rparr>) (s\<lparr>s_pageouts := ps\<rparr>))" for j a pg ps
    using only_pages_put [of s j a pg] by (auto simp: only_pages_def put_process_def)
  have "only_pages s (snd (pagein i p s))" "only_pages s (snd (pageout i p s))" for i p
    by (auto simp: pagein_def pageout_def Let_def only_pages_put out split: option.split)
  then show ?thesis using assms by (auto elim!: paging_callE)
qed

lemma only_pages_calls: "paging_call\<^sup>*\<^sup>* s s' \<Longrightarrow> only_pages s s'"
  by (induction rule: rtranclp_induct) (auto intro: only_pages_trans only_pages_call)

lemma only_pages_allage: "run_inv s \<Longrightarrow> only_pages s (allage s)"
  using allage_frame [of s] allage_queueend [of s] allage_queue [of s]
  by (auto simp: only_pages_def run_inv_def aged_def)

lemma only_pages_kept:
  assumes "only_pages s s'" and "run_inv s"
  shows "tracked s \<Longrightarrow> tracked s'" and "queue_clear s \<Longrightarrow> queue_clear s'"
proof -
  have q: "p_program (s_queue s' ! j) = p_program (s_queue s ! j) \<and> p_pc (s_queue s' ! j) = p_pc (s_queue s ! j)
      \<and> p_blocked (s_queue s' ! j) = p_blocked (s_queue s ! j)" if "j < 40" for j
  proof -
    have "s_queue s' ! j = (s_queue s ! j)\<lparr>p_pages := p_pages (s_queue s' ! j)\<rparr>" using assms(1) that by (simp add: only_pages_def)
    then show ?thesis by (metis process.select_convs process.surjective process.update_convs(6))
  qed
  show "tracked s \<Longrightarrow> tracked s'" "queue_clear s \<Longrightarrow> queue_clear s'"
    using q assms(1) by (simp_all add: tracked_def on_track_def queue_clear_def only_pages_def)
qed

lemma only_pages_trace:
  assumes "only_pages s s'" and "run_inv s" and "i < s_procs s" and "slot_trace (c + 1) s f i" and "rows_until c f"
  shows "slot_trace (c + 1) s' f i"
proof (cases "s_processes s ! i")
  case None
  then show ?thesis using assms(1,4) by (simp add: slot_trace_def job_at_def only_pages_def)
next
  case (Some j)
  let ?r = "last (slot_rows i f)" and ?q = "s_queue s ! j" and ?pg = "p_pages (s_queue s' ! j)"
  have "j < 40" using run_inv_slot(2) [OF assms(2,3) Some] .
  then have q: "s_queue s' ! j = ?q\<lparr>p_pages := ?pg\<rparr>" using assms(1) by (simp add: only_pages_def)
  have h: "slot_rows i f \<noteq> []" "job_history (c + 1) ?q ?r" using assms(4) Some by (simp_all add: slot_trace_def job_at_def)
  have "?r \<in> set f" using last_in_set [OF h(1)] by (simp add: slot_rows_def)
  then have "o_clock ?r \<le> c" using assms(5) by (simp add: rows_until_def list_all_iff)
  then have "job_history (c + 1) (?q\<lparr>p_pages := ?pg\<rparr>) ?r" using h(2) by (simp add: job_history_def cur_page_def)
  then have "job_history (c + 1) (s_queue s' ! j) ?r" by (subst q)
  then show ?thesis using h(1) assms(1) Some by (simp add: slot_trace_def job_at_def only_pages_def)
qed

lemma out_tick_trace:
  assumes "out_tick (s, f) (s', f')" and "out_inv s" and "\<forall>i < s_procs s. slot_trace (s_sysclock s) s f i"
    and "rows_until (s_sysclock s) f"
  shows "out_inv s' \<and> s_procs s' = s_procs s \<and> rows_until (s_sysclock s') f' \<and> (\<forall>i < s_procs s. slot_trace (s_sysclock s') s' f' i)"
  using assms(1)
proof (cases rule: out_tick.cases)
  case (tick_out s1 s2)
  have s1: "out_inv s1" "s_procs s1 = s_procs s" "s_sysclock s1 = s_sysclock s" "rows_until (s_sysclock s) f'"
    "\<forall>i < s_procs s. slot_trace (s_sysclock s + 1) s1 f' i"
    using allstep_trace [OF assms(2-4)] tick_out(2) by simp_all
  have inv: "run_inv s1" "tracked s1" "queue_clear s1" using s1(1) by (simp_all add: out_inv_def)
  let ?a = "(allage s1)\<lparr>s_pageouts := replicate MAXPROCESSES 0\<rparr>"
  have a: "run_inv ?a" "s_sysclock ?a = s_sysclock s" "s_procs ?a = s_procs s" "only_pages s1 ?a"
    using run_inv_allage [OF inv(1)] run_inv_pageouts work_allage(2) [OF inv(1)] allage_frame [of s1] only_pages_allage [OF inv(1)]
      inv(1) s1(2,3)
    by (simp_all add: run_inv_def)
  have "sim_inv ?a" using a(1) by (simp add: run_inv_def)
  then have s2: "run_inv s2" "s_sysclock s2 = s_sysclock s" "s_procs s2 = s_procs s" "only_pages s1 s2"
    using run_inv_paging_calls [OF tick_out(3) a(1)] work_paging_calls [OF tick_out(3) a(1)] paging_calls_inv [OF tick_out(3)]
      only_pages_trans [OF a(4) only_pages_calls [OF tick_out(3)]] a(2,3)
    by (simp_all add: same_table_def)
  have "out_inv s'" using s2(1) only_pages_kept [OF s2(4) inv(1)] inv
    by (simp add: tick_out(1) out_inv_def run_inv_sysclock tracked_def queue_clear_def)
  moreover have "slot_trace (s_sysclock s + 1) s' f' i" if "i < s_procs s" for i
    using only_pages_trace [OF s2(4) inv(1), of i "s_sysclock s" f'] s1(2,4,5) that
    by (simp add: tick_out(1) slot_trace_def job_at_def)
  moreover have "rows_until (s_sysclock s + 1) f'" using s1(4) by (auto simp: rows_until_def list_all_iff)
  ultimately show ?thesis using s2(2,3) by (simp add: tick_out(1))
qed

lemma start_trace:
  assumes "procs \<le> MAXPROCESSES" and "allinit (static_sim procs seed) = Inr s"
  shows "out_inv s \<and> s_procs s = procs \<and> rows_until (s_sysclock s) (allinit_events s)
    \<and> (\<forall>i < procs. slot_trace (s_sysclock s) s (allinit_events s) i)"
proof -
  have s: "run_inv s" "started procs s" using allinit_started [OF assms(1), of seed] assms(2) by simp_all
  have procs: "s_procs s = procs" using s(2) by (simp add: started_def)
  have "tracked s" using s(2) fresh_on_track by (auto simp: tracked_def started_def queue_loaded_def job_fresh_def)
  then have inv: "out_inv s" using s(1) allinit_clear [OF assms(2)] by (simp add: out_inv_def)
  have slot: "s_processes s ! i = Some i" "job_fresh i (s_queue s ! i)" if "i < procs" for i
    using s(2) that assms(1) by (auto simp: started_def nth_append queue_loaded_def)
  have own: "slot_rows i (allinit_events s) = [event_row s i (s_queue s ! i) (p_pc (s_queue s ! i)) Loaded]" if i: "i < procs" for i
  proof -
    have one: "slot_rows i [event_row s n q pc e] = (if i = n then [event_row s n q pc e] else [])" for n q pc e
      by (simp add: slot_rows_def event_row_def)
    have "slot_rows i (concat (map (\<lambda>i. case s_processes s ! i of None \<Rightarrow> []
          | Some j \<Rightarrow> [event_row s i (s_queue s ! j) (p_pc (s_queue s ! j)) Loaded]) [0..<n])) =
        (if i < n then [event_row s i (s_queue s ! i) (p_pc (s_queue s ! i)) Loaded] else [])" if "n \<le> procs" for n
      using that
    proof (induction n)
      case (Suc n)
      then show ?case using slot(1) [of n] by (auto simp: one less_Suc_eq)
    qed simp
    then show ?thesis using i procs by (simp add: allinit_events_def)
  qed
  have "rows_until (s_sysclock s) (allinit_events s)"
    by (auto simp: rows_until_def allinit_events_def event_row_def list_all_iff split: option.split)
  moreover have "slot_trace (s_sysclock s) s (allinit_events s) i" if "i < procs" for i
  proof -
    have "p_blocked (s_queue s ! i) = replicate 20 False" using allinit_blocked [OF assms(2)] that assms(1) by simp
    then show ?thesis
      using own [OF that] slot [OF that]
      by (simp add: slot_trace_def job_at_def job_history_def event_row_def replay_def job_fresh_def)
  qed
  ultimately show ?thesis using inv procs by simp
qed

lemma out_run_trace:
  assumes "out_run procs seed c" and "procs \<le> MAXPROCESSES"
  shows "case c of (s, f) \<Rightarrow> out_inv s \<and> s_procs s = procs \<and> rows_until (s_sysclock s) f
    \<and> (\<forall>i < procs. slot_trace (s_sysclock s) s f i)"
  using assms(1)
proof (induction rule: out_run.induct)
  case (out_init s)
  then show ?case using start_trace [OF assms(2)] by simp
next
  case (out_next c c')
  then show ?case using out_tick_trace [of "fst c" "snd c" "fst c'" "snd c'"] by (cases c; cases c') simp
qed


subsection \<open>Simulations write such files\<close>

lemma steps_with_out: "foldR step_slot is s = Inr s' \<Longrightarrow> \<exists>f'. foldR step_slot_out is (s, f) = Inr (s', f')"
proof (induction "is" arbitrary: s f)
  case (Cons i "is")
  then obtain s1 where "step_slot i s = Inr s1" "foldR step_slot is s1 = Inr s'" by (auto simp: bindR_eq_Inr)
  then show ?case using Cons.IH [of s1 "f @ step_slot_events i s"] by (simp add: step_slot_out_def)
qed simp

context pager begin

lemma sim_tick_out:
  assumes "run_inv s" and "ok m" and "sim_tick pageit (m, s) = Inr (m', s')"
  shows "\<exists>f'. out_tick (s, f) (s', f')"
proof -
  obtain s1 where s1: "allstep s = Inr s1" "run_inv s1" using allstep_inv [OF assms(1)] by (auto simp: okR_iff)
  let ?s2 = "(allage s1)\<lparr>s_pageouts := replicate MAXPROCESSES 0\<rparr>"
  have s2: "run_inv ?s2" using run_inv_allage [OF s1(2)] run_inv_pageouts by auto
  obtain m3 s3 where s3: "pageit (entries_of ?s2) m ?s2 = Inr (m3, s3)" "paging_call\<^sup>*\<^sup>* ?s2 s3"
    using pageit_calls [OF s2 assms(2)] by (auto simp: okR_iff)
  have s': "s' = s3\<lparr>s_sysclock := s_sysclock s3 + 1\<rparr>"
    using assms(3) s1(1) s3(1)
    by (auto simp: sim_tick_def callyou_def snapshot_spec [OF run_inv_allage [OF s1(2)]] Let_def bindR_eq_Inr)
  obtain f1 where "foldR step_slot_out [0..<s_procs s] (s, f) = Inr (s1, f1)"
    using steps_with_out s1(1) unfolding allstep_def by blast
  then show ?thesis unfolding s' using s3(2) by (blast intro: tick_out)
qed

lemma run_loop_out:
  assumes "out_run procs seed (s, f)" and "procs \<le> MAXPROCESSES" and "ok m" and "run_loop pageit n (m, s) = Inr (m', s')"
  shows "\<exists>f'. out_run procs seed (s', f')"
  using assms(1,3,4)
proof (induction n arbitrary: m s f)
  case (Suc n)
  show ?case
  proof (cases "alldone s")
    case False
    have s: "run_inv s" using out_run_trace [OF Suc.prems(1) assms(2)] by (simp add: out_inv_def)
    obtain m1 s1 where t: "sim_tick pageit (m, s) = Inr (m1, s1)" "ok m1"
      using sim_tick_inv [OF s Suc.prems(2)] by (auto simp: okR_iff)
    obtain f1 where "out_tick (s, f) (s1, f1)" using sim_tick_out [OF s Suc.prems(2) t(1)] by blast
    then have "out_run procs seed (s1, f1)" by (rule out_next [OF Suc.prems(1)])
    then show ?thesis using Suc.IH t Suc.prems(3) False by simp
  qed (use Suc.prems in auto)
qed auto

lemma simulate_out:
  assumes "procs \<le> MAXPROCESSES" and "ok m" and "simulate pageit m procs seed n = Inr (m', s')"
  shows "\<exists>f. out_run procs seed (s', f)"
proof -
  obtain s where "allinit (static_sim procs seed) = Inr s" "run_loop pageit n (m, s) = Inr (m', s')"
    using assms(3) by (auto simp: simulate_def bindR_eq_Inr)
  then show ?thesis using run_loop_out [OF out_init assms(1,2)] by blast
qed

end

text \<open>C11: The file tells where every program is: after any number of ticks, whatever the pager does, the last row of a
  slot with no job is \<open>unload\<close>; the last row of any other names its job, the program counter of the job is the one
  that \<open>replay\<close> counts on from that row, and the job is marked blocked on the page of its program counter exactly if
  the row is \<open>blocked\<close>.\<close>

theorem output_file_gives_program_counters:
  assumes "out_run procs seed (s, f)" and "procs \<le> MAXPROCESSES" and "i < procs"
  shows "slot_rows i f \<noteq> [] \<and>
    (case job_at s i of None \<Rightarrow> o_event (last (slot_rows i f)) = Unloaded
     | Some q \<Rightarrow> o_pid (last (slot_rows i f)) = p_pid q \<and> o_kind (last (slot_rows i f)) = p_kind q
         \<and> p_pc q = replay (s_sysclock s) (last (slot_rows i f))
         \<and> (p_blocked q ! cur_page q \<longleftrightarrow> o_event (last (slot_rows i f)) = Blocked))"
proof -
  have s: "run_inv s" "s_procs s = procs" "slot_trace (s_sysclock s) s f i"
    using out_run_trace [OF assms(1,2)] assms(3) by (simp_all add: out_inv_def)
  show ?thesis
  proof (cases "s_processes s ! i")
    case (Some j)
    have "cur_page (s_queue s ! j) < 20"
      using run_inv_slot(3) [OF s(1) _ Some] assms(3) s(2) wf_process_page(2) [OF _ wf_programs_programs] by blast
    then show ?thesis using s(3) Some by (auto simp: slot_trace_def job_at_def job_history_def)
  qed (use s(3) in \<open>simp add: slot_trace_def job_at_def\<close>)
qed

theorem output_file_gives_program_counters_witness:
  "\<exists>s f. simulate basic_pageit () 4 512 300 = Inr ((), s) \<and> out_run 4 512 (s, f) \<and> slot_rows 0 f \<noteq> []
    \<and> (\<forall>q. job_at s 0 = Some q \<longrightarrow> p_pc q = replay (s_sysclock s) (last (slot_rows 0 f)))"
proof -
  obtain s where s: "simulate basic_pageit () 4 512 300 = Inr ((), s)"
    using basic.simulate_inv [of 4 "()" 512 300] by (auto simp: okR_iff)
  then obtain f where f: "out_run 4 512 (s, f)" using basic.simulate_out by fastforce
  then show ?thesis using output_file_gives_program_counters [of 4 512 s f 0] s by auto
qed
end
