(* ===== verification/Ring_Array.thy ===== *)
theory Ring_Array
  imports Prelude
begin

text \<open>
  The shared circular array of \<open>assignments/pa4\<close>: \<open>array.c\<close>, with its three semaphores, and the
  threads of \<open>test.c\<close> that use it. \<open>array_put\<close> and \<open>array_get\<close> are first given as whole calls, which
  refine a bounded FIFO queue when they do not overlap (locale \<open>bounded_fifo\<close>); then each call is
  cut into its atomic steps, \<open>ring_step\<close> interleaves the steps of any number of threads, and the
  invariants and the races of that relation are proved.
\<close>

abbreviation (input) ARRAY_SIZE :: nat where "ARRAY_SIZE \<equiv> 8"
abbreviation (input) MAX_NAME_LENGTH :: nat where "MAX_NAME_LENGTH \<equiv> 18"

subsection \<open>State\<close>

record ring =
  r_arr :: "string option list"
  r_head :: int
  r_tail :: int
  r_mutex :: nat
  r_full :: nat
  r_empty :: nat

text \<open>Semaphore operations; \<open>sem_wait\<close> on 0 blocks, which is \<open>None\<close>.\<close>

definition wait_mutex :: "ring \<Rightarrow> ring option" where
  "wait_mutex s = (if r_mutex s > 0 then Some (s\<lparr>r_mutex := r_mutex s - 1\<rparr>) else None)"

definition wait_full :: "ring \<Rightarrow> ring option" where
  "wait_full s = (if r_full s > 0 then Some (s\<lparr>r_full := r_full s - 1\<rparr>) else None)"

definition wait_empty :: "ring \<Rightarrow> ring option" where
  "wait_empty s = (if r_empty s > 0 then Some (s\<lparr>r_empty := r_empty s - 1\<rparr>) else None)"

definition post_mutex :: "ring \<Rightarrow> ring" where "post_mutex s = s\<lparr>r_mutex := r_mutex s + 1\<rparr>"
definition post_full :: "ring \<Rightarrow> ring" where "post_full s = s\<lparr>r_full := r_full s + 1\<rparr>"
definition post_empty :: "ring \<Rightarrow> ring" where "post_empty s = s\<lparr>r_empty := r_empty s + 1\<rparr>"

definition synchronize_init :: "ring \<Rightarrow> ring" where
  "synchronize_init s = s\<lparr>r_mutex := 1, r_full := 0, r_empty := ARRAY_SIZE\<rparr>"

text \<open>The buffer of a slot.\<close>

definition slot_at :: "ring \<Rightarrow> int \<Rightarrow> string res" where
  "slot_at s i = bindR (idx (r_arr s) i) (\<lambda>p. case p of None \<Rightarrow> Inl Null_Deref | Some buf \<Rightarrow> Inr buf)"

subsection \<open>Whole calls\<close>

text \<open>\<open>array_init\<close>; \<open>ok i\<close> says whether the \<open>i\<close>-th \<open>malloc\<close> succeeds. A failure returns with the
  mutex taken.\<close>

definition init_slot :: "(nat \<Rightarrow> bool) \<Rightarrow> nat \<Rightarrow> int \<times> ring \<Rightarrow> (int \<times> ring) flow res" where
  "init_slot ok i = (\<lambda>(ret, s).
     Inr (if ok i then Next (0, s\<lparr>r_arr := (r_arr s)[i := Some (replicate MAX_NAME_LENGTH NUL)]\<rparr>)
          else Break (-1, s)))"

definition array_init :: "(nat \<Rightarrow> bool) \<Rightarrow> ring \<Rightarrow> (int \<times> ring) res option" where
  "array_init ok s =
     (case wait_mutex (synchronize_init s) of None \<Rightarrow> None
      | Some s \<Rightarrow>
          let s = s\<lparr>r_head := 0, r_tail := 0\<rparr> in
          Some (bindR (loopR (init_slot ok) [0..<ARRAY_SIZE] (0, s)) (\<lambda>(ret, s).
            Inr (if ret = -1 then (-1, s) else (0, post_mutex s)))))"

definition array_put :: "ring \<Rightarrow> string \<Rightarrow> (int \<times> ring) res option" where
  "array_put s hostname =
     (case wait_empty s of None \<Rightarrow> None
      | Some s \<Rightarrow> case wait_mutex s of None \<Rightarrow> None
      | Some s \<Rightarrow>
          Some (if c_strlen hostname \<ge> MAX_NAME_LENGTH then Inr (-1, s)
          else
            let num_items = int (r_full s);
                s = s\<lparr>r_tail := (r_head s + num_items) smod int ARRAY_SIZE\<rparr> in
            bindR (slot_at s (r_tail s)) (\<lambda>buf.
            bindR (c_strncpy buf hostname (MAX_NAME_LENGTH - 1)) (\<lambda>buf'.
            let s = s\<lparr>r_arr := (r_arr s)[nat (r_tail s) := Some buf']\<rparr> in
            Inr (0, post_full (post_mutex s))))))"

text \<open>\<open>array_get\<close>; the argument is the buffer \<open>*hostname\<close>, \<open>None\<close> for a NULL \<open>hostname\<close>.\<close>

definition array_get :: "ring \<Rightarrow> string option \<Rightarrow> (int \<times> string option \<times> ring) res option" where
  "array_get s hostname =
     (case wait_full s of None \<Rightarrow> None
      | Some s \<Rightarrow> case wait_mutex s of None \<Rightarrow> None
      | Some s \<Rightarrow>
          Some (bindR (slot_at s (r_head s)) (\<lambda>host.
          case hostname of None \<Rightarrow> Inr (-1, None, s)
          | Some dst \<Rightarrow>
              bindR (c_strncpy dst host (MAX_NAME_LENGTH - 1)) (\<lambda>dst'.
              let s = s\<lparr>r_head := (r_head s + 1) smod int ARRAY_SIZE\<rparr> in
              Inr (0, Some dst', post_empty (post_mutex s))))))"

definition array_free :: "ring \<Rightarrow> ring option" where
  "array_free s =
     (case wait_mutex s of None \<Rightarrow> None
      | Some s \<Rightarrow> Some (post_mutex (s\<lparr>r_arr := map (\<lambda>_. None) (r_arr s)\<rparr>)))"

text \<open>\<open>synchronize_free\<close> destroys the semaphores; the state has no further use then.\<close>

subsection \<open>The steps of a call\<close>

text \<open>Where a thread is in a call. \<open>Failed\<close> is a return of -1, which keeps what the call has taken.\<close>

datatype loc =
    Put_Start string | Put_Lock string | Put_Count string | Put_Copy string | Put_Unlock | Put_Post | Put_Done
  | Get_Start "string option" | Get_Lock "string option" | Get_Copy "string option" | Get_Advance string
  | Get_Unlock string | Get_Post string | Get_Done string
  | Failed

fun step_loc :: "loc \<Rightarrow> ring \<Rightarrow> (loc \<times> ring) res option" where
  "step_loc (Put_Start h) s = map_option (\<lambda>s. Inr (Put_Lock h, s)) (wait_empty s)"
| "step_loc (Put_Lock h) s =
     map_option (\<lambda>s. Inr (if c_strlen h \<ge> MAX_NAME_LENGTH then Failed else Put_Count h, s)) (wait_mutex s)"
| "step_loc (Put_Count h) s =
     Some (Inr (Put_Copy h, s\<lparr>r_tail := (r_head s + int (r_full s)) smod int ARRAY_SIZE\<rparr>))"
| "step_loc (Put_Copy h) s =
     Some (bindR (slot_at s (r_tail s)) (\<lambda>buf.
           bindR (c_strncpy buf h (MAX_NAME_LENGTH - 1)) (\<lambda>buf'.
           Inr (Put_Unlock, s\<lparr>r_arr := (r_arr s)[nat (r_tail s) := Some buf']\<rparr>))))"
| "step_loc Put_Unlock s = Some (Inr (Put_Post, post_mutex s))"
| "step_loc Put_Post s = Some (Inr (Put_Done, post_full s))"
| "step_loc (Get_Start dst) s = map_option (\<lambda>s. Inr (Get_Lock dst, s)) (wait_full s)"
| "step_loc (Get_Lock dst) s = map_option (\<lambda>s. Inr (Get_Copy dst, s)) (wait_mutex s)"
| "step_loc (Get_Copy dst) s =
     Some (bindR (slot_at s (r_head s)) (\<lambda>host.
           case dst of None \<Rightarrow> Inr (Failed, s)
           | Some d \<Rightarrow> bindR (c_strncpy d host (MAX_NAME_LENGTH - 1)) (\<lambda>d'. Inr (Get_Advance d', s))))"
| "step_loc (Get_Advance d) s = Some (Inr (Get_Unlock d, s\<lparr>r_head := (r_head s + 1) smod int ARRAY_SIZE\<rparr>))"
| "step_loc (Get_Unlock d) s = Some (Inr (Get_Post d, post_mutex s))"
| "step_loc (Get_Post d) s = Some (Inr (Get_Done d, post_empty s))"
| "step_loc Put_Done s = None"
| "step_loc (Get_Done d) s = None"
| "step_loc Failed s = None"

text \<open>A call without interruption: its steps one after the other, at most \<open>n\<close> of them.\<close>

fun run_loc :: "nat \<Rightarrow> loc \<Rightarrow> ring \<Rightarrow> (loc \<times> ring) res option" where
  "run_loc 0 l s = Some (Inr (l, s))"
| "run_loc (Suc n) l s =
     (case step_loc l s of None \<Rightarrow> None
      | Some r \<Rightarrow> (case r of Inl e \<Rightarrow> Some (Inl e) | Inr (l', s') \<Rightarrow> run_loc n l' s'))"

lemma array_put_steps:
  assumes "c_strlen h < MAX_NAME_LENGTH"
  shows "run_loc 6 (Put_Start h) s = map_option (map_sum id (\<lambda>(r, s'). (Put_Done, s'))) (array_put s h)"
  using assms
  by (cases "slot_at (s\<lparr>r_empty := r_empty s - 1, r_mutex := r_mutex s - 1,
        r_tail := (r_head s + int (r_full s)) smod 8\<rparr>) ((r_head s + int (r_full s)) smod 8)")
    (auto simp: numeral_eq_Suc array_put_def wait_empty_def wait_mutex_def Let_def bindR_def slot_at_def
      split: option.splits sum.splits)

lemma array_get_steps:
  "run_loc 6 (Get_Start (Some d)) s =
     map_option (map_sum id (\<lambda>(r, d', s'). (Get_Done (the d'), s'))) (array_get s (Some d))"
  by (cases "slot_at (s\<lparr>r_full := r_full s - 1, r_mutex := r_mutex s - 1\<rparr>) (r_head s)")
    (auto simp: numeral_eq_Suc array_get_def wait_full_def wait_mutex_def Let_def bindR_def slot_at_def
      split: option.splits sum.splits)

subsection \<open>Well-formed arrays\<close>

text \<open>Every slot holds a terminated string, which the size of the copies cannot break.\<close>

definition wf_slot :: "string option \<Rightarrow> bool" where
  "wf_slot p = (case p of None \<Rightarrow> False | Some buf \<Rightarrow> length buf = MAX_NAME_LENGTH \<and> buf ! 17 = NUL)"

definition ring_wf :: "ring \<Rightarrow> bool" where
  "ring_wf s \<longleftrightarrow> length (r_arr s) = ARRAY_SIZE \<and> list_all wf_slot (r_arr s)
     \<and> 0 \<le> r_head s \<and> r_head s < int ARRAY_SIZE \<and> 0 \<le> r_tail s \<and> r_tail s < int ARRAY_SIZE"

lemma mod8_range: "0 \<le> i \<Longrightarrow> 0 \<le> i smod 8 \<and> i smod 8 < (8::int)"
  by (simp add: smod_nonneg)

lemma slot_at_wf:
  assumes "ring_wf s" and "0 \<le> i" and "i < int ARRAY_SIZE"
  shows "\<exists>buf. slot_at s i = Inr buf \<and> r_arr s ! nat i = Some buf \<and> length buf = MAX_NAME_LENGTH \<and> buf ! 17 = NUL"
proof -
  have "wf_slot (r_arr s ! nat i)" using assms by (simp add: ring_wf_def list_all_length)
  then show ?thesis using assms by (auto simp: slot_at_def ring_wf_def wf_slot_def split: option.splits)
qed

lemma strncpy_slot:
  assumes "length dst = MAX_NAME_LENGTH" and "dst ! 17 = NUL"
  shows "\<exists>d. c_strncpy dst src 17 = Inr d \<and> length d = MAX_NAME_LENGTH \<and> d ! 17 = NUL
    \<and> cstr d = take 17 (cstr src)"
proof -
  let ?d = "take 17 (cstr src @ replicate 17 NUL) @ drop 17 dst"
  have "drop 17 dst = [NUL]"
    using assms by (intro nth_equalityI) (auto simp: less_Suc_eq)
  then have drop: "drop 17 dst = [NUL]" .
  have l: "length (take 17 (cstr src @ replicate 17 NUL)) = 17" by simp
  have d: "?d = take 17 (cstr src) @ NUL # replicate (17 - length (take 17 (cstr src))) NUL"
    by (cases "length (cstr src) \<le> 17") (simp_all add: drop replicate_append_same min_def)
  have "NUL \<notin> set (take 17 (cstr src))" using cstr_no_NUL by (meson in_set_takeD)
  then have "cstr ?d = take 17 (cstr src)" unfolding d by (rule cstr_append_NUL)
  moreover have "?d ! 17 = NUL" by (simp only: nth_append l) (simp add: drop)
  ultimately show ?thesis using assms(1) by (simp add: c_strncpy_def)
qed

lemma ring_wf_store:
  assumes "ring_wf s" and "length buf = MAX_NAME_LENGTH" and "buf ! 17 = NUL"
  shows "ring_wf (s\<lparr>r_arr := (r_arr s)[i := Some buf]\<rparr>)"
  using assms by (auto simp: ring_wf_def wf_slot_def intro!: list_all_update)

lemma ring_wf_sem [simp]:
  "ring_wf (post_mutex s) = ring_wf s" "ring_wf (post_full s) = ring_wf s" "ring_wf (post_empty s) = ring_wf s"
  "ring_wf (s\<lparr>r_mutex := m\<rparr>) = ring_wf s" "ring_wf (s\<lparr>r_full := m\<rparr>) = ring_wf s" "ring_wf (s\<lparr>r_empty := m\<rparr>) = ring_wf s"
  by (simp_all add: ring_wf_def post_mutex_def post_full_def post_empty_def)

subsection \<open>Calls that do not overlap: a bounded FIFO queue\<close>

text \<open>No call is under way, and the stored hostnames, oldest first.\<close>

definition ring_idle :: "ring \<Rightarrow> bool" where
  "ring_idle s \<longleftrightarrow> ring_wf s \<and> r_mutex s = 1 \<and> r_full s + r_empty s = ARRAY_SIZE"

definition ring_slot :: "ring \<Rightarrow> nat \<Rightarrow> string" where
  "ring_slot s i = cstr (the (r_arr s ! ((nat (r_head s) + i) mod ARRAY_SIZE)))"

definition ring_contents :: "ring \<Rightarrow> string list" where
  "ring_contents s = map (ring_slot s) [0..<r_full s]"

lemma ring_index_inj:
  fixes i n a :: nat
  assumes "i < n" and "n < i + 8"
  shows "(a + i) mod 8 \<noteq> (a + n) mod 8"
proof
  assume "(a + i) mod 8 = (a + n) mod 8"
  then have "8 dvd (a + n) - (a + i)" using mod_eq_dvd_iff_nat [of "a + i" "a + n" 8] assms(1) by simp
  then have "8 \<le> n - i" using assms(1) by (auto dest!: dvd_imp_le)
  then show False using assms by simp
qed

lemma length_ring_contents [simp]: "length (ring_contents s) = r_full s"
  by (simp add: ring_contents_def)

lemma array_put_fifo:
  assumes "ring_idle s" and "r_full s < ARRAY_SIZE" and "c_strlen h < MAX_NAME_LENGTH"
  shows "\<exists>s'. array_put s h = Some (Inr (0, s')) \<and> ring_idle s' \<and> ring_contents s' = ring_contents s @ [cstr h]"
proof -
  let ?t = "(r_head s + int (r_full s)) smod 8"
  have wf: "ring_wf s" and sem: "r_mutex s = 1" "r_empty s > 0" "r_full s + r_empty s = 8"
    using assms(1,2) by (auto simp: ring_idle_def)
  have head: "0 \<le> r_head s" "r_head s < 8" and len: "length (r_arr s) = 8" using wf by (simp_all add: ring_wf_def)
  have t: "0 \<le> ?t" "?t < 8" "nat ?t = (nat (r_head s) + r_full s) mod 8"
    using head mod8_range [of "r_head s + int (r_full s)"] by (simp_all add: smod_nonneg nat_mod_distrib nat_add_distrib)
  let ?s1 = "s\<lparr>r_empty := r_empty s - 1, r_mutex := 0, r_tail := ?t\<rparr>"
  have wf1: "ring_wf ?s1" using wf t by (simp add: ring_wf_def)
  obtain buf where buf: "slot_at ?s1 ?t = Inr buf" "length buf = 18" "buf ! 17 = NUL"
    using slot_at_wf [OF wf1 t(1)] t(2) by auto
  obtain d where d: "c_strncpy buf h 17 = Inr d" "length d = 18" "d ! 17 = NUL" "cstr d = take 17 (cstr h)"
    using strncpy_slot [OF buf(2,3)] by blast
  have full: "take 17 (cstr h) = cstr h" using assms(3) by (simp add: c_strlen_def)
  let ?s2 = "?s1\<lparr>r_arr := (r_arr s)[nat ?t := Some d]\<rparr>"
  let ?s' = "post_full (post_mutex ?s2)"
  have put: "array_put s h = Some (Inr (0, ?s'))"
    using sem assms(3) buf(1) d(1) by (simp add: array_put_def wait_empty_def wait_mutex_def Let_def)
  have "ring_wf ?s2" using ring_wf_store [OF wf1 d(2,3), of "nat ?t"] by simp
  then have idle: "ring_idle ?s'" using sem by (simp add: ring_idle_def) (simp add: post_full_def post_mutex_def)
  have old: "ring_slot ?s' i = ring_slot s i" if "i < r_full s" for i
  proof -
    have "(nat (r_head s) + i) mod 8 \<noteq> nat ?t"
    proof
      assume "(nat (r_head s) + i) mod 8 = nat ?t"
      then have "(nat (r_head s) + i) mod 8 = (nat (r_head s) + r_full s) mod 8" using t(3) by simp
      then show False using ring_index_inj [OF that, of "nat (r_head s)"] assms(2) by simp
    qed
    then show ?thesis by (simp add: ring_slot_def post_full_def post_mutex_def)
  qed
  have new: "ring_slot ?s' (r_full s) = cstr h"
  proof -
    have "(r_arr s)[nat ?t := Some d] ! nat ?t = Some d" using t(1,2) len by (intro nth_list_update_eq) simp
    then show ?thesis using d(4) full t(3) by (simp add: ring_slot_def post_full_def post_mutex_def)
  qed
  have "ring_contents ?s' = ring_contents s @ [cstr h]"
    using old new by (simp add: ring_contents_def) (simp add: post_full_def post_mutex_def)
  then show ?thesis using put idle by blast
qed

lemma array_get_fifo:
  assumes "ring_idle s" and "ring_contents s = x # xs" and "length dst = MAX_NAME_LENGTH" and "dst ! 17 = NUL"
  shows "\<exists>d s'. array_get s (Some dst) = Some (Inr (0, Some d, s')) \<and> ring_idle s' \<and> ring_contents s' = xs
    \<and> cstr d = take 17 x"
proof -
  have full: "r_full s = Suc (length xs)" using assms(2) length_ring_contents [of s] by simp
  have wf: "ring_wf s" and sem: "r_mutex s = 1" "r_full s > 0" "r_full s + r_empty s = 8"
    using assms(1) full by (auto simp: ring_idle_def)
  have head: "0 \<le> r_head s" "r_head s < 8" using wf by (simp_all add: ring_wf_def)
  obtain buf where buf: "slot_at s (r_head s) = Inr buf" "r_arr s ! nat (r_head s) = Some buf"
    using slot_at_wf [OF wf head(1)] head(2) by auto
  obtain d where d: "c_strncpy dst buf 17 = Inr d" "cstr d = take 17 (cstr buf)"
    using strncpy_slot [OF assms(3,4)] by blast
  let ?h = "(r_head s + 1) smod 8"
  have h: "0 \<le> ?h" "?h < 8" "nat ?h = (nat (r_head s) + 1) mod 8"
    using head mod8_range [of "r_head s + 1"] by (simp_all add: smod_nonneg nat_mod_distrib nat_add_distrib)
  let ?s' = "post_empty (post_mutex (s\<lparr>r_full := r_full s - 1, r_mutex := 0, r_head := ?h\<rparr>))"
  have sl: "slot_at (s\<lparr>r_full := r_full s - 1, r_mutex := 0\<rparr>) (r_head s) = Inr buf" using buf(1) by (simp add: slot_at_def)
  have get: "array_get s (Some dst) = Some (Inr (0, Some d, ?s'))"
    using sem sl d(1) by (simp add: array_get_def wait_full_def wait_mutex_def Let_def)
  have "ring_wf ?s'" using wf h by (simp add: ring_wf_def post_empty_def post_mutex_def)
  then have idle: "ring_idle ?s'" using sem by (simp add: ring_idle_def) (simp add: post_empty_def post_mutex_def)
  have "[0..<r_full s] = 0 # [1..<r_full s]" using sem(2) by (simp add: upt_conv_Cons)
  then have "x = ring_slot s 0" and rest: "xs = map (ring_slot s) [1..<r_full s]"
    using assms(2) by (simp_all add: ring_contents_def)
  then have first: "x = cstr buf" using buf(2) head by (simp add: ring_slot_def nat_less_iff)
  have "ring_slot ?s' i = ring_slot s (Suc i)" for i
    using h(3) by (simp add: ring_slot_def post_empty_def post_mutex_def mod_add_left_eq)
  then have "ring_contents ?s' = map (ring_slot s \<circ> Suc) [0..<r_full s - 1]"
    by (simp add: ring_contents_def post_empty_def post_mutex_def)
  also have "\<dots> = xs" using rest full by (simp add: map_Suc_upt [symmetric] del: upt_Suc)
  finally show ?thesis using get idle d(2) first by blast
qed

text \<open>The interface: a bounded queue of strings with blocking calls, \<open>None\<close> where the call blocks.\<close>

locale bounded_fifo =
  fixes put :: "'q \<Rightarrow> string \<Rightarrow> 'q option"
    and get :: "'q \<Rightarrow> (string \<times> 'q) option"
    and inv :: "'q \<Rightarrow> bool"
    and contents :: "'q \<Rightarrow> string list"
    and fits :: "string \<Rightarrow> bool"
    and cap :: nat
  assumes put_room: "inv q \<Longrightarrow> fits x \<Longrightarrow> length (contents q) < cap \<Longrightarrow>
      \<exists>q'. put q x = Some q' \<and> inv q' \<and> contents q' = contents q @ [x]"
    and put_full: "inv q \<Longrightarrow> fits x \<Longrightarrow> length (contents q) = cap \<Longrightarrow> put q x = None"
    and get_first: "inv q \<Longrightarrow> list_all fits (contents q) \<Longrightarrow> contents q = x # xs \<Longrightarrow>
      \<exists>q'. get q = Some (x, q') \<and> inv q' \<and> contents q' = xs"
    and get_empty: "inv q \<Longrightarrow> contents q = [] \<Longrightarrow> get q = None"
    and inv_cap: "inv q \<Longrightarrow> length (contents q) \<le> cap"
begin

fun put_all :: "string list \<Rightarrow> 'q \<Rightarrow> 'q option" where
  "put_all [] q = Some q"
| "put_all (x # xs) q = (case put q x of None \<Rightarrow> None | Some q' \<Rightarrow> put_all xs q')"

fun get_n :: "nat \<Rightarrow> 'q \<Rightarrow> (string list \<times> 'q) option" where
  "get_n 0 q = Some ([], q)"
| "get_n (Suc n) q =
     (case get q of None \<Rightarrow> None
      | Some (x, q') \<Rightarrow> (case get_n n q' of None \<Rightarrow> None | Some (xs, q'') \<Rightarrow> Some (x # xs, q'')))"

lemma put_all_room:
  assumes "inv q" and "list_all fits xs" and "length (contents q) + length xs \<le> cap"
  shows "\<exists>q'. put_all xs q = Some q' \<and> inv q' \<and> contents q' = contents q @ xs"
  using assms
proof (induction xs arbitrary: q)
  case Nil
  then show ?case by simp
next
  case (Cons x xs)
  then obtain q1 where q1: "put q x = Some q1" "inv q1" "contents q1 = contents q @ [x]"
    using put_room [of q x] by auto
  then show ?case using Cons.IH [of q1] Cons.prems by auto
qed

lemma get_n_first:
  assumes "inv q" and "list_all fits (contents q)" and "contents q = xs @ ys"
  shows "\<exists>q'. get_n (length xs) q = Some (xs, q') \<and> inv q' \<and> contents q' = ys"
  using assms
proof (induction xs arbitrary: q)
  case Nil
  then show ?case by simp
next
  case (Cons x xs)
  then obtain q1 where q1: "get q = Some (x, q1)" "inv q1" "contents q1 = xs @ ys"
    using get_first [of q x "xs @ ys"] by auto
  then show ?case using Cons.IH [of q1] Cons.prems by auto
qed

text \<open>What is put comes out, in order.\<close>

lemma put_all_get_n:
  assumes "inv q" and "contents q = []" and "list_all fits xs" and "length xs \<le> cap"
  shows "\<exists>q' q''. put_all xs q = Some q' \<and> get_n (length xs) q' = Some (xs, q'') \<and> inv q'' \<and> contents q'' = []"
proof -
  obtain q' where q': "put_all xs q = Some q'" "inv q'" "contents q' = xs"
    using put_all_room [OF assms(1,3)] assms(2,4) by auto
  then show ?thesis using get_n_first [of q' xs "[]"] assms(3) by auto
qed

end

text \<open>The array as such a queue; a caller passes a terminated string and a cleared buffer.\<close>

definition ring_put :: "ring \<Rightarrow> string \<Rightarrow> ring option" where
  "ring_put s x = (case array_put s (x @ [NUL]) of
     Some (Inr (ret, s')) \<Rightarrow> (if ret = 0 then Some s' else None) | _ \<Rightarrow> None)"

definition ring_get :: "ring \<Rightarrow> (string \<times> ring) option" where
  "ring_get s = (case array_get s (Some (replicate MAX_NAME_LENGTH NUL)) of
     Some (Inr (ret, Some d, s')) \<Rightarrow> (if ret = 0 then Some (cstr d, s') else None) | _ \<Rightarrow> None)"

definition host_fits :: "string \<Rightarrow> bool" where
  "host_fits x \<longleftrightarrow> NUL \<notin> set x \<and> length x < MAX_NAME_LENGTH"

lemma cstr_terminated: "NUL \<notin> set x \<Longrightarrow> cstr (x @ [NUL]) = x"
  using cstr_append_NUL [of x "[]"] by simp

interpretation ring: bounded_fifo ring_put ring_get ring_idle ring_contents host_fits ARRAY_SIZE
proof
  fix q x
  assume *: "ring_idle q" "host_fits x"
  have x: "cstr (x @ [NUL]) = x" "c_strlen (x @ [NUL]) < MAX_NAME_LENGTH"
    using *(2) cstr_terminated [of x] by (simp_all add: host_fits_def c_strlen_def)
  show "\<exists>q'. ring_put q x = Some q' \<and> ring_idle q' \<and> ring_contents q' = ring_contents q @ [x]"
    if "length (ring_contents q) < ARRAY_SIZE"
    using array_put_fifo [OF *(1) _ x(2)] that x(1) by (auto simp: ring_put_def)
  show "ring_put q x = None" if "length (ring_contents q) = ARRAY_SIZE"
    using that *(1) by (simp add: ring_put_def array_put_def wait_empty_def ring_idle_def)
next
  fix q x xs
  assume *: "ring_idle q" "list_all host_fits (ring_contents q)" "ring_contents q = x # xs"
  have "take 17 x = x" using *(2,3) by (simp add: host_fits_def)
  then show "\<exists>q'. ring_get q = Some (x, q') \<and> ring_idle q' \<and> ring_contents q' = xs"
    using array_get_fifo [OF *(1,3), of "replicate 18 NUL"] by (auto simp: ring_get_def)
next
  fix q assume "ring_idle q"
  then show "length (ring_contents q) \<le> ARRAY_SIZE" by (simp add: ring_idle_def)
  show "ring_get q = None" if "ring_contents q = []"
    using that by (simp add: ring_contents_def ring_get_def array_get_def wait_full_def)
qed

subsection \<open>Interleaved calls\<close>

text \<open>A thread that is done may call again; the caller's buffer of a \<open>get\<close> takes the 17 bytes that
  are always copied.\<close>

fun finished :: "loc \<Rightarrow> bool" where
  "finished Put_Done = True" | "finished (Get_Done d) = True" | "finished _ = False"

fun starts :: "loc \<Rightarrow> bool" where
  "starts (Put_Start h) = True" | "starts (Get_Start (Some d)) = (17 \<le> length d)"
| "starts (Get_Start None) = True" | "starts _ = False"

type_synonym threads = "ring \<times> loc list"

inductive ring_step :: "threads \<Rightarrow> threads \<Rightarrow> bool" where
  thread_moves: "t < length ls \<Longrightarrow> step_loc (ls ! t) s = Some (Inr (l', s')) \<Longrightarrow> ring_step (s, ls) (s', ls[t := l'])"
| thread_calls: "t < length ls \<Longrightarrow> finished (ls ! t) \<Longrightarrow> starts l' \<Longrightarrow> ring_step (s, ls) (s, ls[t := l'])"

inductive_cases ring_stepE: "ring_step (s, ls) c"

text \<open>What a thread at a location holds: the mutex, and a slot taken from one semaphore and not yet
  given to the other.\<close>

fun inside :: "loc \<Rightarrow> nat" where
  "inside (Put_Count h) = 1" | "inside (Put_Copy h) = 1" | "inside Put_Unlock = 1"
| "inside (Get_Copy d) = 1" | "inside (Get_Advance d') = 1" | "inside (Get_Unlock d') = 1"
| "inside Failed = 1" | "inside _ = 0"

fun holds_slot :: "loc \<Rightarrow> nat" where
  "holds_slot (Put_Start h) = 0" | "holds_slot Put_Done = 0"
| "holds_slot (Get_Start d) = 0" | "holds_slot (Get_Done d') = 0" | "holds_slot _ = 1"

fun loc_ok :: "loc \<Rightarrow> bool" where
  "loc_ok (Get_Start (Some d)) = (17 \<le> length d)"
| "loc_ok (Get_Lock (Some d)) = (17 \<le> length d)"
| "loc_ok (Get_Copy (Some d)) = (17 \<le> length d)"
| "loc_ok _ = True"

definition threads_inv :: "threads \<Rightarrow> bool" where
  "threads_inv = (\<lambda>(s, ls). ring_wf s \<and> list_all loc_ok ls
     \<and> r_mutex s + sum_list (map inside ls) = 1
     \<and> r_full s + r_empty s + sum_list (map holds_slot ls) = ARRAY_SIZE)"

lemma sum_list_nat_update:
  fixes f :: "'a \<Rightarrow> nat"
  assumes "i < length xs"
  shows "sum_list (map f (xs[i := x])) + f (xs ! i) = sum_list (map f xs) + f x"
  using assms
proof (induction xs arbitrary: i)
  case Nil
  then show ?case by simp
next
  case (Cons y ys)
  then show ?case by (cases i) fastforce+
qed

lemma sum_list_nat_member:
  fixes f :: "'a \<Rightarrow> nat"
  shows "i < length xs \<Longrightarrow> f (xs ! i) \<le> sum_list (map f xs)"
  by (simp add: member_le_sum_list)

text \<open>A single step: total, and it moves what it takes.\<close>

lemma step_loc_local:
  assumes "ring_wf s" and "loc_ok l" and "step_loc l s = Some r"
  shows "okR r (\<lambda>(l', s'). ring_wf s' \<and> loc_ok l' \<and> r_mutex s' + inside l' = r_mutex s + inside l
    \<and> r_full s' + r_empty s' + holds_slot l' = r_full s + r_empty s + holds_slot l)"
proof (cases l)
  case (Put_Count h)
  then show ?thesis
    using assms mod8_range [of "r_head s + int (r_full s)"] by (auto simp: ring_wf_def)
next
  case (Put_Copy h)
  have t: "0 \<le> r_tail s" "r_tail s < int 8" using assms(1) by (simp_all add: ring_wf_def)
  obtain buf where buf: "slot_at s (r_tail s) = Inr buf" "length buf = 18" "buf ! 17 = NUL"
    using slot_at_wf [OF assms(1) t] by blast
  obtain d where d: "c_strncpy buf h 17 = Inr d" "length d = 18" "d ! 17 = NUL"
    using strncpy_slot [OF buf(2,3)] by blast
  then show ?thesis
    using assms(1,3) Put_Copy buf(1) ring_wf_store [OF assms(1) d(2,3)] by auto
next
  case (Get_Copy dst)
  have t: "0 \<le> r_head s" "r_head s < int 8" using assms(1) by (simp_all add: ring_wf_def)
  obtain buf where "slot_at s (r_head s) = Inr buf" using slot_at_wf [OF assms(1) t] by blast
  then show ?thesis
    using assms Get_Copy by (cases dst) (auto simp: c_strncpy_def)
next
  case (Get_Advance d)
  then show ?thesis
    using assms mod8_range [of "r_head s + 1"] by (auto simp: ring_wf_def)
next
  case (Get_Start dst)
  then show ?thesis using assms by (cases dst) (auto simp: wait_full_def split: if_splits)
next
  case (Get_Lock dst)
  then show ?thesis using assms by (cases dst) (auto simp: wait_mutex_def split: if_splits)
qed (use assms in \<open>auto simp: wait_empty_def wait_mutex_def post_mutex_def post_full_def post_empty_def
      ring_wf_def split: if_splits\<close>)

lemma threads_inv_step:
  assumes "ring_step c c'" and "threads_inv c"
  shows "threads_inv c'"
  using assms
proof (cases rule: ring_step.cases)
  case (thread_moves t ls s l' s')
  have ok: "ring_wf s" "list_all loc_ok ls" using assms(2) thread_moves(1) by (simp_all add: threads_inv_def)
  then have "loc_ok (ls ! t)" using thread_moves(3) by (simp add: list_all_length)
  from step_loc_local [OF ok(1) this thread_moves(4)]
  have st: "ring_wf s'" "loc_ok l'" "r_mutex s' + inside l' = r_mutex s + inside (ls ! t)"
    "r_full s' + r_empty s' + holds_slot l' = r_full s + r_empty s + holds_slot (ls ! t)" by simp_all
  show ?thesis
    using assms(2) thread_moves(1,2) st list_all_update [OF ok(2) st(2), of t]
      sum_list_nat_update [OF thread_moves(3), of inside l'] sum_list_nat_update [OF thread_moves(3), of holds_slot l']
    by (simp add: threads_inv_def)
next
  case (thread_calls t ls l' s)
  have "inside (ls ! t) = 0" "holds_slot (ls ! t) = 0" using thread_calls(4) by (cases "ls ! t"; simp)+
  moreover have "loc_ok l'" "inside l' = 0" "holds_slot l' = 0"
    using thread_calls(5) by (cases l' rule: starts.cases; simp)+
  moreover have "list_all loc_ok (ls[t := l'])"
    using assms(2) thread_calls(1) calculation(3) by (auto simp: threads_inv_def intro: list_all_update)
  ultimately show ?thesis
    using assms(2) thread_calls(1,2)
      sum_list_nat_update [OF thread_calls(3), of inside l'] sum_list_nat_update [OF thread_calls(3), of holds_slot l']
    by (simp add: threads_inv_def)
qed

lemma threads_inv_steps: "ring_step\<^sup>*\<^sup>* c c' \<Longrightarrow> threads_inv c \<Longrightarrow> threads_inv c'"
  by (induction rule: rtranclp_induct) (auto intro: threads_inv_step)

text \<open>The array as \<open>array_init\<close> leaves it.\<close>

definition ring_fresh :: ring where
  "ring_fresh = \<lparr>r_arr = replicate ARRAY_SIZE (Some (replicate MAX_NAME_LENGTH NUL)), r_head = 0, r_tail = 0,
     r_mutex = 1, r_full = 0, r_empty = ARRAY_SIZE\<rparr>"

lemma ring_fresh_idle: "ring_idle ring_fresh" "ring_contents ring_fresh = []"
  by (simp_all add: ring_fresh_def ring_idle_def ring_wf_def wf_slot_def ring_contents_def)

lemma threads_inv_fresh:
  assumes "list_all starts ls"
  shows "threads_inv (ring_fresh, ls)"
proof -
  have "list_all loc_ok ls \<and> sum_list (map inside ls) = 0 \<and> sum_list (map holds_slot ls) = 0"
    using assms
  proof (induction ls)
    case (Cons l ls)
    have "loc_ok l \<and> inside l = 0 \<and> holds_slot l = 0" using Cons.prems by (cases l rule: starts.cases) auto
    then show ?case using Cons by simp
  qed simp
  then show ?thesis using ring_fresh_idle(1) by (simp add: threads_inv_def ring_idle_def)
qed

text \<open>An executable run of a given schedule.\<close>

fun run_schedule :: "nat list \<Rightarrow> threads \<Rightarrow> threads option" where
  "run_schedule [] c = Some c"
| "run_schedule (t # ts) (s, ls) =
     (if t < length ls then
        (case step_loc (ls ! t) s of Some (Inr (l', s')) \<Rightarrow> run_schedule ts (s', ls[t := l']) | _ \<Rightarrow> None)
      else None)"

lemma run_schedule_steps: "run_schedule ts c = Some c' \<Longrightarrow> ring_step\<^sup>*\<^sup>* c c'"
proof (induction ts c rule: run_schedule.induct)
  case (2 t ts s ls)
  then show ?case
    by (auto split: if_splits option.splits sum.splits dest!: thread_moves intro: converse_rtranclp_into_rtranclp)
qed simp

text \<open>The routines of \<open>test.c\<close>, as loops over whole calls.\<close>

fun produce_routine :: "nat \<Rightarrow> ring \<Rightarrow> string \<Rightarrow> (int \<times> ring) res option" where
  "produce_routine 0 s host = Some (Inr (0, s))"
| "produce_routine (Suc n) s host =
     (case array_put s host of None \<Rightarrow> None
      | Some (Inl e) \<Rightarrow> Some (Inl e)
      | Some (Inr (result, s')) \<Rightarrow> if result = -1 then Some (Inr (-1, s')) else produce_routine n s' host)"

fun consume_routine :: "nat \<Rightarrow> ring \<Rightarrow> string \<Rightarrow> (int \<times> string \<times> ring) res option" where
  "consume_routine 0 s host = Some (Inr (0, host, s))"
| "consume_routine (Suc n) s host =
     (case array_get s (Some host) of None \<Rightarrow> None
      | Some (Inl e) \<Rightarrow> Some (Inl e)
      | Some (Inr (result, None, s')) \<Rightarrow> Some (Inr (-1, host, s'))
      | Some (Inr (result, Some host', s')) \<Rightarrow>
          if result = -1 then Some (Inr (-1, host', s')) else consume_routine n s' host')"

lemma produce_routine_fifo:
  assumes "ring_idle s" and "r_full s + n \<le> ARRAY_SIZE" and "c_strlen h < MAX_NAME_LENGTH"
  shows "\<exists>s'. produce_routine n s h = Some (Inr (0, s')) \<and> ring_idle s'
    \<and> ring_contents s' = ring_contents s @ replicate n (cstr h)"
  using assms
proof (induction n arbitrary: s)
  case 0
  then show ?case by simp
next
  case (Suc n)
  then obtain s1 where s1: "array_put s h = Some (Inr (0, s1))" "ring_idle s1" "ring_contents s1 = ring_contents s @ [cstr h]"
    using array_put_fifo [of s h] by auto
  then have "r_full s1 = r_full s + 1" using length_ring_contents [of s1] by simp
  then show ?case using Suc.IH [of s1] Suc.prems s1 by (auto simp: replicate_app_Cons_same)
qed

lemma init_slots:
  assumes "length (r_arr s) = ARRAY_SIZE" and "n \<le> ARRAY_SIZE" and "\<And>i. i < n \<Longrightarrow> ok i"
  shows "\<exists>s'. loopR (init_slot ok) [0..<n] (0, s) = Inr (0, s') \<and> r_mutex s' = r_mutex s"
proof -
  have "loopR (init_slot ok) is (0, s) = Inr (0, fold (\<lambda>i s. s\<lparr>r_arr := (r_arr s)[i := Some (replicate MAX_NAME_LENGTH NUL)]\<rparr>) is s)"
    if "\<forall>i \<in> set is. ok i" for "is" s
    using that by (induction "is" arbitrary: s) (simp_all add: init_slot_def)
  moreover have "r_mutex (fold (\<lambda>i s. s\<lparr>r_arr := (r_arr s)[i := Some (replicate MAX_NAME_LENGTH NUL)]\<rparr>) is s) = r_mutex s" for "is" s
    by (induction "is" arbitrary: s) simp_all
  ultimately show ?thesis using assms(3) by auto
qed

lemma init_slots_fail:
  assumes "\<exists>i \<in> set is. \<not> ok i"
  shows "\<exists>s'. loopR (init_slot ok) is (0, s) = Inr (-1, s') \<and> r_mutex s' = r_mutex s"
  using assms
proof (induction "is" arbitrary: s)
  case (Cons i "is")
  then show ?case
    by (cases "ok i") (auto simp: init_slot_def, metis ring.select_convs(4) ring.surjective ring.update_convs(1))
qed simp

text \<open>Buffers for the examples: a cleared one, and one holding a name of one character.\<close>

definition blank_buf :: string where
  "blank_buf = replicate MAX_NAME_LENGTH NUL"

definition name_buf :: "char \<Rightarrow> string" where
  "name_buf c = c # replicate 17 NUL"

lemma buf_simps:
  "length blank_buf = 18" "length (name_buf c) = 18" "blank_buf ! 17 = NUL" "name_buf c ! 17 = NUL"
  "cstr blank_buf = []" "c \<noteq> NUL \<Longrightarrow> cstr (name_buf c) = [c]" "c \<noteq> NUL \<Longrightarrow> c_strlen [c, NUL] = 1"
  by (simp_all add: blank_buf_def name_buf_def cstr_def c_strlen_def nth_Cons' takeWhile_replicate)

lemma buf_strncpy:
  assumes "c \<noteq> NUL"
  shows "c_strncpy blank_buf [c, NUL] 17 = Inr (name_buf c)"
    and "c_strncpy (name_buf b) [c, NUL] 17 = Inr (name_buf c)"
    and "c_strncpy blank_buf (name_buf c) 17 = Inr (name_buf c)"
proof -
  have "cstr [c, NUL] = [c]" "cstr (name_buf c) = [c]" using assms by (simp_all add: cstr_def name_buf_def)
  then show "c_strncpy blank_buf [c, NUL] 17 = Inr (name_buf c)"
    "c_strncpy (name_buf b) [c, NUL] 17 = Inr (name_buf c)"
    "c_strncpy blank_buf (name_buf c) 17 = Inr (name_buf c)"
    by (simp_all add: c_strncpy_def blank_buf_def name_buf_def numeral_eq_Suc)
qed

lemma ring_fresh_blank:
  "ring_fresh = \<lparr>r_arr = [Some blank_buf, Some blank_buf, Some blank_buf, Some blank_buf,
     Some blank_buf, Some blank_buf, Some blank_buf, Some blank_buf],
     r_head = 0, r_tail = 0, r_mutex = 1, r_full = 0, r_empty = 8\<rparr>"
  by (simp add: ring_fresh_def blank_buf_def numeral_eq_Suc)

lemmas ring_eval = ring_fresh_blank wait_empty_def wait_full_def wait_mutex_def post_mutex_def post_full_def
  post_empty_def slot_at_def buf_simps buf_strncpy

text \<open>A thread that failed inside a call never gives the mutex back.\<close>

lemma failed_stuck:
  assumes "ring_step c c'" and "t < length (snd c)" and "snd c ! t = Failed"
  shows "t < length (snd c') \<and> snd c' ! t = Failed"
  using assms by (cases rule: ring_step.cases) (auto simp: nth_list_update)

lemma failed_steps:
  assumes "ring_step\<^sup>*\<^sup>* c c'" and "t < length (snd c)" and "snd c ! t = Failed"
  shows "t < length (snd c') \<and> snd c' ! t = Failed"
  using assms by (induction rule: rtranclp_induct) (auto dest: failed_stuck)

lemma failed_excludes:
  assumes "threads_inv (s, ls)" and "t < length ls" and "ls ! t = Failed" and "u < length ls" and "u \<noteq> t"
  shows "r_mutex s = 0 \<and> inside (ls ! u) = 0"
proof -
  have "sum_list (map inside (ls[u := Put_Done])) + inside (ls ! u) = sum_list (map inside ls)"
    using sum_list_nat_update [OF assms(4), of inside Put_Done] by simp
  moreover have "inside (ls[u := Put_Done] ! t) \<le> sum_list (map inside (ls[u := Put_Done]))"
    using assms(2) by (intro sum_list_nat_member) simp
  moreover have "inside (ls[u := Put_Done] ! t) = 1" using assms(3,5) by simp
  moreover have "r_mutex s + sum_list (map inside ls) = 1" using assms(1) by (simp add: threads_inv_def)
  ultimately show ?thesis by linarith
qed

subsection \<open>Properties\<close>

text \<open>C5: Calls that do not overlap implement a bounded FIFO queue: on an idle array \<open>array_put\<close>
  blocks when 8 names are stored and otherwise appends a name of at most 17 characters, unshortened;
  \<open>array_get\<close> blocks when the array is empty and otherwise removes the oldest name and copies it into
  the caller's buffer.\<close>

theorem array_is_bounded_fifo:
  assumes "ring_idle s" and "c_strlen h < MAX_NAME_LENGTH" and "length dst = MAX_NAME_LENGTH" and "dst ! 17 = NUL"
    and "list_all host_fits (ring_contents s)"
  shows "(if r_full s = ARRAY_SIZE then array_put s h = None
      else \<exists>s'. array_put s h = Some (Inr (0, s')) \<and> ring_idle s' \<and> ring_contents s' = ring_contents s @ [cstr h])
    \<and> (case ring_contents s of [] \<Rightarrow> array_get s (Some dst) = None
      | x # xs \<Rightarrow> \<exists>d s'. array_get s (Some dst) = Some (Inr (0, Some d, s')) \<and> ring_idle s'
          \<and> ring_contents s' = xs \<and> cstr d = x)"
proof -
  have "r_full s \<le> ARRAY_SIZE" using assms(1) by (simp add: ring_idle_def)
  then have "if r_full s = ARRAY_SIZE then array_put s h = None
      else \<exists>s'. array_put s h = Some (Inr (0, s')) \<and> ring_idle s' \<and> ring_contents s' = ring_contents s @ [cstr h]"
    using array_put_fifo [OF assms(1) _ assms(2)] assms(1)
    by (auto simp: array_put_def wait_empty_def ring_idle_def)
  moreover have "case ring_contents s of [] \<Rightarrow> array_get s (Some dst) = None
      | x # xs \<Rightarrow> \<exists>d s'. array_get s (Some dst) = Some (Inr (0, Some d, s')) \<and> ring_idle s'
          \<and> ring_contents s' = xs \<and> cstr d = x"
  proof (cases "ring_contents s")
    case Nil
    then have "r_full s = 0" using length_ring_contents [of s] by simp
    then show ?thesis using Nil by (simp add: array_get_def wait_full_def)
  next
    case (Cons x xs)
    then have "take 17 x = x" using assms(5) by (simp add: host_fits_def)
    then show ?thesis using array_get_fifo [OF assms(1) Cons assms(3,4)] Cons by auto
  qed
  ultimately show ?thesis by blast
qed

theorem array_is_bounded_fifo_witness:
  "\<exists>s'. array_put ring_fresh (''example.com'' @ [NUL]) = Some (Inr (0, s')) \<and> ring_contents s' = [''example.com'']"
proof -
  have c: "cstr (''example.com'' @ [NUL]) = ''example.com''" by (rule cstr_terminated) simp
  then have "c_strlen (''example.com'' @ [NUL]) < 18" by (simp add: c_strlen_def)
  then show ?thesis
    using array_is_bounded_fifo [OF ring_fresh_idle(1), of "''example.com'' @ [NUL]" "replicate 18 NUL"] ring_fresh_idle(2) c
    by (auto simp: ring_fresh_def)
qed

text \<open>Up to 8 names put into a fresh array one call after the other come out of it in the order
  in which they were put, and the array is empty and idle again.\<close>

lemma array_round_trip:
  assumes "list_all host_fits xs" and "length xs \<le> ARRAY_SIZE"
  shows "\<exists>s' s''. bounded_fifo.put_all ring_put xs ring_fresh = Some s'
    \<and> bounded_fifo.get_n ring_get (length xs) s' = Some (xs, s'') \<and> ring_idle s'' \<and> ring_contents s'' = []"
  by (rule ring.put_all_get_n [OF ring_fresh_idle assms])

lemma array_round_trip_witness:
  "\<exists>s' s''. bounded_fifo.put_all ring_put [''a'', ''b''] ring_fresh = Some s'
    \<and> bounded_fifo.get_n ring_get 2 s' = Some ([''a'', ''b''], s'')"
  using array_round_trip [of "[''a'', ''b'']"] by (auto simp: host_fits_def numeral_2_eq_2)

text \<open>A whole call is exactly its steps without interruption, for names that fit.\<close>

lemma calls_are_uninterrupted_steps:
  assumes "c_strlen h < MAX_NAME_LENGTH"
  shows "run_loc 6 (Put_Start h) s = map_option (map_sum id (\<lambda>(r, s'). (Put_Done, s'))) (array_put s h)
    \<and> run_loc 6 (Get_Start (Some d)) s = map_option (map_sum id (\<lambda>(r, d', s'). (Get_Done (the d'), s'))) (array_get s (Some d))"
  using array_put_steps [OF assms] array_get_steps by blast

lemma calls_are_uninterrupted_steps_witness:
  "\<exists>s'. run_loc 6 (Put_Start [CHR ''x'', NUL]) ring_fresh = Some (Inr (Put_Done, s'))"
proof -
  have l: "c_strlen [CHR ''x'', NUL] < 18" by (simp add: c_strlen_def cstr_def)
  obtain s' where "array_put ring_fresh [CHR ''x'', NUL] = Some (Inr (0, s'))"
    using array_put_fifo [OF ring_fresh_idle(1) _ l] by (auto simp: ring_fresh_def)
  then show ?thesis using calls_are_uninterrupted_steps [OF l] by simp
qed



text \<open>Two overlapping calls of \<open>array_put\<close> can lose a name: \<open>array_put\<close> posts the mutex before it
  posts \<open>full\<close>, from which the next producer computes its slot. Both calls return, two slots count as
  filled, but the second name has overwritten the first and the other filled slot is empty.\<close>

lemma overlapping_puts_lose_a_name:
  "\<exists>s. ring_step\<^sup>*\<^sup>* (ring_fresh, [Put_Start [CHR ''a'', NUL], Put_Start [CHR ''b'', NUL]]) (s, [Put_Done, Put_Done])
     \<and> ring_idle s \<and> ring_contents s = [''b'', []]"
proof -
  let ?c = "(ring_fresh, [Put_Start [CHR ''a'', NUL], Put_Start [CHR ''b'', NUL]])"
  let ?s = "ring_fresh\<lparr>r_arr := (r_arr ring_fresh)[0 := Some (name_buf CHR ''b'')], r_full := 2, r_empty := 6\<rparr>"
  have run: "run_schedule [0, 0, 0, 0, 0, 1, 1, 1, 1, 1, 1, 0] ?c = Some (?s, [Put_Done, Put_Done])"
    by (simp add: ring_eval)
  have "ring_idle ?s \<and> ring_contents ?s = [''b'', []]"
    by (simp add: ring_idle_def ring_wf_def wf_slot_def ring_contents_def ring_slot_def ring_eval upt_conv_Cons)
  then show ?thesis using run_schedule_steps [OF run] by blast
qed

text \<open>A put that overlaps a get can lose a name as well: \<open>array_get\<close> takes from \<open>full\<close> before it
  moves \<open>head\<close>, so a producer in between computes the slot of the newest stored name. From an array
  holding two names, one get and one put leave the put name and an empty one; the newer of the two
  stored names is gone.\<close>

lemma put_during_get_loses_a_name:
  "\<exists>s0 s d. ring_idle s0 \<and> ring_contents s0 = [''a'', ''b'']
     \<and> ring_step\<^sup>*\<^sup>* (s0, [Get_Start (Some (replicate 18 NUL)), Put_Start [CHR ''c'', NUL]]) (s, [Get_Done d, Put_Done])
     \<and> cstr d = ''a'' \<and> ring_idle s \<and> ring_contents s = [''c'', []]"
proof -
  let ?arr = "\<lambda>c. (r_arr ring_fresh)[0 := Some (name_buf CHR ''a''), 1 := Some (name_buf c)]"
  let ?first = "ring_fresh\<lparr>r_arr := ?arr CHR ''b'', r_full := 2, r_empty := 6\<rparr>"
  let ?last = "ring_fresh\<lparr>r_arr := ?arr CHR ''c'', r_head := 1, r_tail := 1, r_full := 2, r_empty := 6\<rparr>"
  have run: "run_schedule [0, 1, 1, 1, 1, 1, 1, 0, 0, 0, 0, 0]
      (?first, [Get_Start (Some blank_buf), Put_Start [CHR ''c'', NUL]])
    = Some (?last, [Get_Done (name_buf CHR ''a''), Put_Done])"
    by (simp add: ring_eval smod_nonneg)
  note eval = ring_idle_def ring_wf_def wf_slot_def ring_contents_def ring_slot_def ring_eval upt_conv_Cons
  have "ring_idle ?first" "ring_idle ?last" by (simp_all add: eval)
  moreover have "ring_contents ?first = [CHR ''a'' # [], CHR ''b'' # []]" "ring_contents ?last = [CHR ''c'' # [], []]"
    by (simp_all add: eval)
  moreover have "cstr (name_buf CHR ''a'') = ''a''" by (simp add: buf_simps)
  moreover note run_schedule_steps [OF run]
  ultimately show ?thesis unfolding blank_buf_def by blast
qed

text \<open>C34: Overlapping calls can lose a name, in two ways. Two producers can take the same slot, since
  \<open>array_put\<close> posts the mutex before \<open>full\<close>, from which the next one computes its slot; and a producer can
  overwrite the newest stored name while a consumer has taken from \<open>full\<close> and not yet moved \<open>head\<close>. All the
  calls return normally and the array is idle afterwards.\<close>

theorem overlapping_calls_lose_names:
  "(\<exists>s. ring_step\<^sup>*\<^sup>* (ring_fresh, [Put_Start [CHR ''a'', NUL], Put_Start [CHR ''b'', NUL]]) (s, [Put_Done, Put_Done])
     \<and> ring_idle s \<and> ring_contents s = [''b'', []])
   \<and> (\<exists>s0 s d. ring_idle s0 \<and> ring_contents s0 = [''a'', ''b'']
     \<and> ring_step\<^sup>*\<^sup>* (s0, [Get_Start (Some (replicate 18 NUL)), Put_Start [CHR ''c'', NUL]]) (s, [Get_Done d, Put_Done])
     \<and> cstr d = ''a'' \<and> ring_idle s \<and> ring_contents s = [''c'', []])"
  using overlapping_puts_lose_a_name put_during_get_loses_a_name by blast

text \<open>An error return of \<open>array_put\<close> or \<open>array_get\<close> keeps the mutex: in every later state the
  mutex is taken and every other thread that comes to its wait is blocked.\<close>

lemma failed_call_locks_out_all:
  assumes "list_all starts ls0" and "ring_step\<^sup>*\<^sup>* (ring_fresh, ls0) (s, ls)" and "t < length ls" and "ls ! t = Failed"
    and "ring_step\<^sup>*\<^sup>* (s, ls) (s', ls')"
  shows "ls' ! t = Failed \<and> (\<forall>u < length ls'. u \<noteq> t \<longrightarrow> r_mutex s' = 0 \<and> inside (ls' ! u) = 0)
    \<and> step_loc (Put_Lock h) s' = None \<and> step_loc (Get_Lock d) s' = None"
proof -
  have inv: "threads_inv (s', ls')"
    using threads_inv_steps [OF assms(5)] threads_inv_steps [OF assms(2) threads_inv_fresh [OF assms(1)]] .
  have t: "t < length ls'" "ls' ! t = Failed" using failed_steps [OF assms(5)] assms(3,4) by simp_all
  then have "1 \<le> sum_list (map inside ls')" using sum_list_nat_member [OF t(1), of inside] by simp
  then have "r_mutex s' = 0" using inv by (simp add: threads_inv_def)
  then show ?thesis using failed_excludes [OF inv t] t by (simp add: wait_mutex_def)
qed

lemma failed_call_locks_out_all_witness:
  "\<exists>s ls. ring_step\<^sup>*\<^sup>* (ring_fresh, [Put_Start (replicate 18 CHR ''a'' @ [NUL]), Put_Start [NUL]]) (s, ls)
     \<and> ls ! 0 = Failed \<and> step_loc (Put_Lock [NUL]) s = None"
proof -
  let ?ls = "[Put_Start (replicate 18 CHR ''a'' @ [NUL]), Put_Start [NUL]]"
  let ?s = "ring_fresh\<lparr>r_empty := 7, r_mutex := 0\<rparr>"
  have run: "run_schedule [0, 0] (ring_fresh, ?ls) = Some (?s, [Failed, Put_Start [NUL]])"
    by (simp add: ring_fresh_def wait_empty_def wait_mutex_def c_strlen_def cstr_def numeral_eq_Suc)
  have "step_loc (Put_Lock [NUL]) ?s = None"
    using failed_call_locks_out_all [where t = 0 and h = "[NUL]" and d = None,
        OF _ run_schedule_steps [OF run] _ _ rtranclp.rtrancl_refl] by simp
  then show ?thesis using run_schedule_steps [OF run] by (intro exI conjI) auto
qed

text \<open>\<open>array_init\<close> is ready for use exactly when every \<open>malloc\<close> succeeds: then the mutex is free;
  otherwise it returns -1 with the mutex taken, and the \<open>array_free\<close> that \<open>main\<close> calls next blocks
  for ever.\<close>

lemma array_init_outcome:
  assumes "length (r_arr s) = ARRAY_SIZE"
  shows "\<exists>ret s'. array_init ok s = Some (Inr (ret, s')) \<and>
    (if \<forall>i < ARRAY_SIZE. ok i then ret = 0 \<and> r_mutex s' = 1 else ret = -1 \<and> array_free s' = None)"
proof -
  let ?s = "(synchronize_init s)\<lparr>r_mutex := 0, r_head := 0, r_tail := 0\<rparr>"
  have e: "array_init ok s = Some (bindR (loopR (init_slot ok) [0..<8] (0, ?s)) (\<lambda>(ret, s).
            Inr (if ret = -1 then (-1, s) else (0, post_mutex s))))"
    by (simp add: array_init_def wait_mutex_def synchronize_init_def Let_def)
  have len: "length (r_arr ?s) = 8" using assms by (simp add: synchronize_init_def)
  show ?thesis
  proof (cases "\<forall>i < 8. ok i")
    case True
    then obtain s' where "loopR (init_slot ok) [0..<8] (0, ?s) = Inr (0, s')" "r_mutex s' = 0"
      using init_slots [OF len, of 8 ok] by auto
    then show ?thesis using e True by (simp add: post_mutex_def del: upt_Suc)
  next
    case False
    then obtain i where i: "\<not> ok i" "i \<in> set [0..<8]" by auto
    obtain s' where "loopR (init_slot ok) [0..<8] (0, ?s) = Inr (-1, s')" "r_mutex s' = 0"
      using init_slots_fail [of "[0..<8]" ok ?s, OF bexI, OF i] by auto
    then show ?thesis using e False by (simp add: array_free_def wait_mutex_def)
  qed
qed

lemma array_init_outcome_witness:
  "\<exists>s'. array_init (\<lambda>i. i < 5) ring_fresh = Some (Inr (-1, s')) \<and> array_free s' = None"
proof -
  have len: "length (r_arr ring_fresh) = 8" by (simp add: ring_fresh_def)
  have no: "\<not> (\<forall>i < (8::nat). i < 5)" by (auto intro: exI [of _ 6])
  show ?thesis using array_init_outcome [OF len, of "\<lambda>i. i < 5"] unfolding if_not_P [OF no] by auto
qed

text \<open>The routines of \<open>test.c\<close>: a producer of \<open>n\<close> names that fit stores \<open>n\<close> copies of its name;
  a consumer passes the literal \<open>"facebook.com"\<close> of 13 bytes as its buffer, and the fixed 17-byte copy
  runs past its end at the first name it takes.\<close>

lemma test_routines_outcome:
  assumes "ring_idle s" and "r_full s + n \<le> ARRAY_SIZE" and "0 < n"
  shows "\<exists>s'. produce_routine n s (''facebook.com'' @ [NUL]) = Some (Inr (0, s')) \<and> ring_idle s'
    \<and> ring_contents s' = ring_contents s @ replicate n ''facebook.com''
    \<and> consume_routine (Suc m) s' (''facebook.com'' @ [NUL]) = Some (Inl Out_Of_Bounds)"
proof -
  have c: "cstr (''facebook.com'' @ [NUL]) = ''facebook.com''" by (rule cstr_terminated) simp
  then have "c_strlen (''facebook.com'' @ [NUL]) < 18" by (simp add: c_strlen_def)
  then obtain s' where s': "produce_routine n s (''facebook.com'' @ [NUL]) = Some (Inr (0, s'))" "ring_idle s'"
    "ring_contents s' = ring_contents s @ replicate n ''facebook.com''"
    using produce_routine_fifo [OF assms(1,2), of "''facebook.com'' @ [NUL]"] unfolding c by blast
  have full: "r_full s' > 0" using length_ring_contents [of s'] s'(3) assms(3) by simp
  have wf: "ring_wf s'" "r_mutex s' = 1" using s'(2) by (simp_all add: ring_idle_def)
  have "0 \<le> r_head s'" "r_head s' < int 8" using wf(1) by (simp_all add: ring_wf_def)
  then obtain buf where "slot_at s' (r_head s') = Inr buf" using slot_at_wf [OF wf(1)] by blast
  then have "slot_at (s'\<lparr>r_full := r_full s' - 1, r_mutex := 0\<rparr>) (r_head s') = Inr buf" by (simp add: slot_at_def)
  then have "array_get s' (Some (''facebook.com'' @ [NUL])) = Some (Inl Out_Of_Bounds)"
    using full wf by (simp add: array_get_def wait_full_def wait_mutex_def c_strncpy_def)
  then show ?thesis using s' by simp
qed

lemma test_routines_outcome_witness:
  "\<exists>s'. produce_routine 4 ring_fresh (''facebook.com'' @ [NUL]) = Some (Inr (0, s'))
    \<and> consume_routine (Suc 3) s' (''facebook.com'' @ [NUL]) = Some (Inl Out_Of_Bounds)"
proof -
  have "r_full ring_fresh + 4 \<le> 8" by (simp add: ring_fresh_def)
  moreover have "0 < (4::nat)" by simp
  ultimately show ?thesis using test_routines_outcome [OF ring_fresh_idle(1), of 4 3] by blast
qed

end
