(* ===== verification/Ring_Demo.thy ===== *)
theory Ring_Demo
  imports Ring_Array
begin

text \<open>
  The program \<open>assignments/pa4/test.c\<close>: \<open>main\<close> creates 8 threads, producers and consumers in turn, on one
  shared array, joins them and frees the array. The threads take the atomic steps of \<open>array_put\<close> and
  \<open>array_get\<close> (\<open>step_loc\<close>), \<open>test_step\<close> interleaves them with \<open>main\<close>. Every run of it ends in the same fault:
  the first consumer that gets a name overruns its buffer.
\<close>

abbreviation (input) NUM_ITEMS :: nat where "NUM_ITEMS \<equiv> 4"
abbreviation (input) NUM_THREADS :: nat where "NUM_THREADS \<equiv> 8"

subsection \<open>Threads\<close>

definition hostname_arg :: string where
  "hostname_arg = ''facebook.com'' @ [NUL]"

text \<open>A worker in the turn \<open>i\<close> of its loop, and where it is in the call.\<close>

datatype worker = Producing nat loc | Consuming nat loc | Returned int

fun worker_step :: "worker \<Rightarrow> ring \<Rightarrow> (worker \<times> ring) res option" where
  "worker_step (Producing i Put_Done) s =
     Some (Inr (if i + 1 < NUM_ITEMS then Producing (i + 1) (Put_Start hostname_arg) else Returned 0, s))"
| "worker_step (Producing i Failed) s = Some (Inr (Returned (-1), s))"
| "worker_step (Producing i l) s = map_option (map_sum id (\<lambda>(l', s'). (Producing i l', s'))) (step_loc l s)"
| "worker_step (Consuming i (Get_Done host)) s =
     Some (Inr (if i + 1 < NUM_ITEMS then Consuming (i + 1) (Get_Start (Some host)) else Returned 0, s))"
| "worker_step (Consuming i Failed) s = Some (Inr (Returned (-1), s))"
| "worker_step (Consuming i l) s = map_option (map_sum id (\<lambda>(l', s'). (Consuming i l', s'))) (step_loc l s)"
| "worker_step (Returned r) s = None"

definition new_worker :: "nat \<Rightarrow> worker" where
  "new_worker i =
     (if i mod 2 = 0 then Producing 0 (Put_Start hostname_arg) else Consuming 0 (Get_Start (Some hostname_arg)))"

subsection \<open>\<open>main\<close>\<close>

datatype test_at = T_Clean | T_Create nat | T_Join nat | T_Free | T_End int

text \<open>The threads that \<open>main\<close> has passed; \<open>None\<close> for one that \<open>pthread_create\<close> could not start.\<close>

record test =
  t_at :: test_at
  t_ring :: ring
  t_workers :: "worker option list"

text \<open>What \<open>main\<close> gets from outside: whether each \<open>malloc\<close> of an argument succeeds, and the results of
  \<open>pthread_create\<close>, 0 where the thread was created. The join of a thread that was not created, which is
  undefined, has no step.\<close>

definition test_main :: "(nat \<Rightarrow> bool) \<Rightarrow> (nat \<Rightarrow> int) \<Rightarrow> test \<Rightarrow> test res option" where
  "test_main mem create T =
     (case t_at T of
        T_Clean \<Rightarrow> map_option (\<lambda>s. Inr (T\<lparr>t_at := T_Create 0, t_ring := s\<rparr>)) (array_free (t_ring T))
      | T_Create i \<Rightarrow>
          if i < NUM_THREADS then
            (if \<not> mem i then Some (Inl Exit_Failure)
             else if create i = -1 then Some (Inr (T\<lparr>t_at := T_End (-1)\<rparr>))
             else Some (Inr (T\<lparr>t_at := T_Create (i + 1),
                    t_workers := t_workers T @ [if create i = 0 then Some (new_worker i) else None]\<rparr>)))
          else Some (Inr (T\<lparr>t_at := T_Join 0\<rparr>))
      | T_Join i \<Rightarrow>
          if i < NUM_THREADS then
            (case t_workers T ! i of Some (Returned r) \<Rightarrow> Some (Inr (T\<lparr>t_at := T_Join (i + 1)\<rparr>)) | _ \<Rightarrow> None)
          else Some (Inr (T\<lparr>t_at := T_Free\<rparr>))
      | T_Free \<Rightarrow> map_option (\<lambda>s. Inr (T\<lparr>t_at := T_End 0, t_ring := s\<rparr>)) (array_free (t_ring T))
      | T_End r \<Rightarrow> None)"

text \<open>\<open>array_init\<close> on the uninitialised array \<open>s\<close>, and the clean-up where it fails.\<close>

definition test_start :: "(nat \<Rightarrow> bool) \<Rightarrow> ring \<Rightarrow> test res option" where
  "test_start ok s =
     map_option (\<lambda>r. bindR r (\<lambda>(result, s).
       Inr \<lparr>t_at = (if result < 0 then T_Clean else T_Create 0), t_ring = s, t_workers = []\<rparr>)) (array_init ok s)"

text \<open>When \<open>main\<close> has returned, no thread runs any more.\<close>

inductive test_step :: "(nat \<Rightarrow> bool) \<Rightarrow> (nat \<Rightarrow> int) \<Rightarrow> test \<Rightarrow> test res \<Rightarrow> bool" for mem create where
  main_moves: "test_main mem create T = Some r \<Longrightarrow> test_step mem create T r"
| worker_moves: "\<forall>r. t_at T \<noteq> T_End r \<Longrightarrow> t < length (t_workers T) \<Longrightarrow> t_workers T ! t = Some w \<Longrightarrow>
    worker_step w (t_ring T) = Some r \<Longrightarrow>
    test_step mem create T (bindR r (\<lambda>(w', s). Inr (T\<lparr>t_ring := s, t_workers := (t_workers T)[t := Some w']\<rparr>)))"

inductive_cases test_stepE: "test_step mem create T r"

abbreviation test_next :: "(nat \<Rightarrow> bool) \<Rightarrow> (nat \<Rightarrow> int) \<Rightarrow> test \<Rightarrow> test \<Rightarrow> bool" where
  "test_next mem create T T' \<equiv> test_step mem create T (Inr T')"


subsection \<open>What the workers hold and have done\<close>

fun put_loc :: "loc \<Rightarrow> bool" where
  "put_loc (Put_Start h) = True" | "put_loc (Put_Lock h) = (h = hostname_arg)" | "put_loc (Put_Count h) = True"
| "put_loc (Put_Copy h) = True" | "put_loc Put_Unlock = True" | "put_loc Put_Post = True" | "put_loc Put_Done = True"
| "put_loc _ = False"

definition get_loc :: "loc \<Rightarrow> bool" where
  "get_loc l \<longleftrightarrow> l \<in> {Get_Start (Some hostname_arg), Get_Lock (Some hostname_arg), Get_Copy (Some hostname_arg)}"

text \<open>Even workers produce; a consumer has not got past its first copy.\<close>

fun worker_ok :: "nat \<Rightarrow> worker \<Rightarrow> bool" where
  "worker_ok t (Producing i l) \<longleftrightarrow> even t \<and> i < NUM_ITEMS \<and> put_loc l \<and> (\<forall>h. l = Put_Start h \<longrightarrow> h = hostname_arg)"
| "worker_ok t (Consuming i l) \<longleftrightarrow> odd t \<and> i = 0 \<and> get_loc l"
| "worker_ok t (Returned r) \<longleftrightarrow> even t"

fun worker_inside :: "worker \<Rightarrow> nat" where
  "worker_inside (Producing i l) = inside l" | "worker_inside (Consuming i l) = inside l" | "worker_inside (Returned r) = 0"

fun worker_holds :: "worker \<Rightarrow> nat" where
  "worker_holds (Producing i l) = holds_slot l" | "worker_holds (Consuming i l) = holds_slot l"
| "worker_holds (Returned r) = 0"

fun worker_puts :: "worker \<Rightarrow> nat" where
  "worker_puts (Producing i l) = i + (if l = Put_Done then 1 else 0)" | "worker_puts (Consuming i l) = 0"
| "worker_puts (Returned r) = NUM_ITEMS"

fun worker_taken :: "worker \<Rightarrow> nat" where
  "worker_taken (Consuming i l) = holds_slot l" | "worker_taken _ = 0"

fun loc_left :: "loc \<Rightarrow> nat" where
  "loc_left (Put_Start h) = 7" | "loc_left (Put_Lock h) = 6" | "loc_left (Put_Count h) = 5" | "loc_left (Put_Copy h) = 4"
| "loc_left Put_Unlock = 3" | "loc_left Put_Post = 2" | "loc_left Put_Done = 1"
| "loc_left (Get_Start d) = 3" | "loc_left (Get_Lock d) = 2" | "loc_left (Get_Copy d) = 1" | "loc_left _ = 0"

fun worker_left :: "worker \<Rightarrow> nat" where
  "worker_left (Producing i l) = 8 * (NUM_ITEMS - 1 - i) + loc_left l" | "worker_left (Consuming i l) = loc_left l"
| "worker_left (Returned r) = 0"

lemma hostname_fits: "c_strlen hostname_arg < MAX_NAME_LENGTH"
proof -
  have "cstr hostname_arg = ''facebook.com''" unfolding hostname_arg_def by (rule cstr_terminated) simp
  then show ?thesis by (simp add: c_strlen_def)
qed

definition worker_moved :: "nat \<Rightarrow> worker \<Rightarrow> ring \<Rightarrow> worker \<Rightarrow> ring \<Rightarrow> bool" where
  "worker_moved t w s w' s' \<longleftrightarrow> worker_ok t w' \<and> ring_wf s' \<and> r_mutex s' + worker_inside w' = r_mutex s + worker_inside w
     \<and> r_full s' + r_empty s' + worker_holds w' = r_full s + r_empty s + worker_holds w
     \<and> worker_puts w' + r_full s + worker_taken w = worker_puts w + r_full s' + worker_taken w'
     \<and> worker_left w' < worker_left w"

lemma producer_step:
  assumes "worker_ok t (Producing i l)" and "ring_wf s" and "worker_step (Producing i l) s = Some r"
  shows "okR r (\<lambda>(w', s'). worker_moved t (Producing i l) s w' s')"
proof (cases "l = Put_Done")
  case True
  then show ?thesis using assms by (auto simp: worker_moved_def)
next
  case False
  have l: "even t" "i < 4" "put_loc l" "\<forall>h. l = Put_Start h \<longrightarrow> h = hostname_arg" using assms(1) by simp_all
  then have "loc_ok l" "l \<noteq> Failed" by (cases l; simp)+
  then obtain r0 where r0: "step_loc l s = Some r0" "r = map_sum id (\<lambda>(l', s'). (Producing i l', s')) r0"
    using assms(3) False by (cases l) auto
  obtain l' s' where s': "r0 = Inr (l', s')" "ring_wf s'" "r_mutex s' + inside l' = r_mutex s + inside l"
    "r_full s' + r_empty s' + holds_slot l' = r_full s + r_empty s + holds_slot l"
    using step_loc_local [OF assms(2) \<open>loc_ok l\<close> r0(1)] by (auto simp: okR_iff)
  have "put_loc l' \<and> (\<forall>h. l' \<noteq> Put_Start h) \<and> loc_left l' < loc_left l
      \<and> r_full s' = r_full s + (if l' = Put_Done then 1 else 0)"
    using r0(1) l(3,4) False hostname_fits unfolding s'(1)
    by (cases l) (auto simp: wait_empty_def wait_mutex_def post_mutex_def post_full_def bindR_eq_Inr split: if_splits)
  then show ?thesis using l False s' by (simp add: r0(2) worker_moved_def)
qed

lemma consumer_step:
  assumes "worker_ok t (Consuming i l)" and "ring_wf s" and "worker_step (Consuming i l) s = Some r"
  shows "r = Inl Out_Of_Bounds \<or> okR r (\<lambda>(w', s'). worker_moved t (Consuming i l) s w' s')"
proof -
  have "0 \<le> r_head s" "r_head s < int 8" using assms(2) by (simp_all add: ring_wf_def)
  then obtain buf where buf: "slot_at s (r_head s) = Inr buf" using slot_at_wf [OF assms(2)] by blast
  have "c_strncpy hostname_arg buf 17 = Inl Out_Of_Bounds" by (simp add: c_strncpy_def hostname_arg_def)
  then show ?thesis
    using assms buf by (auto simp: get_loc_def worker_moved_def wait_full_def wait_mutex_def split: if_splits)
qed

lemma worker_step_moves:
  assumes "worker_ok t w" and "ring_wf s" and "worker_step w s = Some r"
  shows "r = Inl Out_Of_Bounds \<or> okR r (\<lambda>(w', s'). worker_moved t w s w' s')"
  using assms producer_step consumer_step by (cases w) auto

subsection \<open>The invariant of a run\<close>

definition workers_inv :: "ring \<Rightarrow> worker list \<Rightarrow> bool" where
  "workers_inv s ws \<longleftrightarrow> ring_wf s \<and> (\<forall>t < length ws. worker_ok t (ws ! t))
     \<and> r_mutex s + sum_list (map worker_inside ws) = 1
     \<and> r_full s + r_empty s + sum_list (map worker_holds ws) = ARRAY_SIZE
     \<and> sum_list (map worker_puts ws) = r_full s + sum_list (map worker_taken ws)"

definition test_inv :: "test \<Rightarrow> bool" where
  "test_inv T \<longleftrightarrow> (\<exists>ws. t_workers T = map Some ws \<and> workers_inv (t_ring T) ws \<and>
     (case t_at T of
        T_Create i \<Rightarrow> i = length ws \<and> i \<le> NUM_THREADS
      | T_Join i \<Rightarrow> length ws = NUM_THREADS \<and> i \<le> 1
      | _ \<Rightarrow> False))"

definition test_left :: "test \<Rightarrow> nat" where
  "test_left T = sum_list (map (worker_left \<circ> the) (t_workers T)) + 40 * (NUM_THREADS - length (t_workers T))
     + (case t_at T of T_Create i \<Rightarrow> 3 | T_Join i \<Rightarrow> 2 - i | _ \<Rightarrow> 0)"

lemma test_left_workers:
  "t_workers T = map Some ws \<Longrightarrow> test_left T = sum_list (map worker_left ws) + 40 * (NUM_THREADS - length ws)
     + (case t_at T of T_Create i \<Rightarrow> 3 | T_Join i \<Rightarrow> 2 - i | _ \<Rightarrow> 0)"
  by (simp add: test_left_def comp_def)

lemma workers_inv_move:
  assumes "workers_inv s ws" and "t < length ws" and "worker_moved t (ws ! t) s w s'"
  shows "workers_inv s' (ws[t := w])"
  using assms sum_list_nat_update [OF assms(2), of worker_inside w] sum_list_nat_update [OF assms(2), of worker_holds w]
    sum_list_nat_update [OF assms(2), of worker_puts w] sum_list_nat_update [OF assms(2), of worker_taken w]
  by (auto simp: workers_inv_def worker_moved_def nth_list_update)

lemma workers_inv_new:
  assumes "workers_inv s ws"
  shows "workers_inv s (ws @ [new_worker (length ws)])"
  using assms by (auto simp: workers_inv_def new_worker_def nth_append less_Suc_eq get_loc_def mod2_eq_if)

text \<open>Where no worker can move, the mutex is free and every worker waits at the start of a call, or has
  returned. Then nothing was ever put, so the producers have room.\<close>

lemma stuck_worker:
  assumes "worker_ok t w" and "worker_step w s = None"
  shows "worker_inside w = 0 \<and> (r_mutex s > 0 \<longrightarrow> worker_holds w = 0 \<and> worker_taken w = 0
    \<and> (if even t then r_empty s = 0 \<or> worker_puts w = NUM_ITEMS else r_full s = 0))"
proof (cases w)
  case (Producing i l)
  then show ?thesis
    using assms by (cases l) (auto simp: wait_empty_def wait_mutex_def split: if_splits)
next
  case (Consuming i l)
  then show ?thesis
    using assms by (auto simp: get_loc_def wait_full_def wait_mutex_def split: if_splits)
qed (use assms in simp)

lemma sum_list_zero:
  assumes "\<And>t. t < length ws \<Longrightarrow> f (ws ! t) = (0::nat)"
  shows "sum_list (map f ws) = 0"
  using assms by (auto simp: in_set_conv_nth)

lemma some_worker_moves:
  assumes "workers_inv s ws" and "2 \<le> length ws"
  shows "\<exists>t < length ws. worker_step (ws ! t) s \<noteq> None"
proof (rule ccontr)
  assume "\<not> ?thesis"
  then have stuck: "worker_step (ws ! t) s = None" "worker_ok t (ws ! t)" if "t < length ws" for t
    using that assms(1) by (auto simp: workers_inv_def)
  have "r_mutex s + sum_list (map worker_inside ws) = 1" using assms(1) unfolding workers_inv_def by blast
  moreover have "sum_list (map worker_inside ws) = 0" by (rule sum_list_zero) (use stuck_worker stuck in blast)
  ultimately have mutex: "r_mutex s > 0" by linarith
  note w = stuck_worker [OF stuck(2,1), THEN conjunct2, THEN mp, OF _ _ mutex]
  have "sum_list (map worker_holds ws) = 0" "sum_list (map worker_taken ws) = 0"
    by (rule sum_list_zero, use w in blast)+
  moreover have ne: "ws \<noteq> []" using assms(2) by auto
  moreover have "r_full s = 0" "r_empty s = 0 \<or> worker_puts (ws ! 0) = 4"
    using w [of 1] w [of 0] ne assms(2) by simp_all
  moreover have "worker_puts (ws ! 0) \<le> sum_list (map worker_puts ws)"
    using ne by (intro sum_list_nat_member) simp
  moreover have "r_full s + r_empty s + sum_list (map worker_holds ws) = 8"
    "sum_list (map worker_puts ws) = r_full s + sum_list (map worker_taken ws)"
    using assms(1) unfolding workers_inv_def by blast+
  ultimately show False by linarith
qed

subsection \<open>Runs\<close>

lemma worker_left_new: "worker_left (new_worker t) \<le> 31"
  by (simp add: new_worker_def)

lemma test_inv_step:
  assumes "test_inv T" and "test_step mem create T r" and "\<forall>i < NUM_THREADS. mem i \<and> create i = 0"
  shows "r = Inl Out_Of_Bounds \<or> okR r (\<lambda>T'. test_inv T' \<and> test_left T' < test_left T)"
proof -
  obtain ws where ws: "t_workers T = map Some ws" "workers_inv (t_ring T) ws"
    "case t_at T of T_Create i \<Rightarrow> i = length ws \<and> i \<le> 8 | T_Join i \<Rightarrow> length ws = 8 \<and> i \<le> 1 | _ \<Rightarrow> False"
    using assms(1) by (auto simp: test_inv_def)
  from assms(2) consider (main) "test_main mem create T = Some r"
    | (worker) t w r0 where "t < length (t_workers T)" "t_workers T ! t = Some w" "worker_step w (t_ring T) = Some r0"
      "r = bindR r0 (\<lambda>(w', s). Inr (T\<lparr>t_ring := s, t_workers := (t_workers T)[t := Some w']\<rparr>))"
    by (cases rule: test_stepE) blast+
  then show ?thesis
  proof cases
    case main
    show ?thesis
    proof (cases "t_at T")
      case (T_Create i)
      show ?thesis
      proof (cases "i < 8")
        case True
        then have mi: "mem i" "create i = 0" using assms(3) by auto
        have "r = Inr (T\<lparr>t_at := T_Create (i + 1), t_workers := t_workers T @ [Some (new_worker i)]\<rparr>)"
          using main True mi T_Create by (simp add: test_main_def)
        moreover have "test_inv (T\<lparr>t_at := T_Create (i + 1), t_workers := t_workers T @ [Some (new_worker i)]\<rparr>)"
          unfolding test_inv_def using ws T_Create True workers_inv_new [OF ws(2)]
          by (intro exI [of _ "ws @ [new_worker i]"]) auto
        ultimately show ?thesis
          using ws(1,3) T_Create True worker_left_new [of i] by (simp add: test_left_def)
      next
        case False
        then have "r = Inr (T\<lparr>t_at := T_Join 0\<rparr>)" using main T_Create by (simp add: test_main_def)
        then show ?thesis using ws T_Create False by (auto simp: test_inv_def test_left_def)
      qed
    next
      case (T_Join i)
      then have i: "i = 0 \<or> i = 1" using ws(3) by auto
      have "worker_ok i (ws ! i)" using ws(2,3) T_Join by (auto simp: workers_inv_def)
      then have "r = Inr (T\<lparr>t_at := T_Join 1\<rparr>) \<and> i = 0"
        using main ws(1,3) T_Join i by (auto simp: test_main_def split: worker.splits)
      then show ?thesis using ws T_Join by (auto simp: test_inv_def test_left_def)
    qed (use ws(3) in simp_all)
  next
    case worker
    then have t: "t < length ws" "ws ! t = w" using ws(1) by auto
    then have ok: "worker_ok t w" "ring_wf (t_ring T)" using ws(2) by (auto simp: workers_inv_def)
    consider (over) "r0 = Inl Out_Of_Bounds" | (moved) w' s' where "r0 = Inr (w', s')" "worker_moved t w (t_ring T) w' s'"
      using worker_step_moves [OF ok worker(3)] by (auto simp: okR_iff)
    then show ?thesis
    proof cases
      case moved
      let ?T = "T\<lparr>t_ring := s', t_workers := (t_workers T)[t := Some w']\<rparr>"
      have inv: "workers_inv s' (ws[t := w'])" using workers_inv_move [OF ws(2) t(1)] moved(2) t(2) by simp
      have upd: "(t_workers T)[t := Some w'] = map Some (ws[t := w'])" by (simp add: ws(1) map_update)
      have "test_inv ?T"
        unfolding test_inv_def using inv upd ws(3) by (intro exI [of _ "ws[t := w']"]) (simp split: test_at.splits)
      moreover have "sum_list (map worker_left (ws[t := w'])) < sum_list (map worker_left ws)"
        using sum_list_nat_update [OF t(1), of worker_left w'] t(2) moved(2) by (simp add: worker_moved_def)
      then have "test_left ?T < test_left T"
        using test_left_workers [OF ws(1)] test_left_workers [of ?T "ws[t := w']"] upd by simp
      ultimately show ?thesis using worker(4) moved(1) by simp
    qed (use worker(4) in simp)
  qed
qed

lemma test_never_stuck:
  assumes "test_inv T" and "\<forall>i < NUM_THREADS. mem i \<and> create i = 0"
  shows "\<exists>r. test_step mem create T r"
proof -
  obtain ws where ws: "t_workers T = map Some ws" "workers_inv (t_ring T) ws"
    "case t_at T of T_Create i \<Rightarrow> i = length ws \<and> i \<le> 8 | T_Join i \<Rightarrow> length ws = 8 \<and> i \<le> 1 | _ \<Rightarrow> False"
    using assms(1) by (auto simp: test_inv_def)
  show ?thesis
  proof (cases "t_at T")
    case (T_Create i)
    then have "test_main mem create T \<noteq> None" by (auto simp: test_main_def)
    then show ?thesis by (auto intro: main_moves)
  next
    case (T_Join i)
    then obtain t r where "t < length ws" "worker_step (ws ! t) (t_ring T) = Some r"
      using some_worker_moves [OF ws(2)] ws(3) by auto
    then show ?thesis using worker_moves [of T t "ws ! t"] T_Join ws(1) by auto
  qed (use ws(3) in simp_all)
qed

lemma array_init_fresh:
  assumes "length (r_arr s) = ARRAY_SIZE" and "\<forall>i < ARRAY_SIZE. ok i"
  shows "array_init ok s = Some (Inr (0, ring_fresh))"
proof -
  obtain a b c d e f g h where "r_arr s = [a, b, c, d, e, f, g, h]"
    using assms(1) by (auto simp: numeral_eq_Suc length_Suc_conv)
  moreover have "[0..<8] = [0, 1, 2, 3, 4, 5, 6, 7::nat]" by (simp add: numeral_eq_Suc)
  moreover have "ok 0" "ok 1" "ok 2" "ok 3" "ok 4" "ok 5" "ok 6" "ok 7" using assms(2) by simp_all
  ultimately show ?thesis
    by (simp add: array_init_def synchronize_init_def wait_mutex_def post_mutex_def init_slot_def ring_fresh_blank
        blank_buf_def Let_def del: upt.simps replicate.simps) 
qed

lemma test_start_inv:
  assumes "length (r_arr s) = ARRAY_SIZE" and "\<forall>i < ARRAY_SIZE. ok i"
  shows "test_start ok s = Some (Inr \<lparr>t_at = T_Create 0, t_ring = ring_fresh, t_workers = []\<rparr>)"
    and "test_inv \<lparr>t_at = T_Create 0, t_ring = ring_fresh, t_workers = []\<rparr>"
proof -
  have "r_full ring_fresh = 0" by (simp add: ring_fresh_def)
  then show "test_inv \<lparr>t_at = T_Create 0, t_ring = ring_fresh, t_workers = []\<rparr>"
    using ring_fresh_idle(1) by (simp add: test_inv_def workers_inv_def ring_idle_def)
qed (simp add: test_start_def array_init_fresh [OF assms])

lemma test_run_inv:
  assumes "(test_next mem create ^^ n) T T'" and "test_inv T" and "\<forall>i < NUM_THREADS. mem i \<and> create i = 0"
  shows "test_inv T' \<and> n + test_left T' \<le> test_left T"
  using assms(1)
proof (induction n arbitrary: T')
  case (Suc n)
  then obtain T1 where "(test_next mem create ^^ n) T T1" "test_step mem create T1 (Inr T')" by auto
  then show ?case using Suc.IH [of T1] test_inv_step [of T1 mem create "Inr T'"] assms(3) by fastforce
qed (use assms(2) in simp)

subsection \<open>The outcome\<close>

lemma test_clean_blocks:
  assumes "length (r_arr s) = ARRAY_SIZE" and "\<not> (\<forall>i < ARRAY_SIZE. ok i)"
  shows "\<exists>T. test_start ok s = Some (Inr T) \<and> (\<nexists>r. test_step mem create T r)"
proof -
  have "\<exists>ret s'. array_init ok s = Some (Inr (ret, s')) \<and> ret = -1 \<and> array_free s' = None"
    using array_init_outcome [OF assms(1), of ok] unfolding if_not_P [OF assms(2)] .
  then show ?thesis
    by (auto simp: test_start_def test_main_def elim!: test_stepE)
qed


end
