(* ===== verification/Multi_Lookup.thy ===== *)
theory Multi_Lookup
  imports Ring_Array "HOL-Library.Multiset"
begin

text \<open>
  The name resolver of \<open>assignments/pa6\<close>: \<open>dnslookup\<close> of \<open>util.c\<close> and the requester, resolver and
  main threads of \<open>multi-lookup.c\<close>, interleaved by the step relation \<open>lookup_step\<close>. The shared array
  of \<open>array.h\<close> is not in the repository: its operations are the arguments \<open>put\<close> and \<open>get\<close>, and the
  locale \<open>array_api\<close> states what the program relies on (a bounded FIFO queue with blocking calls),
  with the array of \<open>pa4\<close> as an instance. \<open>fopen\<close> and \<open>getaddrinfo\<close> are arguments as well.
\<close>

subsection \<open>\<open>dnslookup\<close>\<close>

text \<open>An entry of the list \<open>getaddrinfo\<close> returns: for IPv4 the text \<open>inet_ntop\<close> makes of it, None
  where that fails.\<close>

datatype addr = IPv4 "string option" | IPv6 | OtherFamily

abbreviation (input) INET_ADDRSTRLEN :: nat where "INET_ADDRSTRLEN \<equiv> 16"
abbreviation (input) INET6_ADDRSTRLEN :: nat where "INET6_ADDRSTRLEN \<equiv> 46"

text \<open>\<open>strncpy(dst, src, n); dst[n - 1] = 0\<close>.\<close>

definition copy_string :: "string \<Rightarrow> string \<Rightarrow> nat \<Rightarrow> string res" where
  "copy_string dst src n = bindR (c_strncpy dst src n) (\<lambda>d. store d (int n - 1) NUL)"

text \<open>One turn of the loop: \<open>Inl\<close> in the value is the early \<open>return UTIL_FAILURE\<close>.\<close>

definition dns_entry ::
  "nat \<Rightarrow> addr \<Rightarrow> bool \<Rightarrow> string \<times> string \<Rightarrow> (string + string \<times> string) res" where
  "dns_entry maxSize a first = (\<lambda>(ipstr, firstIPstr).
     let text = (case a of IPv4 t \<Rightarrow> t | IPv6 \<Rightarrow> Some ''UNHANDELED'' | OtherFamily \<Rightarrow> Some ''UNHANDELED'') in
     case text of None \<Rightarrow> Inr (Inl firstIPstr)
     | Some t \<Rightarrow>
         bindR (copy_string ipstr t INET6_ADDRSTRLEN) (\<lambda>ipstr'.
         if first then bindR (copy_string firstIPstr ipstr' maxSize) (\<lambda>f. Inr (Inr (ipstr', f)))
         else Inr (Inr (ipstr', firstIPstr))))"

fun dns_loop :: "nat \<Rightarrow> addr list \<Rightarrow> bool \<Rightarrow> string \<times> string \<Rightarrow> (int \<times> string) res" where
  "dns_loop maxSize [] first st = Inr (0, snd st)"
| "dns_loop maxSize (a # as) first st =
     bindR (dns_entry maxSize a first st) (\<lambda>r.
     case r of Inl f \<Rightarrow> Inr (-1, f) | Inr st' \<Rightarrow> dns_loop maxSize as False st')"

definition dnslookup ::
  "(string \<Rightarrow> addr list option) \<Rightarrow> string \<Rightarrow> string \<Rightarrow> string \<Rightarrow> nat \<Rightarrow> (int \<times> string) res" where
  "dnslookup getaddrinfo ipstr hostname firstIPstr maxSize =
     (case getaddrinfo hostname of None \<Rightarrow> Inr (-1, firstIPstr)
      | Some as \<Rightarrow> dns_loop maxSize as True (ipstr, firstIPstr))"

text \<open>The text of an address, and what the loop leaves in the buffer.\<close>

definition addr_text :: "addr \<Rightarrow> string" where
  "addr_text a = (case a of IPv4 (Some t) \<Rightarrow> t | _ \<Rightarrow> ''UNHANDELED'')"

lemma copy_string_spec:
  assumes "n \<le> length dst" and "0 < n"
  shows "\<exists>d. copy_string dst src n = Inr d \<and> length d = length dst \<and> cstr d = take (n - 1) (cstr src)"
proof -
  let ?d = "take n (cstr src @ replicate n NUL) @ drop n dst"
  have l: "length (take n (cstr src @ replicate n NUL)) = n" by simp
  have "length ?d = length dst" using assms by simp
  then have "?d[n - 1 := NUL] = take (n - 1) ?d @ NUL # drop (Suc (n - 1)) ?d"
    using assms by (intro upd_conv_take_nth_drop) linarith
  also have "take (n - 1) ?d = take (n - 1) (cstr src @ replicate n NUL)" using l by (simp add: min_def)
  also have "\<dots> = take (n - 1) (cstr src) @ replicate (n - 1 - length (cstr src)) NUL" by (simp add: min_def)
  also have "drop (Suc (n - 1)) ?d = drop n dst" using assms(2) l by simp
  finally have d: "?d[n - 1 := NUL] = take (n - 1) (cstr src) @ replicate (n - 1 - length (cstr src)) NUL @ NUL # drop n dst"
    by simp
  have "NUL \<notin> set (take (n - 1) (cstr src))" using cstr_no_NUL by (meson in_set_takeD)
  then have "cstr (?d[n - 1 := NUL]) = take (n - 1) (cstr src)"
    unfolding d by (cases "n - 1 - length (cstr src)") (simp_all add: cstr_append_NUL)
  moreover have "copy_string dst src n = Inr (?d[n - 1 := NUL])"
    using assms by (simp add: copy_string_def c_strncpy_def nat_diff_distrib)
  ultimately show ?thesis using assms by simp
qed

subsection \<open>Reading a data file\<close>

text \<open>\<open>chomp\<close> is \<open>buffer[strcspn(buffer, "\n")] = 0\<close>.\<close>

definition chomp :: "string \<Rightarrow> string" where
  "chomp line = takeWhile (\<lambda>c. c \<noteq> newline) (cstr line)"

subsection \<open>Threads\<close>

text \<open>What the program gets from outside: the two calls of the shared array (None where the call
  blocks, and -1 is \<open>ERROR\<close>), \<open>MAX_NAME_LENGTH\<close> of the missing \<open>array.h\<close>, the files, the name service,
  and what the uninitialised \<open>ipstr\<close> of \<open>dnslookup\<close> holds.\<close>

record 'q env =
  e_put :: "'q \<Rightarrow> string \<Rightarrow> (int \<times> 'q) option"
  e_get :: "'q \<Rightarrow> (int \<times> string \<times> 'q) option"
  e_maxname :: nat
  e_fopen :: "string \<Rightarrow> string option"
  e_getaddrinfo :: "string \<Rightarrow> addr list option"
  e_ipstr :: string

abbreviation (input) POISON :: string where "POISON \<equiv> ''{END}''"
abbreviation (input) NOT_RESOLVED :: string where "NOT_RESOLVED \<equiv> ''NOT_RESOLVED''"
abbreviation (input) MAX_FILE_NAME_LENGTH :: nat where "MAX_FILE_NAME_LENGTH \<equiv> 20"
abbreviation (input) MAX_IP_LENGTH :: nat where "MAX_IP_LENGTH \<equiv> INET6_ADDRSTRLEN"

text \<open>Where each thread is, with the local variables that are live there: the rest of the open file,
  the host name, the buffer \<open>dns_buf\<close>. A thread is its place and its \<open>num_serviced\<close>.\<close>

datatype req = R_Get | R_Name string | R_Read string | R_Put string string | R_Log string string | R_Close | R_Exit

datatype rsv = S_Get string | S_Name string string | S_Write string string | S_Exit

datatype main_loc =
    M_Files "string list" | M_Poison_Req nat | M_Join_Req nat | M_Poison_Res nat | M_Join_Res nat | M_Cleanup int

record 'q lookup =
  l_files :: 'q
  l_hosts :: 'q
  l_serviced :: "string list"
  l_results :: "(string \<times> string) list"
  l_main :: main_loc
  l_requesters :: "(req \<times> int) list"
  l_resolvers :: "(rsv \<times> int) list"

text \<open>One step of \<open>requester\<close>: a call that other threads can see, or the local code up to the next one.\<close>

fun requester :: "'q env \<Rightarrow> req \<times> int \<Rightarrow> 'q lookup \<Rightarrow> ((req \<times> int) \<times> 'q lookup) option" where
  "requester E (R_Get, n) S =
     (case e_get E (l_files S) of None \<Rightarrow> None
      | Some (ret, name, q) \<Rightarrow>
          Some ((if ret = -1 then R_Exit else R_Name (take (MAX_FILE_NAME_LENGTH - 1) name), n), S\<lparr>l_files := q\<rparr>))"
| "requester E (R_Name f, n) S =
     Some ((if f = POISON then R_Exit
            else case e_fopen E f of None \<Rightarrow> R_Exit | Some content \<Rightarrow> R_Read content, n), S)"
| "requester E (R_Read content, n) S =
     Some ((case fgets (e_maxname E) content of None \<Rightarrow> R_Close
            | Some (line, rest) \<Rightarrow> R_Put (chomp line) rest, n), S)"
| "requester E (R_Put h rest, n) S =
     (case e_put E (l_hosts S) h of None \<Rightarrow> None
      | Some (ret, q) \<Rightarrow> Some ((if ret = -1 then R_Exit else R_Log h rest, n), S\<lparr>l_hosts := q\<rparr>))"
| "requester E (R_Log h rest, n) S = Some ((R_Read rest, n), S\<lparr>l_serviced := l_serviced S @ [h]\<rparr>)"
| "requester E (R_Close, n) S = Some ((R_Get, n + 1), S)"
| "requester E (R_Exit, n) S = None"

fun resolver :: "'q env \<Rightarrow> rsv \<times> int \<Rightarrow> 'q lookup \<Rightarrow> ((rsv \<times> int) \<times> 'q lookup) res option" where
  "resolver E (S_Get buf, n) S =
     (case e_get E (l_hosts S) of None \<Rightarrow> None
      | Some (ret, name, q) \<Rightarrow>
          Some (Inr ((if ret = -1 then S_Exit else S_Name buf (take (e_maxname E - 1) name), n), S\<lparr>l_hosts := q\<rparr>)))"
| "resolver E (S_Name buf h, n) S =
     Some (if h = POISON then Inr ((S_Exit, n), S)
       else
         bindR (dnslookup (e_getaddrinfo E) (e_ipstr E) h buf MAX_IP_LENGTH) (\<lambda>(ret, buf).
         bindR (if ret = -1 then copy_string buf NOT_RESOLVED MAX_IP_LENGTH else Inr buf) (\<lambda>buf.
         Inr ((S_Write buf h, n), S))))"
| "resolver E (S_Write buf h, n) S =
     Some (Inr ((S_Get buf, n + 1), S\<lparr>l_results := l_results S @ [(h, cstr buf)]\<rparr>))"
| "resolver E (S_Exit, n) S = None"

text \<open>\<open>main\<close> from the writing of the file names on. \<open>poison_step\<close> is one turn of the loop of
  \<open>poison_shared_array\<close> with \<open>n\<close> pills to go; main ignores whether they all were put.\<close>

definition poison_step :: "'q env \<Rightarrow> 'q \<Rightarrow> nat \<Rightarrow> (nat \<Rightarrow> main_loc) \<Rightarrow> main_loc \<Rightarrow> (main_loc \<times> 'q) option" where
  "poison_step E q n here there =
     (case n of 0 \<Rightarrow> Some (there, q)
      | Suc k \<Rightarrow> (case e_put E q POISON of None \<Rightarrow> None
          | Some (ret, q') \<Rightarrow> Some (if ret = -1 then there else here k, q')))"

definition main_step :: "'q env \<Rightarrow> 'q lookup \<Rightarrow> 'q lookup option" where
  "main_step E S =
     (case l_main S of
        M_Files [] \<Rightarrow> Some (S\<lparr>l_main := M_Poison_Req (length (l_requesters S))\<rparr>)
      | M_Files (f # fs) \<Rightarrow>
          (case e_put E (l_files S) f of None \<Rightarrow> None
           | Some (ret, q) \<Rightarrow> Some (S\<lparr>l_files := q, l_main := (if ret = -1 then M_Cleanup (-1) else M_Files fs)\<rparr>))
      | M_Poison_Req n \<Rightarrow>
          map_option (\<lambda>(l, q). S\<lparr>l_files := q, l_main := l\<rparr>)
            (poison_step E (l_files S) n M_Poison_Req (M_Join_Req 0))
      | M_Join_Req i \<Rightarrow>
          if i < length (l_requesters S)
          then if fst (l_requesters S ! i) = R_Exit then Some (S\<lparr>l_main := M_Join_Req (i + 1)\<rparr>) else None
          else Some (S\<lparr>l_main := M_Poison_Res (length (l_resolvers S))\<rparr>)
      | M_Poison_Res n \<Rightarrow>
          map_option (\<lambda>(l, q). S\<lparr>l_hosts := q, l_main := l\<rparr>)
            (poison_step E (l_hosts S) n M_Poison_Res (M_Join_Res 0))
      | M_Join_Res i \<Rightarrow>
          if i < length (l_resolvers S)
          then if fst (l_resolvers S ! i) = S_Exit then Some (S\<lparr>l_main := M_Join_Res (i + 1)\<rparr>) else None
          else Some (S\<lparr>l_main := M_Cleanup 0\<rparr>)
      | M_Cleanup r \<Rightarrow> None)"

inductive lookup_step :: "'q env \<Rightarrow> 'q lookup \<Rightarrow> 'q lookup \<Rightarrow> bool" for E where
  main_moves: "main_step E S = Some S' \<Longrightarrow> lookup_step E S S'"
| requester_moves: "t < length (l_requesters S) \<Longrightarrow> requester E (l_requesters S ! t) S = Some (l', S') \<Longrightarrow>
     lookup_step E S (S'\<lparr>l_requesters := (l_requesters S)[t := l']\<rparr>)"
| resolver_moves: "t < length (l_resolvers S) \<Longrightarrow> resolver E (l_resolvers S ! t) S = Some (Inr (l', S')) \<Longrightarrow>
     lookup_step E S (S'\<lparr>l_resolvers := (l_resolvers S)[t := l']\<rparr>)"

inductive_cases lookup_stepE: "lookup_step E S S'"

text \<open>The state after the threads were spawned: empty arrays, \<open>N\<close> requesters, a resolver for each
  (uninitialised) \<open>dns_buf\<close>, and the file names of the command line.\<close>

definition lookup_start :: "'q \<Rightarrow> 'q \<Rightarrow> string list \<Rightarrow> nat \<Rightarrow> string list \<Rightarrow> 'q lookup" where
  "lookup_start q1 q2 files N bufs =
     \<lparr>l_files = q1, l_hosts = q2, l_serviced = [], l_results = [], l_main = M_Files files,
      l_requesters = replicate N (R_Get, 0), l_resolvers = map (\<lambda>buf. (S_Get buf, 0)) bufs\<rparr>"

text \<open>\<open>spawn_threads\<close>: \<open>malloc i\<close> says whether the allocation succeeds, \<open>create i\<close> is what
  \<open>pthread_create\<close> returns; \<open>args\<close> is the caller's array of pointers (None is NULL).\<close>

definition spawn_thread ::
  "(nat \<Rightarrow> bool) \<Rightarrow> (nat \<Rightarrow> int) \<Rightarrow> nat \<Rightarrow> int \<times> 'a option list \<Rightarrow> 'a \<Rightarrow> (int \<times> 'a option list) flow res" where
  "spawn_thread malloc create i = (\<lambda>(result, args) shared.
     if \<not> malloc i then bindR (store args (int i) None) (\<lambda>args. Inr (Break (-1, args)))
     else
       bindR (store args (int i) (Some shared)) (\<lambda>args.
       let result = create i in
       if result = -1 then bindR (store args (int i) None) (\<lambda>args. Inr (Next (result, args)))
       else Inr (Next (result, args))))"

definition spawn_threads ::
  "(nat \<Rightarrow> bool) \<Rightarrow> (nat \<Rightarrow> int) \<Rightarrow> 'a option list \<Rightarrow> 'a \<Rightarrow> nat \<Rightarrow> (int \<times> 'a option list) res" where
  "spawn_threads malloc create args shared n =
     loopR (\<lambda>i st. spawn_thread malloc create i st shared) [0..<n] (0, args)"

lemma spawn_threads_fit:
  assumes "\<forall>i < n. malloc i" and "\<forall>i < n. create i \<noteq> -1" and "n \<le> length args"
  shows "spawn_threads malloc create args shared n =
    Inr (if n = 0 then 0 else create (n - 1), replicate n (Some shared) @ drop n args)"
proof -
  have "loopR (\<lambda>i st. spawn_thread malloc create i st shared) [m..<n] (r, replicate m (Some shared) @ drop m args)
    = Inr (if m < n then create (n - 1) else r, replicate n (Some shared) @ drop n args)" if "m \<le> n" for m r
    using that
  proof (induction "n - m" arbitrary: m r)
    case 0
    then show ?case by simp
  next
    case (Suc d)
    then have m: "m < n" "m < length args" using assms(3) by simp_all
    have "(replicate m (Some shared) @ drop m args)[m := Some shared] = replicate (Suc m) (Some shared) @ drop (Suc m) args"
      using m by (simp add: list_update_append Cons_nth_drop_Suc [symmetric] replicate_append_same [symmetric])
    moreover have "create m = create (n - Suc 0)" if "n \<le> Suc m"
    proof -
      have "n = Suc m" using that m by simp
      then show ?thesis by simp
    qed
    ultimately show ?case
      using Suc.hyps(1) [of "Suc m" "create m"] Suc.hyps(2) m assms(1,2)
      by (auto simp: upt_conv_Cons spawn_thread_def Let_def not_less simp del: replicate_Suc)
  qed
  from this [of 0 0] show ?thesis by (simp add: spawn_threads_def)
qed

lemma spawn_threads_overrun:
  assumes "\<forall>i < n. malloc i" and "\<forall>i < n. create i \<noteq> -1" and "length args < n"
  shows "spawn_threads malloc create args shared n = Inl Out_Of_Bounds"
proof -
  let ?m = "length args" and ?f = "\<lambda>i st. spawn_thread malloc create i st shared"
  have "loopR ?f [k..<n] (r, st) = Inl Out_Of_Bounds" if "k \<le> ?m" "length st = ?m" for k r st
    using that
  proof (induction "?m - k" arbitrary: k r st)
    case 0
    then have "k = ?m" by simp
    then show ?case using assms 0 by (simp add: upt_conv_Cons spawn_thread_def store_def)
  next
    case (Suc d)
    then have k: "k < ?m" "k < n" using assms(3) by simp_all
    show ?case
      using Suc.hyps(1) [of "Suc k" "st[k := Some shared]" "create k"] Suc.hyps(2) Suc.prems k assms(1,2)
      by (simp add: upt_conv_Cons spawn_thread_def Let_def)
  qed
  from this [of 0 args 0] show ?thesis by (simp add: spawn_threads_def)
qed

subsection \<open>What the program should do\<close>

text \<open>The host names of a file, and the text logged for one.\<close>

definition converts :: "addr \<Rightarrow> bool" where
  "converts a = (case a of IPv4 t \<Rightarrow> t \<noteq> None | _ \<Rightarrow> True)"

definition dns_text :: "(string \<Rightarrow> addr list option) \<Rightarrow> string \<Rightarrow> string" where
  "dns_text getaddrinfo h =
     (case getaddrinfo h of
        Some (a # as) \<Rightarrow> if list_all converts (a # as) then take 45 (cstr (addr_text a)) else NOT_RESOLVED
      | _ \<Rightarrow> NOT_RESOLVED)"

function file_hosts :: "nat \<Rightarrow> string \<Rightarrow> string list" where
  "file_hosts n s =
     (if n < 2 then [] else case fgets n s of None \<Rightarrow> [] | Some (line, rest) \<Rightarrow> chomp line # file_hosts n rest)"
  by pat_completeness auto
termination by (relation "measure (\<lambda>(n, s). length s)") (auto dest: fgets_shorter)

declare file_hosts.simps [simp del]

lemma file_hosts_step:
  assumes "2 \<le> n"
  shows "fgets n s = None \<Longrightarrow> file_hosts n s = []"
    and "fgets n s = Some (line, rest) \<Longrightarrow> file_hosts n s = chomp line # file_hosts n rest"
  using assms by (subst file_hosts.simps; simp)+

definition name_fits :: "nat \<Rightarrow> string \<Rightarrow> bool" where
  "name_fits n x \<longleftrightarrow> NUL \<notin> set x \<and> length x < n"

lemma chomp_fits: "length line < n \<Longrightarrow> name_fits n (chomp line)"
  using length_takeWhile_le [of "\<lambda>c. c \<noteq> newline" "cstr line"] length_takeWhile_le [of "\<lambda>c. c \<noteq> NUL" line]
    cstr_no_NUL [of line]
  by (auto simp: name_fits_def chomp_def cstr_def [symmetric] dest: set_takeWhileD)

lemma file_hosts_fit: "list_all (name_fits n) (file_hosts n s)"
proof (induction n s rule: file_hosts.induct)
  case (1 n s)
  show ?case
  proof (cases "n < 2 \<or> fgets n s = None")
    case True
    then show ?thesis by (subst file_hosts.simps) auto
  next
    case False
    then obtain line rest where r: "fgets n s = Some (line, rest)" by force
    then show ?thesis
      using False 1 [OF _ r refl] fgets_shorter [OF r] chomp_fits file_hosts_step(2) [OF _ r] by (simp add: not_less)
  qed
qed

text \<open>\<open>dnslookup\<close>: it never fails to return, and says which text is in the buffer.\<close>

lemma dns_loop_spec:
  assumes "length ipstr = INET6_ADDRSTRLEN" and "length buf = n" and "0 < n"
  shows "\<exists>d. dns_loop n as first (ipstr, buf) = Inr (if list_all converts as then 0 else -1, d) \<and> length d = n \<and>
    (list_all converts as \<longrightarrow> cstr d = (if first \<and> as \<noteq> [] then take (n - 1) (take 45 (cstr (addr_text (hd as)))) else cstr buf))"
  using assms
proof (induction as arbitrary: first ipstr buf)
  case Nil
  then show ?case by simp
next
  case (Cons a as)
  show ?case
  proof (cases "converts a")
    case False
    then show ?thesis using Cons.prems by (auto simp: dns_entry_def converts_def split: addr.splits)
  next
    case True
    then have printed: "(case a of IPv4 t \<Rightarrow> t | IPv6 \<Rightarrow> Some ''UNHANDELED'' | OtherFamily \<Rightarrow> Some ''UNHANDELED'') = Some (addr_text a)"
      by (auto simp: converts_def addr_text_def split: addr.splits)
    obtain i where i: "copy_string ipstr (addr_text a) 46 = Inr i" "length i = 46" "cstr i = take 45 (cstr (addr_text a))"
      using copy_string_spec [of 46 ipstr "addr_text a"] Cons.prems(1) by auto
    obtain b where b: "copy_string buf i n = Inr b" "length b = n" "cstr b = take (n - 1) (cstr i)"
      using copy_string_spec [of n buf i] Cons.prems by auto
    show ?thesis
      using True printed i b Cons.IH [of i buf False] Cons.IH [of i b False] Cons.prems
      by (cases first) (simp_all add: dns_entry_def)
  qed
qed

lemma dnslookup_returns:
  assumes "length ipstr = INET6_ADDRSTRLEN" and "length buf = n" and "0 < n"
  shows "\<exists>ret d. dnslookup gai ipstr h buf n = Inr (ret, d) \<and> length d = n \<and> (ret = 0 \<or> ret = -1) \<and>
    (ret = 0 \<longleftrightarrow> (\<exists>as. gai h = Some as \<and> list_all converts as)) \<and>
    (\<forall>a as. ret = 0 \<longrightarrow> gai h = Some (a # as) \<longrightarrow> cstr d = take (n - 1) (take 45 (cstr (addr_text a))))"
proof (cases "gai h")
  case None
  then show ?thesis using assms by (simp add: dnslookup_def)
next
  case (Some as)
  then show ?thesis using dns_loop_spec [OF assms, of as True] by (auto simp: dnslookup_def)
qed

lemma resolver_resolves:
  assumes "length (e_ipstr E) = 46" and "length buf = 46" and "e_getaddrinfo E h \<noteq> Some []" and "h \<noteq> POISON"
  shows "\<exists>d. resolver E (S_Name buf h, n) S = Some (Inr ((S_Write d h, n), S)) \<and> length d = 46
    \<and> cstr d = dns_text (e_getaddrinfo E) h"
proof -
  obtain ret d where r: "dnslookup (e_getaddrinfo E) (e_ipstr E) h buf 46 = Inr (ret, d)" "length d = 46"
      "ret = 0 \<or> ret = -1" "ret = 0 \<longleftrightarrow> (\<exists>as. e_getaddrinfo E h = Some as \<and> list_all converts as)"
      "\<forall>a as. ret = 0 \<longrightarrow> e_getaddrinfo E h = Some (a # as) \<longrightarrow> cstr d = take 45 (take 45 (cstr (addr_text a)))"
    using dnslookup_returns [OF assms(1,2), of "e_getaddrinfo E" h] by (simp del: take_take) blast
  show ?thesis
  proof (cases "ret = 0")
    case True
    then obtain a as where "e_getaddrinfo E h = Some (a # as)" "list_all converts (a # as)"
      using r(4) assms(3) by (metis neq_Nil_conv)
    then show ?thesis using r(1,2) r(5) True assms(4) by (simp add: dns_text_def)
  next
    case False
    obtain d' where d': "copy_string d NOT_RESOLVED 46 = Inr d'" "length d' = 46" "cstr d' = take 45 (cstr NOT_RESOLVED)"
      using copy_string_spec [of 46 d NOT_RESOLVED] r(2) by auto
    have "take 45 (cstr NOT_RESOLVED) = NOT_RESOLVED" by (simp add: cstr_def)
    moreover have "dns_text (e_getaddrinfo E) h = NOT_RESOLVED"
      using False r(3,4) by (auto simp: dns_text_def split: option.splits list.splits)
    ultimately show ?thesis using r(1,3) False d' assms(4) by simp
  qed
qed

subsection \<open>The shared array, as the program relies on it\<close>

text \<open>A bounded queue of C strings shorter than \<open>MAX_NAME_LENGTH\<close>: calls return 0, or block (None).\<close>

locale array_api =
  fixes put :: "'q \<Rightarrow> string \<Rightarrow> (int \<times> 'q) option"
    and get :: "'q \<Rightarrow> (int \<times> string \<times> 'q) option"
    and inv :: "'q \<Rightarrow> bool"
    and contents :: "'q \<Rightarrow> string list"
    and maxname :: nat
    and cap :: nat
  assumes api_put_room: "inv q \<Longrightarrow> name_fits maxname x \<Longrightarrow> length (contents q) < cap \<Longrightarrow>
      \<exists>q'. put q x = Some (0, q') \<and> inv q' \<and> contents q' = contents q @ [x]"
    and api_put_full: "inv q \<Longrightarrow> name_fits maxname x \<Longrightarrow> length (contents q) = cap \<Longrightarrow> put q x = None"
    and api_get_first: "inv q \<Longrightarrow> contents q = x # xs \<Longrightarrow>
      \<exists>q'. get q = Some (0, x, q') \<and> inv q' \<and> contents q' = xs"
    and api_get_empty: "inv q \<Longrightarrow> contents q = [] \<Longrightarrow> get q = None"
    and api_bound: "inv q \<Longrightarrow> length (contents q) \<le> cap"
    and api_room: "0 < cap"

text \<open>Such an array is a bounded FIFO queue.\<close>

definition put_ok :: "('q \<Rightarrow> string \<Rightarrow> (int \<times> 'q) option) \<Rightarrow> 'q \<Rightarrow> string \<Rightarrow> 'q option" where
  "put_ok put q x = (case put q x of Some (ret, q') \<Rightarrow> (if ret = 0 then Some q' else None) | None \<Rightarrow> None)"

definition get_ok :: "('q \<Rightarrow> (int \<times> string \<times> 'q) option) \<Rightarrow> 'q \<Rightarrow> (string \<times> 'q) option" where
  "get_ok get q = (case get q of Some (ret, x, q') \<Rightarrow> (if ret = 0 then Some (x, q') else None) | None \<Rightarrow> None)"

sublocale array_api \<subseteq> fifo: bounded_fifo "put_ok put" "get_ok get" inv contents "name_fits maxname" cap
proof
  fix q x
  assume "inv q" "name_fits maxname x"
  then show "\<exists>q'. put_ok put q x = Some q' \<and> inv q' \<and> contents q' = contents q @ [x]" if "length (contents q) < cap"
    using api_put_room [of q x] that by (auto simp: put_ok_def)
  show "put_ok put q x = None" if "length (contents q) = cap"
    using api_put_full \<open>inv q\<close> \<open>name_fits maxname x\<close> that by (simp add: put_ok_def)
next
  fix q x xs
  assume "inv q" "contents q = x # xs"
  then show "\<exists>q'. get_ok get q = Some (x, q') \<and> inv q' \<and> contents q' = xs"
    using api_get_first [of q x xs] by (auto simp: get_ok_def)
next
  fix q
  assume "inv q"
  then show "length (contents q) \<le> cap" by (rule api_bound)
  show "get_ok get q = None" if "contents q = []" using api_get_empty [OF \<open>inv q\<close> that] by (simp add: get_ok_def)
qed

text \<open>The array of \<open>assignments/pa4\<close> provides it, for calls that do not overlap.\<close>

definition pa4_put :: "ring \<Rightarrow> string \<Rightarrow> (int \<times> ring) option" where
  "pa4_put s x = (case array_put s (x @ [NUL]) of Some (Inr r) \<Rightarrow> Some r | _ \<Rightarrow> None)"

definition pa4_get :: "ring \<Rightarrow> (int \<times> string \<times> ring) option" where
  "pa4_get s = (case array_get s (Some (replicate MAX_NAME_LENGTH NUL)) of
     Some (Inr (ret, Some d, s')) \<Rightarrow> Some (ret, cstr d, s') | _ \<Rightarrow> None)"

definition pa4_inv :: "ring \<Rightarrow> bool" where
  "pa4_inv s \<longleftrightarrow> ring_idle s \<and> list_all host_fits (ring_contents s)"

lemma host_fits_name: "host_fits = name_fits MAX_NAME_LENGTH"
  by (rule ext) (simp add: host_fits_def name_fits_def)

interpretation pa4: array_api pa4_put pa4_get pa4_inv ring_contents MAX_NAME_LENGTH ARRAY_SIZE
proof
  fix q x
  assume q: "pa4_inv q" and x: "name_fits MAX_NAME_LENGTH x"
  have c: "cstr (x @ [NUL]) = x" "c_strlen (x @ [NUL]) < MAX_NAME_LENGTH"
    using x cstr_terminated [of x] by (simp_all add: name_fits_def c_strlen_def)
  show "\<exists>q'. pa4_put q x = Some (0, q') \<and> pa4_inv q' \<and> ring_contents q' = ring_contents q @ [x]"
    if "length (ring_contents q) < ARRAY_SIZE"
    using array_put_fifo [OF _ _ c(2), of q] that q x c(1) by (auto simp: pa4_put_def pa4_inv_def host_fits_name)
  show "pa4_put q x = None" if "length (ring_contents q) = ARRAY_SIZE"
    using that q by (simp add: pa4_put_def array_put_def wait_empty_def pa4_inv_def ring_idle_def)
next
  fix q x xs
  assume *: "pa4_inv q" "ring_contents q = x # xs"
  have "take 17 x = x" using * by (simp add: pa4_inv_def host_fits_def)
  then show "\<exists>q'. pa4_get q = Some (0, x, q') \<and> pa4_inv q' \<and> ring_contents q' = xs"
    using array_get_fifo [of q x xs "replicate 18 NUL"] * by (auto simp: pa4_get_def pa4_inv_def)
next
  fix q
  assume "pa4_inv q"
  then show "length (ring_contents q) \<le> ARRAY_SIZE" by (simp add: pa4_inv_def ring_idle_def)
  show "pa4_get q = None" if "ring_contents q = []"
    using that by (simp add: ring_contents_def pa4_get_def array_get_def wait_full_def)
qed simp

subsection \<open>Properties of the parts\<close>

text \<open>\<open>dnslookup\<close> returns without a fault. It succeeds exactly when the name is known and every IPv4
  address of the list can be converted to text; then the buffer holds the text of the first address,
  cut at \<open>maxSize - 1\<close>, which for an address that is not IPv4 is \<open>UNHANDELED\<close>.\<close>

lemma dnslookup_first_address:
  assumes "length ipstr = INET6_ADDRSTRLEN" and "length buf = maxSize" and "0 < maxSize"
  shows "\<exists>ret d. dnslookup getaddrinfo ipstr h buf maxSize = Inr (ret, d) \<and> length d = maxSize \<and>
    (if \<exists>as. getaddrinfo h = Some as \<and> list_all converts as then
       ret = 0 \<and> (\<forall>a as. getaddrinfo h = Some (a # as) \<longrightarrow> cstr d = take (maxSize - 1) (take 45 (cstr (addr_text a))))
     else ret = -1)"
proof -
  obtain ret d where r: "dnslookup getaddrinfo ipstr h buf maxSize = Inr (ret, d)" "length d = maxSize" "ret = 0 \<or> ret = -1"
      "ret = 0 \<longleftrightarrow> (\<exists>as. getaddrinfo h = Some as \<and> list_all converts as)"
      "\<forall>a as. ret = 0 \<longrightarrow> getaddrinfo h = Some (a # as) \<longrightarrow> cstr d = take (maxSize - 1) (take 45 (cstr (addr_text a)))"
    using dnslookup_returns [OF assms, of getaddrinfo h] by (simp del: take_take) blast
  then show ?thesis by (cases "ret = 0") (auto simp del: take_take)
qed

lemma dnslookup_first_address_witness:
  "\<exists>d. dnslookup (\<lambda>h. Some [IPv4 (Some ''10.0.0.1''), IPv6]) (replicate 46 NUL) ''a.org'' (replicate 46 NUL) 46 = Inr (0, d)
     \<and> cstr d = ''10.0.0.1''"
  using dnslookup_first_address [of "replicate 46 NUL" "replicate 46 NUL" 46 "\<lambda>h. Some [IPv4 (Some ''10.0.0.1''), IPv6]" "''a.org''"]
  by (auto simp: converts_def addr_text_def cstr_def)

text \<open>\<open>spawn_threads\<close> fills one entry of the caller's array per thread and returns what the last
  \<open>pthread_create\<close> returned, so a failure of an earlier one is forgotten. \<open>main\<close> gives its resolvers an
  array with one entry per requester: with more resolvers than requesters the array is overrun.\<close>

lemma resolver_arguments_overrun:
  assumes "\<forall>i < num_resolvers. malloc i" and "\<forall>i < num_resolvers. create i \<noteq> -1"
  shows "spawn_threads malloc create (replicate num_requesters None) shared num_resolvers =
    (if num_resolvers \<le> num_requesters
     then Inr (if num_resolvers = 0 then 0 else create (num_resolvers - 1),
       replicate num_resolvers (Some shared) @ replicate (num_requesters - num_resolvers) None)
     else Inl Out_Of_Bounds)"
  using spawn_threads_fit [OF assms, of "replicate num_requesters None"]
    spawn_threads_overrun [OF assms, of "replicate num_requesters None"]
  by (cases "num_resolvers \<le> num_requesters") (simp_all split del: if_split)

lemma resolver_arguments_overrun_witness:
  "spawn_threads (\<lambda>i. True) (\<lambda>i. if i = 0 then 11 else 0) (replicate 2 None) () 2 = Inr (0, [Some (), Some ()])
   \<and> spawn_threads (\<lambda>i. True) (\<lambda>i. 0) (replicate 1 None) () 3 = Inl Out_Of_Bounds"
  using resolver_arguments_overrun [of 2 "\<lambda>i. True" "\<lambda>i. if i = 0 then 11 else 0" 2 "()"]
    resolver_arguments_overrun [of 3 "\<lambda>i. True" "\<lambda>i. 0" 1 "()"]
  by (simp add: numeral_2_eq_2)

end
