(* ===== verification/Lookup_Run.thy ===== *)
theory Lookup_Run
  imports Multi_Lookup
begin

text \<open>
  Runs of the resolver of \<open>Multi_Lookup\<close>: the invariant that no host name is lost or duplicated and
  that the pills come last, progress, and the variant that bounds every run. All of it is proved for any
  array that meets \<open>array_api\<close>, inside the locale, and used on the program at the end.
\<close>

subsection \<open>Pills\<close>

definition pills :: "string list \<Rightarrow> nat" where "pills xs = count_list xs POISON"
definition names :: "string list \<Rightarrow> string list" where "names xs = filter (\<lambda>x. x \<noteq> POISON) xs"
definition pills_last :: "string list \<Rightarrow> bool" where "pills_last xs \<longleftrightarrow> xs = names xs @ replicate (pills xs) POISON"

lemma pills_simps [simp]:
  "pills [] = 0" "pills (xs @ ys) = pills xs + pills ys" "pills (x # xs) = of_bool (x = POISON) + pills xs"
  "names [] = []" "names (xs @ ys) = names xs @ names ys" "names (x # xs) = (if x = POISON then names xs else x # names xs)"
  "pills_last []"
  by (simp_all add: pills_def names_def pills_last_def count_list_append)

lemma set_names: "set (names xs) = set xs - {POISON}"
  by (auto simp: names_def)

lemma pills_last_pill: "pills_last xs \<Longrightarrow> pills_last (xs @ [POISON])"
  by (simp add: pills_last_def replicate_append_same [symmetric])

lemma pills_last_name: "pills_last xs \<Longrightarrow> pills xs = 0 \<Longrightarrow> x \<noteq> POISON \<Longrightarrow> pills_last (xs @ [x])"
  by (simp add: pills_last_def)

lemma pills_last_tail:
  assumes "pills_last (x # xs)"
  shows "pills_last xs" and "x = POISON \<Longrightarrow> names xs = []"
proof -
  have *: "x # xs = names (x # xs) @ replicate (pills (x # xs)) POISON" using assms by (simp only: pills_last_def)
  show n: "names xs = []" if "x = POISON"
  proof (cases "names xs")
    case (Cons y ys)
    then have "y \<noteq> POISON" using set_names [of xs] by auto
    then show ?thesis using * that Cons by simp
  qed
  show "pills_last xs"
    using * n by (cases "x = POISON") (simp_all add: pills_last_def)
qed

lemma pills_last_none: "pills_last xs \<Longrightarrow> names xs = [] \<Longrightarrow> pills xs = 0 \<Longrightarrow> xs = []"
  by (simp add: pills_last_def)

subsection \<open>What each thread still has to do\<close>

definition hosts_of :: "'q env \<Rightarrow> string \<Rightarrow> string list" where
  "hosts_of E f = (case e_fopen E f of None \<Rightarrow> [] | Some content \<Rightarrow> file_hosts (e_maxname E) content)"

definition all_hosts :: "'q env \<Rightarrow> string list \<Rightarrow> string multiset" where
  "all_hosts E files = (\<Sum>f\<leftarrow>files. mset (hosts_of E f))"

lemma all_hosts_simps [simp]:
  "all_hosts E [] = {#}" "all_hosts E (f # fs) = mset (hosts_of E f) + all_hosts E fs"
  "all_hosts E (fs @ gs) = all_hosts E fs + all_hosts E gs"
  by (simp_all add: all_hosts_def)

lemma in_sum_mset: "h \<in># f l \<Longrightarrow> l \<in> set ls \<Longrightarrow> h \<in># (\<Sum>l\<leftarrow>ls. f l)"
  by (induction ls) auto

lemma in_all_hosts: "h \<in># all_hosts E files \<Longrightarrow> \<exists>f \<in> set files. h \<in> set (hosts_of E f)"
  by (induction files) auto

lemma hosts_of_fit: "h \<in> set (hosts_of E f) \<Longrightarrow> name_fits (e_maxname E) h"
  using file_hosts_fit [of "e_maxname E"] by (auto simp: hosts_of_def list_all_iff split: option.splits)

fun req_pill :: "req \<Rightarrow> nat" where
  "req_pill (R_Name f) = of_bool (f = POISON)" | "req_pill R_Exit = 1" | "req_pill _ = 0"

fun res_pill :: "rsv \<Rightarrow> nat" where
  "res_pill (S_Name buf h) = of_bool (h = POISON)" | "res_pill S_Exit = 1" | "res_pill _ = 0"

text \<open>The hosts a requester will still put, and those it will still log.\<close>

fun req_todo :: "'q env \<Rightarrow> req \<Rightarrow> string multiset" where
  "req_todo E (R_Name f) = (if f = POISON then {#} else mset (hosts_of E f))"
| "req_todo E (R_Read c) = mset (file_hosts (e_maxname E) c)"
| "req_todo E (R_Put h c) = {#h#} + mset (file_hosts (e_maxname E) c)"
| "req_todo E (R_Log h c) = mset (file_hosts (e_maxname E) c)"
| "req_todo E _ = {#}"

fun req_unlogged :: "'q env \<Rightarrow> req \<Rightarrow> string multiset" where
  "req_unlogged E (R_Log h c) = {#h#} + mset (file_hosts (e_maxname E) c)"
| "req_unlogged E l = req_todo E l"

fun res_todo :: "rsv \<Rightarrow> string multiset" where
  "res_todo (S_Name buf h) = (if h = POISON then {#} else {#h#})"
| "res_todo (S_Write buf h) = {#h#}"
| "res_todo _ = {#}"

fun req_ok :: "string list \<Rightarrow> req \<Rightarrow> bool" where
  "req_ok files (R_Name f) = (f = POISON \<or> f \<in> set files)" | "req_ok files _ = True"

fun res_ok :: "'q env \<Rightarrow> rsv \<Rightarrow> bool" where
  "res_ok E (S_Get buf) = (length buf = 46)"
| "res_ok E (S_Name buf h) = (length buf = 46)"
| "res_ok E (S_Write buf h) = (length buf = 46 \<and> cstr buf = dns_text (e_getaddrinfo E) h)"
| "res_ok E S_Exit = True"

fun main_files :: "main_loc \<Rightarrow> string list" where
  "main_files (M_Files fs) = fs" | "main_files _ = []"

fun req_pills_left :: "nat \<Rightarrow> main_loc \<Rightarrow> nat" where
  "req_pills_left N (M_Files fs) = N" | "req_pills_left N (M_Poison_Req n) = n" | "req_pills_left N _ = 0"

fun res_pills_left :: "nat \<Rightarrow> main_loc \<Rightarrow> nat" where
  "res_pills_left M (M_Poison_Res n) = n" | "res_pills_left M (M_Join_Res i) = 0"
| "res_pills_left M (M_Cleanup r) = 0" | "res_pills_left M _ = M"

text \<open>What main has waited for.\<close>

fun joined :: "main_loc \<Rightarrow> req list \<Rightarrow> rsv list \<Rightarrow> bool" where
  "joined (M_Files fs) rq rs = True"
| "joined (M_Poison_Req n) rq rs = True"
| "joined (M_Join_Req i) rq rs = (i \<le> length rq \<and> list_all (\<lambda>l. l = R_Exit) (take i rq))"
| "joined (M_Poison_Res n) rq rs = list_all (\<lambda>l. l = R_Exit) rq"
| "joined (M_Join_Res i) rq rs =
     (list_all (\<lambda>l. l = R_Exit) rq \<and> i \<le> length rs \<and> list_all (\<lambda>l. l = S_Exit) (take i rs))"
| "joined (M_Cleanup r) rq rs =
     (r = 0 \<and> list_all (\<lambda>l. l = R_Exit) rq \<and> list_all (\<lambda>l. l = S_Exit) rs)"

lemma list_all_take_replace: "list_all P (take n (x # post)) \<Longrightarrow> \<not> P x \<Longrightarrow> list_all P (take n (y # post))"
  by (cases n) simp_all

lemma joined_req: "joined m (pre @ l # post) rs \<Longrightarrow> l \<noteq> R_Exit \<Longrightarrow> joined m (pre @ l' # post) rs"
  by (cases m) (auto intro: list_all_take_replace)

lemma joined_res: "joined m rq (pre @ l # post) \<Longrightarrow> l \<noteq> S_Exit \<Longrightarrow> joined m rq (pre @ l' # post)"
  by (cases m) (auto intro: list_all_take_replace)

lemma joined_alive: "joined m (pre @ l # post) rs \<Longrightarrow> l \<noteq> R_Exit \<Longrightarrow> res_pills_left M m = M"
  by (cases m) auto

fun waiting :: "rsv \<Rightarrow> bool" where
  "waiting (S_Get buf) = True" | "waiting _ = False"

text \<open>How many steps a file text, a name, a thread and main can still take; a started host costs its
  resolver's steps as well.\<close>

definition text_work :: "string \<Rightarrow> nat" where "text_work c = 10 * length c + 2"

definition name_work :: "'q env \<Rightarrow> string \<Rightarrow> nat" where
  "name_work E x = (if x = POISON then 1 else case e_fopen E x of None \<Rightarrow> 1 | Some c \<Rightarrow> text_work c + 1)"

fun req_work :: "'q env \<Rightarrow> req \<Rightarrow> nat" where
  "req_work E (R_Name x) = name_work E x" | "req_work E (R_Read c) = text_work c"
| "req_work E (R_Put h c) = text_work c + 9" | "req_work E (R_Log h c) = text_work c + 1"
| "req_work E R_Close = 1" | "req_work E _ = 0"

fun res_work :: "rsv \<Rightarrow> nat" where
  "res_work (S_Name buf h) = 3" | "res_work (S_Write buf h) = 2" | "res_work _ = 0"

fun main_work :: "'q env \<Rightarrow> nat \<Rightarrow> nat \<Rightarrow> main_loc \<Rightarrow> nat" where
  "main_work E N M (M_Files fs) = (\<Sum>f\<leftarrow>fs. name_work E f + 2) + 5 * N + 6 * M + 6"
| "main_work E N M (M_Poison_Req n) = 4 * n + N + 6 * M + 5"
| "main_work E N M (M_Join_Req i) = (N - i) + 6 * M + 4"
| "main_work E N M (M_Poison_Res n) = 5 * n + M + 3"
| "main_work E N M (M_Join_Res i) = (M - i) + 1"
| "main_work E N M (M_Cleanup r) = 0"

text \<open>The conditions under which the program is meant to run.\<close>

definition lookup_ok :: "'q env \<Rightarrow> string list \<Rightarrow> bool" where
  "lookup_ok E files \<longleftrightarrow> 6 \<le> e_maxname E \<and> length (e_ipstr E) = 46
     \<and> (\<forall>f \<in> set files. name_fits (min MAX_FILE_NAME_LENGTH (e_maxname E)) f \<and> f \<noteq> POISON
          \<and> e_fopen E f \<noteq> None \<and> POISON \<notin> set (hosts_of E f))
     \<and> (\<forall>h. e_getaddrinfo E h \<noteq> Some [])"

subsection \<open>The invariant\<close>

context array_api
begin

definition lookup_inv :: "'q env \<Rightarrow> string list \<Rightarrow> nat \<Rightarrow> nat \<Rightarrow> 'q lookup \<Rightarrow> bool" where
  "lookup_inv E files N M S \<longleftrightarrow>
     (let rq = map fst (l_requesters S); rs = map fst (l_resolvers S);
          F = contents (l_files S); H = contents (l_hosts S) in
     inv (l_files S) \<and> inv (l_hosts S) \<and> length rq = N \<and> length rs = M
     \<and> pills_last F \<and> pills_last H \<and> set F \<subseteq> insert POISON (set files) \<and> set (main_files (l_main S)) \<subseteq> set files
     \<and> req_pills_left N (l_main S) + pills F + (\<Sum>l\<leftarrow>rq. req_pill l) = N
     \<and> res_pills_left M (l_main S) + pills H + (\<Sum>l\<leftarrow>rs. res_pill l) = M
     \<and> (0 < (\<Sum>l\<leftarrow>rq. req_pill l) \<longrightarrow> names F = []) \<and> (0 < (\<Sum>l\<leftarrow>rs. res_pill l) \<longrightarrow> names H = [])
     \<and> joined (l_main S) rq rs \<and> list_all (req_ok files) rq \<and> list_all (res_ok E) rs
     \<and> all_hosts E (main_files (l_main S)) + all_hosts E (names F) + (\<Sum>l\<leftarrow>rq. req_todo E l)
         + mset (names H) + (\<Sum>l\<leftarrow>rs. res_todo l) + mset (map fst (l_results S)) = all_hosts E files
     \<and> all_hosts E (main_files (l_main S)) + all_hosts E (names F) + (\<Sum>l\<leftarrow>rq. req_unlogged E l)
         + mset (l_serviced S) = all_hosts E files
     \<and> (\<forall>(h, ip) \<in> set (l_results S). ip = dns_text (e_getaddrinfo E) h))"

lemma pill_fits: "lookup_ok E files \<Longrightarrow> name_fits (e_maxname E) POISON"
  by (simp add: lookup_ok_def name_fits_def)

lemma file_fits:
  "lookup_ok E files \<Longrightarrow> f \<in> set files \<Longrightarrow> name_fits (e_maxname E) f \<and> take 19 f = f \<and> f \<noteq> POISON
     \<and> (\<exists>content. e_fopen E f = Some content)"
  by (auto simp: lookup_ok_def name_fits_def)

lemma host_ok: "lookup_ok E files \<Longrightarrow> h \<in># all_hosts E files \<Longrightarrow> name_fits (e_maxname E) h \<and> h \<noteq> POISON"
  using in_all_hosts [of h E files] hosts_of_fit [of h E] by (auto simp: lookup_ok_def)

lemma lookup_inv_start:
  assumes "inv q1" and "contents q1 = []" and "inv q2" and "contents q2 = []" and "\<forall>buf \<in> set bufs. length buf = 46"
  shows "lookup_inv E files N (length bufs) (lookup_start q1 q2 files N bufs)"
proof -
  have "(\<Sum>l\<leftarrow>replicate N R_Get. req_pill l) = 0" "(\<Sum>l\<leftarrow>replicate N R_Get. req_todo E l) = {#}"
    "(\<Sum>l\<leftarrow>replicate N R_Get. req_unlogged E l) = {#}"
    by (induction N) simp_all
  moreover have "(\<Sum>buf\<leftarrow>bufs. res_pill (S_Get buf)) = 0" "(\<Sum>buf\<leftarrow>bufs. res_todo (S_Get buf)) = {#}"
    by (induction bufs) simp_all
  ultimately show ?thesis
    using assms by (simp add: lookup_inv_def lookup_start_def Let_def list_all_iff o_def)
qed

lemma requester_inv:
  assumes ok: "lookup_ok E files" and env: "e_put E = put" "e_get E = get" "e_maxname E = maxname"
    and inv: "lookup_inv E files N M S" and t: "t < length (l_requesters S)"
    and step: "requester E (l_requesters S ! t) S = Some (l', S')"
  shows "lookup_inv E files N M (S'\<lparr>l_requesters := (l_requesters S)[t := l']\<rparr>)"
proof -
  obtain l n where l: "l_requesters S ! t = (l, n)" by fastforce
  obtain A B where rq: "l_requesters S = A @ (l, n) # B" and new: "t = length A"
    using id_take_nth_drop [OF t] t l by (metis length_take min.absorb4)
  let ?F = "contents (l_files S)" and ?H = "contents (l_hosts S)"
  have files: "inv (l_files S)" "pills_last ?F" "set ?F \<subseteq> insert POISON (set files)" and hosts: "inv (l_hosts S)"
    and l_ok: "req_ok files l"
    using inv by (simp_all add: lookup_inv_def Let_def rq)
  show ?thesis
  proof (cases l)
    case R_Exit
    then show ?thesis using step l by simp
  next
    case R_Close
    then have "l' = (R_Get, n + 1)" "S' = S" using step l by simp_all
    then show ?thesis using inv R_Close joined_req [of "l_main S" "map fst A" l "map fst B" _ R_Get]
      by (simp add: lookup_inv_def Let_def rq new)
  next
    case R_Get
    then obtain x xs q where F: "?F = x # xs" "get (l_files S) = Some (0, x, q)" "inv q" "contents q = xs"
      using step l env api_get_empty [OF files(1)] api_get_first [OF files(1)] by (cases ?F) fastforce+
    have x: "take 19 x = x" "x = POISON \<or> x \<in> set files" using files(3) F(1) file_fits [OF ok, of x] by auto
    then have step': "l' = (R_Name x, n)" "S' = S\<lparr>l_files := q\<rparr>" using step l R_Get env F(2) by simp_all
    show ?thesis
      using inv F x pills_last_tail [of x xs] joined_req [of "l_main S" "map fst A" l "map fst B" _ "R_Name x"] R_Get
      by (cases "x = POISON") (simp_all add: lookup_inv_def Let_def rq new step' ac_simps del: sum_list_eq_0_iff)
  next
    case (R_Name f)
    show ?thesis
    proof (cases "f = POISON")
      case True
      then have "l' = (R_Exit, n)" "S' = S" using step l R_Name by simp_all
      then show ?thesis using inv R_Name True joined_req [of "l_main S" "map fst A" l "map fst B" _ R_Exit]
        by (auto simp: lookup_inv_def Let_def rq new simp del: sum_list_eq_0_iff)
    next
      case False
      then obtain c where c: "e_fopen E f = Some c" using l_ok R_Name file_fits [OF ok, of f] by auto
      then have "l' = (R_Read c, n)" "S' = S" using step l R_Name False by simp_all
      then show ?thesis using inv R_Name False c joined_req [of "l_main S" "map fst A" l "map fst B" _ "R_Read c"]
        by (simp add: lookup_inv_def Let_def rq new hosts_of_def)
    qed
  next
    case (R_Read c)
    have two: "2 \<le> e_maxname E" using ok by (simp add: lookup_ok_def)
    show ?thesis
    proof (cases "fgets (e_maxname E) c")
      case None
      then have "l' = (R_Close, n)" "S' = S" using step l R_Read by simp_all
      then show ?thesis
        using inv R_Read file_hosts_step(1) [OF two None] joined_req [of "l_main S" "map fst A" l "map fst B" _ R_Close]
        by (simp add: lookup_inv_def Let_def rq new)
    next
      case (Some r)
      then obtain line rest where r: "fgets (e_maxname E) c = Some (line, rest)" by force
      then have "l' = (R_Put (chomp line) rest, n)" "S' = S" using step l R_Read by simp_all
      then show ?thesis
        using inv R_Read file_hosts_step(2) [OF two r] joined_req [of "l_main S" "map fst A" l "map fst B" _ "R_Put (chomp line) rest"]
        by (simp add: lookup_inv_def Let_def rq new)
    qed
  next
    case (R_Put h c)
    have "joined (l_main S) (map fst A @ l # map fst B) (map fst (l_resolvers S))"
      using inv by (simp add: lookup_inv_def Let_def rq)
    from joined_alive [OF this] have alive: "res_pills_left M (l_main S) = M" using R_Put by simp
    then have none: "pills ?H = 0" "(\<Sum>l\<leftarrow>l_resolvers S. res_pill (fst l)) = 0" "pills_last ?H"
      using inv by (simp_all add: lookup_inv_def Let_def o_def)
    have "h \<in># (\<Sum>l\<leftarrow>map fst (l_requesters S). req_unlogged E l)" by (simp add: rq R_Put)
    moreover have "all_hosts E (main_files (l_main S)) + all_hosts E (names ?F)
        + (\<Sum>l\<leftarrow>map fst (l_requesters S). req_unlogged E l) + mset (l_serviced S) = all_hosts E files"
      using inv unfolding lookup_inv_def Let_def by blast
    ultimately have "h \<in># all_hosts E files" by (metis union_iff)
    then have h: "name_fits maxname h" "h \<noteq> POISON" using host_ok [OF ok] env(3) by simp_all
    then obtain q where q: "put (l_hosts S) h = Some (0, q)" "inv q" "contents q = ?H @ [h]"
      using step l R_Put env api_put_full [OF hosts, of h] api_put_room [OF hosts, of h] api_bound [OF hosts]
      by (cases "length ?H = cap") auto
    then have step': "l' = (R_Log h c, n)" "S' = S\<lparr>l_hosts := q\<rparr>" using step l R_Put env by simp_all
    show ?thesis
      using inv q none h pills_last_name [of ?H h] R_Put joined_req [of "l_main S" "map fst A" l "map fst B" _ "R_Log h c"]
      by (simp add: lookup_inv_def Let_def rq new step' o_def ac_simps)
  next
    case (R_Log h c)
    then have "l' = (R_Read c, n)" "S' = S\<lparr>l_serviced := l_serviced S @ [h]\<rparr>" using step l by simp_all
    then show ?thesis using inv R_Log joined_req [of "l_main S" "map fst A" l "map fst B" _ "R_Read c"]
      by (simp add: lookup_inv_def Let_def rq new ac_simps)
  qed
qed

lemma resolver_inv:
  assumes ok: "lookup_ok E files" and env: "e_put E = put" "e_get E = get" "e_maxname E = maxname"
    and inv: "lookup_inv E files N M S" and t: "t < length (l_resolvers S)"
    and step: "resolver E (l_resolvers S ! t) S = Some (Inr (l', S'))"
  shows "lookup_inv E files N M (S'\<lparr>l_resolvers := (l_resolvers S)[t := l']\<rparr>)"
proof -
  obtain l n where l: "l_resolvers S ! t = (l, n)" by fastforce
  obtain A B where rs: "l_resolvers S = A @ (l, n) # B" and new: "t = length A"
    using id_take_nth_drop [OF t] t l by (metis length_take min.absorb4)
  let ?H = "contents (l_hosts S)"
  have hosts: "inv (l_hosts S)" "pills_last ?H" and l_ok: "res_ok E l"
    using inv by (simp_all add: lookup_inv_def Let_def rs)
  have total: "all_hosts E (main_files (l_main S)) + all_hosts E (names (contents (l_files S)))
      + (\<Sum>l\<leftarrow>map fst (l_requesters S). req_todo E l) + mset (names ?H)
      + (\<Sum>l\<leftarrow>map fst (l_resolvers S). res_todo l) + mset (map fst (l_results S)) = all_hosts E files"
    using inv unfolding lookup_inv_def Let_def by blast
  show ?thesis
  proof (cases l)
    case S_Exit
    then show ?thesis using step l by simp
  next
    case (S_Get buf)
    then obtain x xs q where H: "?H = x # xs" "get (l_hosts S) = Some (0, x, q)" "inv q" "contents q = xs"
      using step l env api_get_empty [OF hosts(1)] api_get_first [OF hosts(1)] by (cases ?H) fastforce+
    have "x = POISON \<or> x \<in># mset (names ?H)" using H(1) by simp
    then have "x = POISON \<or> x \<in># all_hosts E files" using total by (metis union_iff)
    then have "length x < maxname"
      using host_ok [OF ok, of x] ok env(3) by (auto simp: name_fits_def lookup_ok_def)
    then have "take (maxname - 1) x = x" by simp
    then have step': "l' = (S_Name buf x, n)" "S' = S\<lparr>l_hosts := q\<rparr>" using step l S_Get env H(2) by simp_all
    show ?thesis
      using inv H pills_last_tail [of x xs] joined_res [of "l_main S" _ "map fst A" l "map fst B" "S_Name buf x"] S_Get
      by (cases "x = POISON") (simp_all add: lookup_inv_def Let_def rs new step' ac_simps del: sum_list_eq_0_iff)
  next
    case (S_Name buf h)
    show ?thesis
    proof (cases "h = POISON")
      case True
      then have "l' = (S_Exit, n)" "S' = S" using step l S_Name by simp_all
      then show ?thesis using inv S_Name True joined_res [of "l_main S" _ "map fst A" l "map fst B" S_Exit]
        by (auto simp: lookup_inv_def Let_def rs new simp del: sum_list_eq_0_iff)
    next
      case False
      have "length (e_ipstr E) = 46" "e_getaddrinfo E h \<noteq> Some []" "length buf = 46"
        using ok l_ok S_Name by (simp_all add: lookup_ok_def)
      then obtain d where d: "resolver E (S_Name buf h, n) S = Some (Inr ((S_Write d h, n), S))" "length d = 46"
          "cstr d = dns_text (e_getaddrinfo E) h"
        using resolver_resolves [of E buf h n S] False by blast
      then have "l' = (S_Write d h, n)" "S' = S" using step unfolding l S_Name by simp_all
      then show ?thesis
        using inv S_Name False d(2,3) joined_res [of "l_main S" _ "map fst A" l "map fst B" "S_Write d h"]
        by (simp add: lookup_inv_def Let_def rs new)
    qed
  next
    case (S_Write buf h)
    then have "l' = (S_Get buf, n + 1)" "S' = S\<lparr>l_results := l_results S @ [(h, cstr buf)]\<rparr>" using step l by simp_all
    then show ?thesis using inv S_Write l_ok joined_res [of "l_main S" _ "map fst A" l "map fst B" "S_Get buf"]
      by (simp add: lookup_inv_def Let_def rs new ac_simps)
  qed
qed

lemma poison_put:
  assumes ok: "lookup_ok E files" and env: "e_put E = put" "e_maxname E = maxname" and q: "inv q" "pills_last (contents q)"
    and step: "poison_step E q n here there = Some (l, q')"
  shows "(n = 0 \<and> l = there \<and> q' = q) \<or> (\<exists>k. n = Suc k \<and> l = here k \<and> inv q' \<and> contents q' = contents q @ [POISON]
    \<and> pills_last (contents q'))"
proof (cases n)
  case 0
  then show ?thesis using step by (simp add: poison_step_def)
next
  case (Suc k)
  have "name_fits maxname POISON" using pill_fits [OF ok] env(2) by simp
  then obtain q1 where "put q POISON = Some (0, q1)" "inv q1" "contents q1 = contents q @ [POISON]"
    using step Suc env(1) api_put_full [OF q(1)] api_put_room [OF q(1)] api_bound [OF q(1)]
    by (cases "length (contents q) = cap") (auto simp: poison_step_def)
  then show ?thesis using step Suc env(1) pills_last_pill [OF q(2)] by (simp add: poison_step_def)
qed

lemma main_inv:
  assumes ok: "lookup_ok E files" and env: "e_put E = put" "e_get E = get" "e_maxname E = maxname"
    and inv: "lookup_inv E files N M S" and step: "main_step E S = Some S'"
  shows "lookup_inv E files N M S'"
proof -
  let ?F = "contents (l_files S)" and ?H = "contents (l_hosts S)"
  have files: "inv (l_files S)" "pills_last ?F" and hosts: "inv (l_hosts S)" "pills_last ?H"
    using inv by (simp_all add: lookup_inv_def Let_def)
  show ?thesis
  proof (cases "l_main S")
    case (M_Files fs)
    show ?thesis
    proof (cases fs)
      case Nil
      then have "S' = S\<lparr>l_main := M_Poison_Req N\<rparr>"
        using step M_Files inv by (simp add: main_step_def lookup_inv_def Let_def)
      then show ?thesis using inv M_Files Nil by (simp add: lookup_inv_def Let_def)
    next
      case (Cons f gs)
      have f: "f \<in> set files" using inv M_Files Cons by (simp add: lookup_inv_def Let_def)
      then have fits: "name_fits maxname f" "f \<noteq> POISON" using file_fits [OF ok f] env(3) by simp_all
      then obtain q where q: "put (l_files S) f = Some (0, q)" "inv q" "contents q = ?F @ [f]"
        using step M_Files Cons env api_put_full [OF files(1)] api_put_room [OF files(1)] api_bound [OF files(1)]
        by (cases "length ?F = cap") (auto simp: main_step_def)
      then have step': "S' = S\<lparr>l_files := q, l_main := M_Files gs\<rparr>" using step M_Files Cons env by (simp add: main_step_def)
      show ?thesis using inv q f fits M_Files Cons pills_last_name [of ?F f]
        by (simp add: lookup_inv_def Let_def step' o_def ac_simps)
    qed
  next
    case (M_Poison_Req n)
    then obtain l q where p: "poison_step E (l_files S) n M_Poison_Req (M_Join_Req 0) = Some (l, q)"
      and step': "S' = S\<lparr>l_files := q, l_main := l\<rparr>" using step by (auto simp: main_step_def)
    from poison_put [OF ok env(1,3) files p] consider (none) "n = 0" "l = M_Join_Req 0" "q = l_files S"
      | (pill) k where "n = Suc k" "l = M_Poison_Req k" "inv q" "contents q = contents (l_files S) @ [POISON]" "pills_last (contents q)"
      by blast
    then show ?thesis
    proof cases
      case none
      then show ?thesis using inv M_Poison_Req by (simp add: lookup_inv_def Let_def step')
    next
      case pill
      then show ?thesis using inv M_Poison_Req by (simp add: lookup_inv_def Let_def step')
    qed
  next
    case (M_Join_Req i)
    show ?thesis
    proof (cases "i < length (l_requesters S)")
      case True
      then have "fst (l_requesters S ! i) = R_Exit" "S' = S\<lparr>l_main := M_Join_Req (i + 1)\<rparr>"
        using step M_Join_Req by (simp_all add: main_step_def split: if_splits)
      then show ?thesis using inv M_Join_Req True by (simp add: lookup_inv_def Let_def take_Suc_conv_app_nth)
    next
      case False
      then have "S' = S\<lparr>l_main := M_Poison_Res M\<rparr>" using step M_Join_Req inv by (simp add: main_step_def lookup_inv_def Let_def)
      then show ?thesis using inv M_Join_Req False by (simp add: lookup_inv_def Let_def)
    qed
  next
    case (M_Poison_Res n)
    then obtain l q where p: "poison_step E (l_hosts S) n M_Poison_Res (M_Join_Res 0) = Some (l, q)"
      and step': "S' = S\<lparr>l_hosts := q, l_main := l\<rparr>" using step by (auto simp: main_step_def)
    from poison_put [OF ok env(1,3) hosts p] consider (none) "n = 0" "l = M_Join_Res 0" "q = l_hosts S"
      | (pill) k where "n = Suc k" "l = M_Poison_Res k" "inv q" "contents q = contents (l_hosts S) @ [POISON]" "pills_last (contents q)"
      by blast
    then show ?thesis
    proof cases
      case none
      then show ?thesis using inv M_Poison_Res by (simp add: lookup_inv_def Let_def step')
    next
      case pill
      then show ?thesis using inv M_Poison_Res by (simp add: lookup_inv_def Let_def step')
    qed
  next
    case (M_Join_Res i)
    show ?thesis
    proof (cases "i < length (l_resolvers S)")
      case True
      then have "fst (l_resolvers S ! i) = S_Exit" "S' = S\<lparr>l_main := M_Join_Res (i + 1)\<rparr>"
        using step M_Join_Res by (simp_all add: main_step_def split: if_splits)
      then show ?thesis using inv M_Join_Res True by (simp add: lookup_inv_def Let_def take_Suc_conv_app_nth)
    next
      case False
      then have "S' = S\<lparr>l_main := M_Cleanup 0\<rparr>" using step M_Join_Res inv by (simp add: main_step_def lookup_inv_def Let_def)
      then show ?thesis using inv M_Join_Res False by (simp add: lookup_inv_def Let_def)
    qed
  next
    case (M_Cleanup r)
    then show ?thesis using step by (simp add: main_step_def)
  qed
qed

lemma lookup_step_inv:
  assumes "lookup_ok E files" and "e_put E = put" "e_get E = get" "e_maxname E = maxname"
    and "lookup_inv E files N M S" and "lookup_step E S S'"
  shows "lookup_inv E files N M S'"
  using assms(6)
proof (cases rule: lookup_step.cases)
  case main_moves
  then show ?thesis using main_inv assms by blast
next
  case (requester_moves t l' S1)
  then show ?thesis using requester_inv [OF assms(1-5)] by simp
next
  case (resolver_moves t l' S1)
  then show ?thesis using resolver_inv [OF assms(1-5)] by simp
qed

lemma lookup_steps_inv:
  assumes "lookup_ok E files" and "e_put E = put" "e_get E = get" "e_maxname E = maxname"
    and "lookup_inv E files N M S" and "(lookup_step E)\<^sup>*\<^sup>* S S'"
  shows "lookup_inv E files N M S'"
  using assms(6,5) by (induction rule: rtranclp_induct) (auto intro: lookup_step_inv [OF assms(1-4)])

subsection \<open>The end of a run\<close>

lemma requesters_exited:
  "list_all (\<lambda>l. l = R_Exit) rq \<Longrightarrow> (\<Sum>l\<leftarrow>rq. req_pill l) = length rq \<and> (\<Sum>l\<leftarrow>rq. req_todo E l) = {#}
     \<and> (\<Sum>l\<leftarrow>rq. req_unlogged E l) = {#}"
  by (induction rq) simp_all

lemma resolvers_exited:
  "list_all (\<lambda>l. l = S_Exit) rs \<Longrightarrow> (\<Sum>l\<leftarrow>rs. res_pill l) = length rs \<and> (\<Sum>l\<leftarrow>rs. res_todo l) = {#}"
  by (induction rs) simp_all

lemma queue_done:
  assumes "pills_last F" and "pills F + n = N" and "0 < n \<longrightarrow> names F = []" and "n = N" and "0 < N"
  shows "F = []"
  using assms pills_last_none [of F] by simp

lemma lookup_inv_done:
  assumes "lookup_inv E files N M S" and "l_main S = M_Cleanup r" and "0 < N" and "0 < M"
  shows "r = 0 \<and> mset (map fst (l_results S)) = all_hosts E files \<and> mset (l_serviced S) = all_hosts E files
    \<and> (\<forall>(h, ip) \<in> set (l_results S). ip = dns_text (e_getaddrinfo E) h)
    \<and> contents (l_files S) = [] \<and> contents (l_hosts S) = []"
proof -
  let ?rq = "map fst (l_requesters S)" and ?rs = "map fst (l_resolvers S)"
  have ends: "list_all (\<lambda>l. l = R_Exit) ?rq" "list_all (\<lambda>l. l = S_Exit) ?rs" "length ?rq = N" "length ?rs = M" "r = 0"
    using assms(1,2) by (simp_all add: lookup_inv_def Let_def)
  note sums = requesters_exited [OF ends(1), of E] resolvers_exited [OF ends(2)]
  have "contents (l_files S) = []"
    using assms(1,2) sums ends(3) assms(3) by (intro queue_done) (simp_all add: lookup_inv_def Let_def)
  moreover have "contents (l_hosts S) = []"
    using assms(1,2) sums ends(4) assms(4) by (intro queue_done) (simp_all add: lookup_inv_def Let_def)
  ultimately show ?thesis using assms(1,2) sums ends(5) by (simp add: lookup_inv_def Let_def)
qed

subsection \<open>Progress\<close>

text \<open>A thread that is not blocked on an array can always move.\<close>

lemma requester_moves_on:
  "l \<noteq> R_Get \<Longrightarrow> l \<noteq> R_Exit \<Longrightarrow> \<forall>h c. l \<noteq> R_Put h c \<Longrightarrow> \<exists>r. requester E (l, n) S = Some r"
  by (cases l) (auto split: option.splits)

lemma requester_gets: "inv (l_files S) \<Longrightarrow> contents (l_files S) \<noteq> [] \<Longrightarrow> e_get E = get \<Longrightarrow> \<exists>r. requester E (R_Get, n) S = Some r"
  using api_get_first [of "l_files S"] by (cases "contents (l_files S)") fastforce+

lemma resolver_gets:
  "inv (l_hosts S) \<Longrightarrow> contents (l_hosts S) \<noteq> [] \<Longrightarrow> e_get E = get \<Longrightarrow> \<exists>r. resolver E (S_Get buf, n) S = Some (Inr r)"
  using api_get_first [of "l_hosts S"] by (cases "contents (l_hosts S)") fastforce+

lemma resolver_moves_on:
  assumes "lookup_ok E files" and "res_ok E l" and "\<forall>buf. l \<noteq> S_Get buf" and "l \<noteq> S_Exit"
  shows "\<exists>r. resolver E (l, n) S = Some (Inr r)"
proof (cases l)
  case (S_Name buf h)
  then show ?thesis
    using assms resolver_resolves [of E buf h n S] by (cases "h = POISON") (auto simp: lookup_ok_def)
qed (use assms in auto)

lemma req_pill_le: "req_pill l \<le> 1" by (cases l) simp_all
lemma res_pill_le: "res_pill l \<le> 1" by (cases l) simp_all

lemma all_pills:
  assumes "\<And>l. p l \<le> (1::nat)" and "(\<Sum>l\<leftarrow>ls. p l) = length ls"
  shows "\<forall>l \<in> set ls. p l = 1"
proof -
  have "(\<Sum>l\<leftarrow>xs. p l) \<le> length xs" for xs
  proof (induction xs)
    case (Cons x xs)
    then show ?case using assms(1) [of x] by simp
  qed simp
  then show ?thesis using assms(2)
  proof (induction ls)
    case (Cons x xs)
    have "p x + (\<Sum>l\<leftarrow>xs. p l) = Suc (length xs)" "p x \<le> 1" using Cons.prems assms(1) by simp_all
    moreover have "(\<Sum>l\<leftarrow>xs. p l) \<le> length xs" using Cons.prems(1) .
    ultimately have "p x = 1" "(\<Sum>l\<leftarrow>xs. p l) = length xs" by linarith+
    then show ?case using Cons.IH [OF Cons.prems(1)] by simp
  qed simp
qed

lemma exists_waiting:
  assumes "pills F + (\<Sum>l\<leftarrow>ls. p l) + k = length ls" and "0 < (\<Sum>l\<leftarrow>ls. p l) \<longrightarrow> names F = []"
    and "F \<noteq> []" and "pills_last F" and "0 < length ls" and "\<And>l. l \<in> set ls \<Longrightarrow> p l \<noteq> 0 \<Longrightarrow> p l = (1::nat)"
  shows "\<exists>l \<in> set ls. p l = 0"
proof (rule ccontr)
  assume "\<not> (\<exists>l \<in> set ls. p l = 0)"
  then have "\<forall>l \<in> set ls. p l = 1" using assms(6) by blast
  then have "(\<Sum>l\<leftarrow>ls. p l) = length ls" by (induction ls) simp_all
  then show False using assms pills_last_none [of F] by simp
qed

lemma requester_step_exists:
  assumes "(l, n) \<in> set (l_requesters S)" and "requester E (l, n) S = Some r"
  shows "\<exists>S'. lookup_step E S S'"
proof -
  from assms(1) obtain t where "t < length (l_requesters S)" "l_requesters S ! t = (l, n)" by (auto simp: in_set_conv_nth)
  then show ?thesis using requester_moves [of t S E "fst r" "snd r"] assms(2) by auto
qed

lemma resolver_step_exists:
  assumes "(l, n) \<in> set (l_resolvers S)" and "resolver E (l, n) S = Some (Inr r)"
  shows "\<exists>S'. lookup_step E S S'"
proof -
  from assms(1) obtain t where "t < length (l_resolvers S)" "l_resolvers S ! t = (l, n)" by (auto simp: in_set_conv_nth)
  then show ?thesis using resolver_moves [of t S E "fst r" "snd r"] assms(2) by auto
qed

lemma lookup_progress:
  assumes ok: "lookup_ok E files" and env: "e_put E = put" "e_get E = get" "e_maxname E = maxname"
    and inv: "lookup_inv E files N M S" and pos: "0 < N" "0 < M" and running: "\<And>r. l_main S \<noteq> M_Cleanup r"
  shows "\<exists>S'. lookup_step E S S'"
proof (rule ccontr)
  assume stuck: "\<not> (\<exists>S'. lookup_step E S S')"
  let ?rq = "map fst (l_requesters S)" and ?rs = "map fst (l_resolvers S)"
  let ?F = "contents (l_files S)" and ?H = "contents (l_hosts S)"
  have files: "inv (l_files S)" "pills_last ?F" "0 < (\<Sum>l\<leftarrow>?rq. req_pill l) \<longrightarrow> names ?F = []"
      "req_pills_left N (l_main S) + pills ?F + (\<Sum>l\<leftarrow>?rq. req_pill l) = N" "length ?rq = N"
    and hosts: "inv (l_hosts S)" "pills_last ?H" "0 < (\<Sum>l\<leftarrow>?rs. res_pill l) \<longrightarrow> names ?H = []"
      "res_pills_left M (l_main S) + pills ?H + (\<Sum>l\<leftarrow>?rs. res_pill l) = M" "length ?rs = M"
    and rs_ok: "list_all (res_ok E) ?rs" and j: "joined (l_main S) ?rq ?rs"
    using inv unfolding lookup_inv_def Let_def by blast+
  have rs: "l = S_Exit \<or> (\<exists>buf. l = S_Get buf)" if "(l, n) \<in> set (l_resolvers S)" for l n
  proof -
    have "res_ok E l" using rs_ok that by (force simp: list_all_iff)
    then show ?thesis using resolver_moves_on [OF ok, of l n S] resolver_step_exists [OF that] stuck by blast
  qed
  have "?H = []"
  proof (rule ccontr)
    assume H: "?H \<noteq> []"
    obtain l where "l \<in> set ?rs" "res_pill l = 0"
      using exists_waiting [of ?H res_pill ?rs "res_pills_left M (l_main S)", OF _ hosts(3) H hosts(2)] hosts(4,5) pos rs
      by (fastforce simp: add_ac)
    moreover from this have "l \<noteq> S_Exit" by auto
    ultimately obtain n where "(l, n) \<in> set (l_resolvers S)" "l \<noteq> S_Exit" by auto
    then show False using rs resolver_gets [OF hosts(1) H env(2)] resolver_step_exists stuck by metis
  qed
  then have put_H: "name_fits maxname h \<Longrightarrow> \<exists>r. put (l_hosts S) h = Some r" for h
    using api_put_room [OF hosts(1), of h] api_room by auto
  have total: "all_hosts E (main_files (l_main S)) + all_hosts E (names ?F) + (\<Sum>l\<leftarrow>?rq. req_unlogged E l)
      + mset (l_serviced S) = all_hosts E files"
    using inv unfolding lookup_inv_def Let_def by blast
  have rq: "l = R_Exit \<or> l = R_Get" if l: "(l, n) \<in> set (l_requesters S)" for l n
  proof (rule ccontr)
    assume *: "\<not> (l = R_Exit \<or> l = R_Get)"
    then obtain h c where put: "l = R_Put h c" using requester_moves_on requester_step_exists [OF l] stuck by metis
    have "l \<in> set ?rq" using l by force
    then have "h \<in># (\<Sum>l\<leftarrow>?rq. req_unlogged E l)" using put by (intro in_sum_mset [of h _ l]) simp_all
    then have "h \<in># all_hosts E files" using total by (metis union_iff)
    then have "name_fits maxname h" using host_ok [OF ok] env(3) by simp
    then obtain r where "put (l_hosts S) h = Some r" using put_H by blast
    then show False using requester_step_exists [OF l] stuck put env by (cases r) auto
  qed
  have "?F = []"
  proof (rule ccontr)
    assume F: "?F \<noteq> []"
    obtain l where "l \<in> set ?rq" "req_pill l = 0"
      using exists_waiting [of ?F req_pill ?rq "req_pills_left N (l_main S)", OF _ files(3) F files(2)] files(4,5) pos rq
      by (fastforce simp: add_ac)
    then obtain n where "(l, n) \<in> set (l_requesters S)" "l = R_Get" using rq by force
    then show False using requester_gets [OF files(1) F env(2)] requester_step_exists stuck by metis
  qed
  then have put_F: "name_fits maxname f \<Longrightarrow> \<exists>r. put (l_files S) f = Some r" for f
    using api_put_room [OF files(1), of f] api_room by auto
  have main: "main_step E S = None" using stuck main_moves by (metis option.exhaust)
  have pill: "name_fits maxname POISON" using pill_fits [OF ok] env(3) by simp
  show False
  proof (cases "l_main S")
    case (M_Files fs)
    show ?thesis
    proof (cases fs)
      case (Cons f gs)
      then have "f \<in> set files" using inv M_Files by (simp add: lookup_inv_def Let_def)
      then show ?thesis using main M_Files Cons put_F [of f] file_fits [OF ok] env by (auto simp: main_step_def name_fits_def)
    qed (use main M_Files in \<open>simp add: main_step_def\<close>)
  next
    case (M_Poison_Req n)
    then show ?thesis using main put_F [OF pill] env by (cases n) (auto simp: main_step_def poison_step_def)
  next
    case (M_Poison_Res n)
    then show ?thesis using main put_H [OF pill] env by (cases n) (auto simp: main_step_def poison_step_def)
  next
    case (M_Join_Req i)
    then have i: "i < length ?rq" "?rq ! i \<noteq> R_Exit" using main by (auto simp: main_step_def split: if_splits)
    then have "req_pill (?rq ! i) = 0" using rq [of "?rq ! i"] by (metis fst_conv in_set_conv_nth length_map nth_map req_pill.simps(3) surj_pair)
    moreover have "(\<Sum>l\<leftarrow>?rq. req_pill l) = length ?rq" using files(4,5) M_Join_Req \<open>?F = []\<close> by simp
    ultimately show ?thesis using all_pills [of req_pill ?rq] i(1) req_pill_le by fastforce
  next
    case (M_Join_Res i)
    then have i: "i < length ?rs" "?rs ! i \<noteq> S_Exit" using main by (auto simp: main_step_def split: if_splits)
    then have "res_pill (?rs ! i) = 0" using rs [of "?rs ! i"] by (metis fst_conv in_set_conv_nth length_map nth_map res_pill.simps(3) surj_pair)
    moreover have "(\<Sum>l\<leftarrow>?rs. res_pill l) = length ?rs" using hosts(4,5) M_Join_Res \<open>?H = []\<close> by simp
    ultimately show ?thesis using all_pills [of res_pill ?rs] i(1) res_pill_le by fastforce
  next
    case (M_Cleanup r)
    then show ?thesis using running by simp
  qed
qed

subsection \<open>Termination\<close>

lemma api_get_result:
  "inv q \<Longrightarrow> get q = Some r \<Longrightarrow> \<exists>x xs q'. contents q = x # xs \<and> r = (0, x, q') \<and> inv q' \<and> contents q' = xs"
  using api_get_empty [of q] api_get_first [of q] by (cases "contents q") fastforce+

lemma api_put_result:
  "inv q \<Longrightarrow> put q x = Some r \<Longrightarrow> name_fits maxname x \<Longrightarrow> \<exists>q'. r = (0, q') \<and> contents q' = contents q @ [x]"
  using api_put_full [of q x] api_put_room [of q x] api_bound [of q] by (cases "length (contents q) = cap") fastforce+

definition variant :: "'q env \<Rightarrow> 'q lookup \<Rightarrow> nat" where
  "variant E S = main_work E (length (l_requesters S)) (length (l_resolvers S)) (l_main S)
     + (\<Sum>x\<leftarrow>contents (l_files S). name_work E x + 1) + (\<Sum>l\<leftarrow>l_requesters S. req_work E (fst l))
     + 4 * length (contents (l_hosts S)) + (\<Sum>l\<leftarrow>l_resolvers S. res_work (fst l))"

lemma requester_variant:
  assumes ok: "lookup_ok E files" and env: "e_put E = put" "e_get E = get" "e_maxname E = maxname"
    and inv: "lookup_inv E files N M S" and t: "t < length (l_requesters S)"
    and step: "requester E (l_requesters S ! t) S = Some (l', S')"
  shows "variant E (S'\<lparr>l_requesters := (l_requesters S)[t := l']\<rparr>) < variant E S"
proof -
  obtain l n where l: "l_requesters S ! t = (l, n)" by fastforce
  obtain A B where rq: "l_requesters S = A @ (l, n) # B" and new: "t = length A"
    using id_take_nth_drop [OF t] t l by (metis length_take min.absorb4)
  have F: "inv (l_files S)" "set (contents (l_files S)) \<subseteq> insert POISON (set files)" and H: "inv (l_hosts S)"
    using inv unfolding lookup_inv_def Let_def by blast+
  show ?thesis
  proof (cases l)
    case R_Get
    then obtain r where "get (l_files S) = Some r" using step l env by (auto split: option.splits)
    then obtain x xs q where x: "contents (l_files S) = x # xs" "get (l_files S) = Some (0, x, q)" "contents q = xs"
      using api_get_result [OF F(1)] by blast
    have "take 19 x = x" using F(2) x(1) file_fits [OF ok, of x] by auto
    then have "l' = (R_Name x, n)" "S' = S\<lparr>l_files := q\<rparr>" using step l env R_Get x(2) by simp_all
    then show ?thesis using x R_Get by (simp add: variant_def rq new)
  next
    case (R_Name f)
    then have "S' = S" "req_work E (fst l') < req_work E l"
      using step l by (auto simp: name_work_def split: if_splits option.splits)
    then show ?thesis by (simp add: variant_def rq new)
  next
    case (R_Read c)
    have "2 \<le> e_maxname E" using ok by (simp add: lookup_ok_def)
    then have "S' = S" "req_work E (fst l') < req_work E l"
      using step l R_Read fgets_shorter [of "e_maxname E" c] by (fastforce simp: text_work_def split: option.splits)+
    then show ?thesis by (simp add: variant_def rq new)
  next
    case (R_Put h c)
    then obtain r where r: "put (l_hosts S) h = Some r" using step l env by (auto split: option.splits)
    have "h \<in># (\<Sum>l\<leftarrow>map fst (l_requesters S). req_unlogged E l)" by (simp add: rq R_Put)
    moreover have "all_hosts E (main_files (l_main S)) + all_hosts E (names (contents (l_files S)))
        + (\<Sum>l\<leftarrow>map fst (l_requesters S). req_unlogged E l) + mset (l_serviced S) = all_hosts E files"
      using inv unfolding lookup_inv_def Let_def by blast
    ultimately have "name_fits maxname h" using host_ok [OF ok, of h] env(3) by (metis union_iff)
    then obtain q where "r = (0, q)" "contents q = contents (l_hosts S) @ [h]" using api_put_result [OF H r] by blast
    then show ?thesis using step l R_Put r env by (simp add: variant_def rq new) (auto simp: text_work_def)
  next
    case (R_Log h c)
    then have "l' = (R_Read c, n)" "S' = S\<lparr>l_serviced := l_serviced S @ [h]\<rparr>" using step l by simp_all
    then show ?thesis using R_Log by (simp add: variant_def rq new)
  next
    case R_Close
    then have "l' = (R_Get, n + 1)" "S' = S" using step l by simp_all
    then show ?thesis using R_Close by (simp add: variant_def rq new)
  next
    case R_Exit
    then show ?thesis using step l by simp
  qed
qed

lemma resolver_variant:
  assumes ok: "lookup_ok E files" and env: "e_get E = get"
    and inv: "lookup_inv E files N M S" and t: "t < length (l_resolvers S)"
    and step: "resolver E (l_resolvers S ! t) S = Some (Inr (l', S'))"
  shows "variant E (S'\<lparr>l_resolvers := (l_resolvers S)[t := l']\<rparr>) < variant E S"
proof -
  obtain l n where l: "l_resolvers S ! t = (l, n)" by fastforce
  obtain A B where rs: "l_resolvers S = A @ (l, n) # B" and new: "t = length A"
    using id_take_nth_drop [OF t] t l by (metis length_take min.absorb4)
  have H: "inv (l_hosts S)" using inv unfolding lookup_inv_def Let_def by blast
  show ?thesis
  proof (cases l)
    case (S_Get buf)
    then obtain r where "get (l_hosts S) = Some r" using step l env by (auto split: option.splits)
    then obtain x xs q where x: "contents (l_hosts S) = x # xs" "get (l_hosts S) = Some (0, x, q)" "contents q = xs"
      using api_get_result [OF H] by blast
    then show ?thesis using step l env S_Get by (auto simp: variant_def rs new)
  next
    case (S_Name buf h)
    then have "S' = S" "res_work (fst l') < res_work l"
      using step l by (auto simp: bindR_eq_Inr split: if_splits)
    then show ?thesis by (simp add: variant_def rs new)
  next
    case (S_Write buf h)
    then have "l' = (S_Get buf, n + 1)" "S' = S\<lparr>l_results := l_results S @ [(h, cstr buf)]\<rparr>" using step l by simp_all
    then show ?thesis using S_Write by (simp add: variant_def rs new)
  next
    case S_Exit
    then show ?thesis using step l by simp
  qed
qed

lemma main_variant:
  assumes ok: "lookup_ok E files" and env: "e_put E = put" "e_get E = get" "e_maxname E = maxname"
    and inv: "lookup_inv E files N M S" and step: "main_step E S = Some S'"
  shows "variant E S' < variant E S"
proof -
  have F: "inv (l_files S)" "pills_last (contents (l_files S))" and H: "inv (l_hosts S)" "pills_last (contents (l_hosts S))"
    and files: "set (main_files (l_main S)) \<subseteq> set files"
    using inv unfolding lookup_inv_def Let_def by blast+
  show ?thesis
  proof (cases "l_main S")
    case (M_Files fs)
    show ?thesis
    proof (cases fs)
      case (Cons f gs)
      then obtain r where r: "put (l_files S) f = Some r" using step env M_Files by (auto simp: main_step_def split: option.splits)
      have "name_fits maxname f" using file_fits [OF ok, of f] files M_Files Cons env(3) by simp
      then obtain q where "r = (0, q)" "contents q = contents (l_files S) @ [f]" using api_put_result [OF F(1) r] by blast
      then show ?thesis using step M_Files Cons r env by (auto simp: main_step_def variant_def)
    qed (use step M_Files in \<open>auto simp: main_step_def variant_def\<close>)
  next
    case (M_Poison_Req n)
    then show ?thesis using step poison_put [OF ok env(1,3) F, of n]
      by (fastforce simp: main_step_def variant_def name_work_def)
  next
    case (M_Poison_Res n)
    then show ?thesis using step poison_put [OF ok env(1,3) H, of n] by (fastforce simp: main_step_def variant_def)
  qed (use step in \<open>auto simp: main_step_def variant_def split: if_splits\<close>)
qed

lemma lookup_step_variant:
  assumes "lookup_ok E files" and "e_put E = put" "e_get E = get" "e_maxname E = maxname"
    and "lookup_inv E files N M S" and "lookup_step E S S'"
  shows "variant E S' < variant E S"
  using assms(6)
proof (cases rule: lookup_step.cases)
  case main_moves
  then show ?thesis using main_variant assms by blast
next
  case (requester_moves t l' S1)
  then show ?thesis using requester_variant [OF assms(1-5)] by simp
next
  case (resolver_moves t l' S1)
  then show ?thesis using resolver_variant [OF assms(1,3,5)] by simp
qed

lemma lookup_run_bound:
  assumes "lookup_ok E files" and "e_put E = put" "e_get E = get" "e_maxname E = maxname"
    and "lookup_inv E files N M S" and "(lookup_step E ^^ n) S S'"
  shows "lookup_inv E files N M S' \<and> n + variant E S' \<le> variant E S"
  using assms(6)
proof (induction n arbitrary: S')
  case (Suc n)
  then obtain S1 where S1: "(lookup_step E ^^ n) S S1" "lookup_step E S1 S'" by auto
  then have "lookup_inv E files N M S1" "n + variant E S1 \<le> variant E S" using Suc.IH by simp_all
  then show ?case using lookup_step_inv [OF assms(1-4) _ S1(2)] lookup_step_variant [OF assms(1-4) _ S1(2)] by fastforce
qed (use assms(5) in simp)

end


context array_api
begin

lemma lookup_reaches_end:
  assumes "lookup_ok E files" and "e_put E = put" "e_get E = get" "e_maxname E = maxname"
    and "lookup_inv E files N M S" and "0 < N" and "0 < M"
  shows "\<exists>S'. (lookup_step E)\<^sup>*\<^sup>* S S' \<and> l_main S' = M_Cleanup 0"
  using assms(5)
proof (induction "variant E S" arbitrary: S rule: less_induct)
  case less
  show ?case
  proof (cases "\<exists>r. l_main S = M_Cleanup r")
    case True
    then have "l_main S = M_Cleanup 0" using lookup_inv_done [OF less.prems] assms(6,7) by auto
    then show ?thesis by blast
  next
    case False
    then obtain S1 where S1: "lookup_step E S S1" using lookup_progress [OF assms(1-4) less.prems assms(6,7)] by blast
    then obtain S' where "(lookup_step E)\<^sup>*\<^sup>* S1 S'" "l_main S' = M_Cleanup 0"
      using less.hyps lookup_step_variant [OF assms(1-4) less.prems] lookup_step_inv [OF assms(1-4) less.prems] by blast
    then show ?thesis using S1 by (meson converse_rtranclp_into_rtranclp)
  qed
qed

lemma variant_start: "contents q1 = [] \<Longrightarrow> contents q2 = [] \<Longrightarrow>
  variant E (lookup_start q1 q2 files N bufs) = (\<Sum>f\<leftarrow>files. name_work E f + 2) + 5 * N + 6 * length bufs + 6"
proof -
  have "(\<Sum>l\<leftarrow>replicate N R_Get. req_work E l) = 0" by (induction N) simp_all
  moreover have "(\<Sum>buf\<leftarrow>bufs. res_work (S_Get buf)) = 0" by (induction bufs) simp_all
  moreover assume "contents q1 = []" "contents q2 = []"
  ultimately show ?thesis by (simp add: variant_def lookup_start_def o_def)
qed

text \<open>Without requesters main never gets past a full array of file names.\<close>

definition unread :: "'q env \<Rightarrow> string list \<Rightarrow> 'q lookup \<Rightarrow> bool" where
  "unread E files S \<longleftrightarrow> l_requesters S = [] \<and> inv (l_files S) \<and> inv (l_hosts S) \<and> contents (l_hosts S) = []
     \<and> l_serviced S = [] \<and> l_results S = [] \<and> list_all (waiting \<circ> fst) (l_resolvers S)
     \<and> (\<exists>fs. l_main S = M_Files fs \<and> contents (l_files S) @ fs = files)"

lemma unread_step:
  assumes env: "e_put E = put" "e_get E = get" "e_maxname E = maxname"
    and files: "cap < length files" "\<forall>f \<in> set files. name_fits maxname f"
    and S: "unread E files S" and step: "lookup_step E S S'"
  shows "unread E files S'"
  using step
proof (cases rule: lookup_step.cases)
  case main_moves
  obtain fs where fs: "l_main S = M_Files fs" "contents (l_files S) @ fs = files" and q: "inv (l_files S)"
    using S by (auto simp: unread_def)
  have "fs \<noteq> []" using fs files(1) api_bound [OF q] by auto
  then obtain f gs where f: "fs = f # gs" by (cases fs) auto
  then obtain r where r: "put (l_files S) f = Some r" using main_moves fs env by (auto simp: main_step_def split: option.splits)
  have "name_fits maxname f" using files(2) fs f by auto
  then obtain q' where "r = (0, q')" "contents q' = contents (l_files S) @ [f]" "inv q'"
    using api_put_result [OF q r] api_put_room [OF q, of f] api_put_full [OF q, of f] api_bound [OF q] r
    by (cases "length (contents (l_files S)) = cap") auto
  then show ?thesis using main_moves S fs f r env by (auto simp: unread_def main_step_def)
next
  case (requester_moves t l' S1)
  then show ?thesis using S by (simp add: unread_def)
next
  case (resolver_moves t l' S1)
  have "waiting (fst (l_resolvers S ! t))" using S resolver_moves(2) by (simp add: unread_def list_all_length)
  then obtain buf n where "l_resolvers S ! t = (S_Get buf, n)"
    by (cases "l_resolvers S ! t"; cases "fst (l_resolvers S ! t)") auto
  then show ?thesis using resolver_moves S env api_get_empty [of "l_hosts S"] by (simp add: unread_def)
qed

end

subsection \<open>Properties\<close>

text \<open>A program whose arrays are those of \<open>pa4\<close>, reading one file of two lines.\<close>

definition sample_env :: "ring env" where
  "sample_env = \<lparr>e_put = pa4_put, e_get = pa4_get, e_maxname = 18,
     e_fopen = (\<lambda>f. if f = ''names'' then Some (''a.org'' @ [newline] @ ''b.org'' @ [newline]) else None),
     e_getaddrinfo = (\<lambda>h. Some [IPv4 (Some ''10.0.0.1'')]), e_ipstr = replicate 46 NUL\<rparr>"

lemma hosts_of_sample: "hosts_of sample_env ''names'' = [''a.org'', ''b.org'']"
  by (simp add: hosts_of_def sample_env_def file_hosts.simps fgets_def chomp_def cstr_def Let_def)

lemma sample_ok: "lookup_ok sample_env [''names'']"
  by (simp add: lookup_ok_def hosts_of_sample) (simp add: sample_env_def name_fits_def)

lemma ring_fresh_pa4: "pa4_inv ring_fresh" "ring_contents ring_fresh = []"
  using ring_fresh_idle by (simp_all add: pa4_inv_def)

lemma sample_api: "array_api (e_put sample_env) (e_get sample_env) pa4_inv ring_contents (e_maxname sample_env) ARRAY_SIZE"
  by (simp add: sample_env_def pa4.array_api_axioms)





text \<open>The check of the thread counts admits 0: without requesters, and with more data files than the
  array has slots, main blocks before it has passed on all the file names, and no host is ever served.\<close>

lemma no_requesters_block_main:
  assumes "array_api (e_put E) (e_get E) wfq contents (e_maxname E) cap"
    and "wfq q1" and "contents q1 = []" and "wfq q2" and "contents q2 = []"
    and "cap < length files" and "\<forall>f \<in> set files. name_fits (e_maxname E) f"
    and "(lookup_step E)\<^sup>*\<^sup>* (lookup_start q1 q2 files 0 bufs) S"
  shows "(\<exists>fs. l_main S = M_Files fs) \<and> l_serviced S = [] \<and> l_results S = []"
proof -
  have "array_api.unread wfq contents E files (lookup_start q1 q2 files 0 bufs)"
    using assms(2-5) by (simp add: array_api.unread_def [OF assms(1)] lookup_start_def list_all_iff)
  with assms(8) have "array_api.unread wfq contents E files S"
  proof (induction rule: rtranclp_induct)
    case (step S S')
    then show ?case using array_api.unread_step [OF assms(1) refl refl refl assms(6,7)] by blast
  qed
  then show ?thesis by (auto simp: array_api.unread_def [OF assms(1)])
qed

lemma no_requesters_block_main_witness:
  "\<exists>fs. l_main (lookup_start ring_fresh ring_fresh (replicate 9 ''names'') 0 [replicate 46 NUL]) = M_Files fs"
  using no_requesters_block_main [OF sample_api ring_fresh_pa4 ring_fresh_pa4, of "replicate 9 ''names''" "[replicate 46 NUL]",
      OF _ _ rtranclp.rtrancl_refl]
  by (simp add: sample_env_def name_fits_def)

text \<open>Runs by a schedule that names the thread of each step.\<close>

datatype who = Main | Requester nat | Resolver nat

fun move :: "'q env \<Rightarrow> who \<Rightarrow> 'q lookup \<Rightarrow> 'q lookup option" where
  "move E Main S = main_step E S"
| "move E (Requester t) S =
     (if t < length (l_requesters S)
      then map_option (\<lambda>(l, S'). S'\<lparr>l_requesters := (l_requesters S)[t := l]\<rparr>) (requester E (l_requesters S ! t) S)
      else None)"
| "move E (Resolver t) S =
     (if t < length (l_resolvers S)
      then (case resolver E (l_resolvers S ! t) S of
          Some (Inr (l, S')) \<Rightarrow> Some (S'\<lparr>l_resolvers := (l_resolvers S)[t := l]\<rparr>) | _ \<Rightarrow> None)
      else None)"

fun run_lookup :: "'q env \<Rightarrow> who list \<Rightarrow> 'q lookup \<Rightarrow> 'q lookup option" where
  "run_lookup E [] S = Some S"
| "run_lookup E (w # ws) S = (case move E w S of None \<Rightarrow> None | Some S' \<Rightarrow> run_lookup E ws S')"

lemma move_step: "move E w S = Some S' \<Longrightarrow> lookup_step E S S'"
  by (cases w) (auto split: if_splits option.splits sum.splits intro: lookup_step.intros)

lemma run_lookup_steps: "run_lookup E ws S = Some S' \<Longrightarrow> (lookup_step E)\<^sup>*\<^sup>* S S'"
  by (induction ws arbitrary: S) (auto split: option.splits dest: move_step intro: converse_rtranclp_into_rtranclp)

text \<open>An array that is a list, for runs on concrete input.\<close>

definition list_put :: "string list \<Rightarrow> string \<Rightarrow> (int \<times> string list) option" where
  "list_put q x = (if length q < ARRAY_SIZE then Some (0, q @ [x]) else None)"

definition list_get :: "string list \<Rightarrow> (int \<times> string \<times> string list) option" where
  "list_get q = (case q of [] \<Rightarrow> None | x # xs \<Rightarrow> Some (0, x, xs))"

interpretation list_array: array_api list_put list_get "\<lambda>q. length q \<le> ARRAY_SIZE" "\<lambda>q. q" n ARRAY_SIZE for n
  by unfold_locales (auto simp: list_put_def list_get_def)

definition bad_env :: "string list env" where
  "bad_env = \<lparr>e_put = list_put, e_get = list_get, e_maxname = 18,
     e_fopen = (\<lambda>f. if f = ''names'' then Some (''a.org'' @ [newline]) else None),
     e_getaddrinfo = (\<lambda>h. Some [IPv4 (Some ''10.0.0.1'')]), e_ipstr = replicate 46 NUL\<rparr>"

text \<open>A data file that cannot be opened ends its requester. With one requester the files after it are
  not read at all, and main returns 0 all the same.\<close>

lemma invalid_file_abandons_rest:
  "\<exists>S. (lookup_step bad_env)\<^sup>*\<^sup>* (lookup_start [] [] [''nonames'', ''names''] 1 [replicate 46 NUL]) S
     \<and> l_main S = M_Cleanup 0 \<and> l_results S = [] \<and> l_serviced S = [] \<and> ''names'' \<in> set (l_files S)
     \<and> hosts_of bad_env ''names'' = [''a.org'']"
proof -
  let ?S = "lookup_start [] [] [''nonames'', ''names''] 1 [replicate 46 NUL]"
  have run: "run_lookup bad_env [Main, Main, Main, Requester 0, Requester 0, Main, Main, Main, Main, Main, Main,
      Resolver 0, Resolver 0, Main, Main] ?S = Some \<lparr>l_files = [''names'', POISON], l_hosts = [], l_serviced = [],
      l_results = [], l_main = M_Cleanup 0, l_requesters = [(R_Exit, 0)], l_resolvers = [(S_Exit, 0)]\<rparr>"
    by (simp add: bad_env_def lookup_start_def main_step_def poison_step_def list_put_def list_get_def)
  have "hosts_of bad_env ''names'' = [''a.org'']"
    by (simp add: hosts_of_def bad_env_def file_hosts.simps fgets_def chomp_def cstr_def Let_def)
  then show ?thesis using run_lookup_steps [OF run] by (intro exI conjI) auto
qed

end
