(* ===== verification/Char_Driver.thy ===== *)
theory Char_Driver
  imports Prelude "HOL-Library.Word"
begin

text \<open>
  The character device of \<open>assignments/pa3\<close>: a kernel module with one buffer of 900 bytes and the file
  operations on it. Sizes and positions are 64-bit words, compared as \<open>size_t\<close> (unsigned) or
  \<open>loff_t\<close> (signed) where the code does. The copies between kernel and user memory may stop early:
  \<open>unc n\<close> is the number of bytes of a copy of \<open>n\<close> that could not be copied, as \<open>copy_to_user\<close> and
  \<open>copy_from_user\<close> return it.
\<close>

subsection \<open>The device\<close>

type_synonym loff = "64 word"

abbreviation (input) BUFFER_SIZE :: nat where "BUFFER_SIZE \<equiv> 900"
abbreviation (input) EINVAL :: loff where "EINVAL \<equiv> 22"
abbreviation (input) ENOMEM :: int where "ENOMEM \<equiv> 12"

record device =
  d_open_count :: int
  d_close_count :: int
  d_buffer :: "string option"

text \<open>A copy of \<open>n\<close> bytes of which \<open>u\<close> fail; the kernel side of it is bounds-checked.\<close>

definition copy_bytes :: "nat \<Rightarrow> nat \<Rightarrow> string \<Rightarrow> string \<Rightarrow> string" where
  "copy_bytes n u src dst = take (n - u) src @ drop (n - u) dst"

definition kernel_buffer :: "device \<Rightarrow> nat \<Rightarrow> string res" where
  "kernel_buffer d n =
     (case d_buffer d of None \<Rightarrow> Inl Null_Deref
      | Some buf \<Rightarrow> if n \<le> length buf then Inr buf else Inl Out_Of_Bounds)"

definition bytes_to_copy :: "loff \<Rightarrow> loff \<Rightarrow> loff" where
  "bytes_to_copy len offset =
     (let bytes_available = (if of_nat BUFFER_SIZE \<le>s offset then 0 else of_nat BUFFER_SIZE - offset) in
      if len < bytes_available then len else bytes_available)"

definition pa3_char_driver_read ::
  "(nat \<Rightarrow> nat) \<Rightarrow> device \<Rightarrow> string \<Rightarrow> loff \<Rightarrow> loff \<Rightarrow> (loff \<times> string \<times> loff) res" where
  "pa3_char_driver_read unc d buffer len offset =
     (let n = bytes_to_copy len offset; u = unc (unat n) in
      bindR (kernel_buffer d (unat n)) (\<lambda>device_buffer.
      let buffer' = copy_bytes (unat n) u device_buffer buffer; total = n - of_nat u in
      Inr (total, buffer', offset + total)))"

definition pa3_char_driver_write ::
  "(nat \<Rightarrow> nat) \<Rightarrow> device \<Rightarrow> string \<Rightarrow> loff \<Rightarrow> loff \<Rightarrow> (loff \<times> device \<times> loff) res" where
  "pa3_char_driver_write unc d buffer len offset =
     (let n = bytes_to_copy len offset; u = unc (unat n) in
      bindR (kernel_buffer d (unat n)) (\<lambda>device_buffer.
      let d' = d\<lparr>d_buffer := Some (copy_bytes (unat n) u buffer device_buffer)\<rparr>; total = n - of_nat u in
      Inr (total, d', offset + total)))"

definition pa3_char_driver_open :: "device \<Rightarrow> int \<times> device" where
  "pa3_char_driver_open d = (0, d\<lparr>d_open_count := c_int (d_open_count d + 1)\<rparr>)"

definition pa3_char_driver_close :: "device \<Rightarrow> int \<times> device" where
  "pa3_char_driver_close d = (0, d\<lparr>d_close_count := c_int (d_close_count d + 1)\<rparr>)"

definition clamp_pos :: "loff \<Rightarrow> loff" where
  "clamp_pos n = (if n <s 0 then 0 else if of_nat BUFFER_SIZE <s n then of_nat BUFFER_SIZE else n)"

text \<open>The return value and the new \<open>f_pos\<close>.\<close>

definition pa3_char_driver_seek :: "loff \<Rightarrow> loff \<Rightarrow> int \<Rightarrow> loff \<times> loff" where
  "pa3_char_driver_seek f_pos offset whence =
     (let new = (if whence = 0 then Some offset else if whence = 1 then Some (offset + f_pos)
                 else if whence = 2 then Some (offset + of_nat BUFFER_SIZE) else None) in
      case new of None \<Rightarrow> (- EINVAL, f_pos)
      | Some n \<Rightarrow> (clamp_pos n, clamp_pos n))"

text \<open>Loading and removing the module; \<open>mem\<close> is what \<open>kmalloc\<close> returns, uninitialised.\<close>

definition pa3_char_driver_init :: "string option \<Rightarrow> device \<Rightarrow> int \<times> device" where
  "pa3_char_driver_init mem d =
     (case mem of None \<Rightarrow> (- ENOMEM, d\<lparr>d_buffer := None\<rparr>) | Some buf \<Rightarrow> (0, d\<lparr>d_buffer := Some buf\<rparr>))"

definition pa3_char_driver_exit :: "device \<Rightarrow> device" where
  "pa3_char_driver_exit d = d\<lparr>d_buffer := None\<rparr>"

subsection \<open>Sessions\<close>

text \<open>The calls of a process on its open file, whose position is \<open>f_pos\<close>; opening the device gives a
  position of 0.\<close>

datatype call = Open | Close | Read string | Write string | Seek loff int

definition driver_call :: "(nat \<Rightarrow> nat) \<Rightarrow> call \<Rightarrow> device \<times> loff \<Rightarrow> (device \<times> loff) res" where
  "driver_call unc c = (\<lambda>(d, f_pos).
     case c of
       Open \<Rightarrow> Inr (snd (pa3_char_driver_open d), 0)
     | Close \<Rightarrow> Inr (snd (pa3_char_driver_close d), f_pos)
     | Read buffer \<Rightarrow>
         bindR (pa3_char_driver_read unc d buffer (of_nat (length buffer)) f_pos) (\<lambda>(r, b, p). Inr (d, p))
     | Write buffer \<Rightarrow>
         bindR (pa3_char_driver_write unc d buffer (of_nat (length buffer)) f_pos) (\<lambda>(r, d', p). Inr (d', p))
     | Seek offset whence \<Rightarrow> Inr (d, snd (pa3_char_driver_seek f_pos offset whence)))"

definition wf_device :: "device \<times> loff \<Rightarrow> bool" where
  "wf_device = (\<lambda>(d, f_pos). (\<exists>buf. d_buffer d = Some buf \<and> length buf = BUFFER_SIZE) \<and> unat f_pos \<le> BUFFER_SIZE)"

text \<open>On positions in the device the word arithmetic is that of the naturals.\<close>

lemma unat_pos:
  assumes "unat (p :: loff) \<le> 900"
  shows "(900 \<le>s p) = (unat p = 900)" and "unat (900 - p) = 900 - unat p"
proof -
  have u: "int (unat p) = uint p" by simp
  then have "uint p \<le> 900" using assms by linarith
  then have s: "sint p = uint p"
    unfolding sint_uint by (intro signed_take_bit_int_eq_self) (auto intro: order_trans [OF _ uint_ge_0])
  have n: "sint (900 :: loff) = 900" by simp
  show "(900 \<le>s p) = (unat p = 900)" using assms u unfolding word_sle_eq n s by linarith
  have "p \<le> 900" using assms by (simp add: word_le_nat_alt)
  then show "unat (900 - p) = 900 - unat p" by (simp add: unat_sub)
qed

lemma unat_bytes_to_copy:
  assumes "unat offset \<le> BUFFER_SIZE"
  shows "unat (bytes_to_copy len offset) = min (unat len) (BUFFER_SIZE - unat offset)"
  using unat_pos [OF assms] by (simp add: bytes_to_copy_def Let_def word_less_nat_alt min_def)

lemma unat_advance:
  assumes "unat offset \<le> BUFFER_SIZE" and "u \<le> unat (bytes_to_copy len offset)"
  shows "unat (bytes_to_copy len offset - of_nat u) = unat (bytes_to_copy len offset) - u"
    and "unat (offset + (bytes_to_copy len offset - of_nat u)) = unat offset + (unat (bytes_to_copy len offset) - u)"
proof -
  let ?n = "bytes_to_copy len offset"
  have n: "unat ?n \<le> 900 - unat offset" using unat_bytes_to_copy [OF assms(1)] by simp
  then have u: "unat (of_nat u :: loff) = u" using assms(2) by (simp add: unat_of_nat)
  then have "of_nat u \<le> ?n" using assms(2) by (simp add: word_le_nat_alt)
  then show 1: "unat (?n - of_nat u) = unat ?n - u" using u by (simp add: unat_sub)
  have "unat offset + unat (?n - of_nat u) < 2 ^ 64" using n 1 assms(1) by simp
  then show "unat (offset + (?n - of_nat u)) = unat offset + (unat ?n - u)"
    using 1 by (simp add: unat_word_ariths)
qed

lemma kernel_buffer_wf:
  "wf_device (d, p) \<Longrightarrow> n \<le> BUFFER_SIZE \<Longrightarrow>
    \<exists>buf. d_buffer d = Some buf \<and> length buf = BUFFER_SIZE \<and> kernel_buffer d n = Inr buf"
  by (auto simp: wf_device_def kernel_buffer_def)

text \<open>What a read or write of \<open>len\<close> bytes at position \<open>pos\<close> may transfer.\<close>

definition transfer :: "nat \<Rightarrow> nat \<Rightarrow> nat" where
  "transfer pos len = min len (BUFFER_SIZE - pos)"

lemma read_spec:
  assumes "wf_device (d, p)" and "\<And>n. unc n \<le> n" and "length buffer < 2 ^ 64"
  shows "\<exists>r p' buf. d_buffer d = Some buf \<and> length buf = BUFFER_SIZE \<and>
    (let t = transfer (unat p) (length buffer) - unc (transfer (unat p) (length buffer)) in
     pa3_char_driver_read unc d buffer (of_nat (length buffer)) p = Inr (r, take t buf @ drop t buffer, p')
     \<and> unat r = t \<and> unat p' = unat p + t)"
proof -
  let ?n = "bytes_to_copy (of_nat (length buffer)) p"
  have p: "unat p \<le> BUFFER_SIZE" using assms(1) by (simp add: wf_device_def)
  have len: "unat (of_nat (length buffer) :: loff) = length buffer" using assms(3) by (simp add: unat_of_nat)
  have n: "unat ?n = transfer (unat p) (length buffer)" unfolding unat_bytes_to_copy [OF p] len transfer_def ..
  then have "unat ?n \<le> BUFFER_SIZE" by (simp add: transfer_def)
  with kernel_buffer_wf [OF assms(1)] obtain buf
    where buf: "d_buffer d = Some buf" "length buf = BUFFER_SIZE" "kernel_buffer d (unat ?n) = Inr buf" by blast
  show ?thesis
    using buf unat_advance [OF p assms(2), of "of_nat (length buffer)"] unfolding n
    by (simp add: pa3_char_driver_read_def Let_def copy_bytes_def n)
qed

lemma write_spec:
  assumes "wf_device (d, p)" and "\<And>n. unc n \<le> n" and "length buffer < 2 ^ 64"
  shows "\<exists>r p' buf. d_buffer d = Some buf \<and> length buf = BUFFER_SIZE \<and>
    (let t = transfer (unat p) (length buffer) - unc (transfer (unat p) (length buffer)) in
     pa3_char_driver_write unc d buffer (of_nat (length buffer)) p
       = Inr (r, d\<lparr>d_buffer := Some (take t buffer @ drop t buf)\<rparr>, p')
     \<and> unat r = t \<and> unat p' = unat p + t)"
proof -
  let ?n = "bytes_to_copy (of_nat (length buffer)) p"
  have p: "unat p \<le> BUFFER_SIZE" using assms(1) by (simp add: wf_device_def)
  have len: "unat (of_nat (length buffer) :: loff) = length buffer" using assms(3) by (simp add: unat_of_nat)
  have n: "unat ?n = transfer (unat p) (length buffer)" unfolding unat_bytes_to_copy [OF p] len transfer_def ..
  then have "unat ?n \<le> BUFFER_SIZE" by (simp add: transfer_def)
  with kernel_buffer_wf [OF assms(1)] obtain buf
    where buf: "d_buffer d = Some buf" "length buf = BUFFER_SIZE" "kernel_buffer d (unat ?n) = Inr buf" by blast
  show ?thesis
    using buf unat_advance [OF p assms(2), of "of_nat (length buffer)"] unfolding n
    by (simp add: pa3_char_driver_write_def Let_def copy_bytes_def n)
qed

text \<open>Seeking: the target, cut to the device.\<close>

definition seek_base :: "loff \<Rightarrow> int \<Rightarrow> int" where
  "seek_base p whence = (if whence = 0 then 0 else if whence = 1 then int (unat p) else int BUFFER_SIZE)"

lemma unat_clamp_pos: "unat (clamp_pos n) = nat (max 0 (min 900 (sint n)))"
proof (cases "sint n < 0 \<or> 900 < sint n")
  case True
  then show ?thesis by (auto simp: clamp_pos_def word_sless_alt)
next
  case False
  then have "uint n = sint n" by (simp add: uint_sint take_bit_int_eq_self)
  then have "unat n = nat (sint n)" by (metis unat_eq_nat_uint)
  then show ?thesis using False by (simp add: clamp_pos_def word_sless_alt)
qed

lemma seek_spec:
  assumes "unat p \<le> BUFFER_SIZE" and "whence \<in> {0, 1, 2}"
    and "- (2 ^ 63) \<le> sint offset + seek_base p whence" and "sint offset + seek_base p whence < 2 ^ 63"
  shows "fst (pa3_char_driver_seek p offset whence) = snd (pa3_char_driver_seek p offset whence)
    \<and> unat (snd (pa3_char_driver_seek p offset whence)) = nat (max 0 (min 900 (sint offset + seek_base p whence)))"
proof -
  have sp: "sint p = int (unat p)"
  proof -
    have u: "int (unat p) = uint p" by simp
    then have "uint p \<le> 900" using assms(1) by linarith
    then show ?thesis unfolding sint_uint u
      by (intro signed_take_bit_int_eq_self) (auto intro: order_trans [OF _ uint_ge_0])
  qed
  define n where "n = (if whence = 0 then offset else if whence = 1 then offset + p else offset + 900)"
  have add: "sint (offset + w) = sint offset + sint w"
    if "- (2 ^ 63) \<le> sint offset + sint w" "sint offset + sint w < 2 ^ 63" for w :: loff
    using that unfolding sint_word_add by (intro signed_take_bit_int_eq_self) simp_all
  have "sint n = sint offset + seek_base p whence"
  proof -
    have e: "sint (900 :: loff) = 900" by simp
    consider "whence = 0" | "whence = 1" | "whence = 2" using assms(2) by blast
    then show ?thesis
    proof cases
      case 2
      then show ?thesis using assms(3,4) sp unfolding n_def seek_base_def by (simp add: add)
    next
      case 3
      have "sint (offset + 900) = sint offset + 900" using assms(3,4) 3 add [of 900] unfolding seek_base_def e by simp
      then show ?thesis using 3 unfolding n_def seek_base_def by simp
    qed (simp add: n_def seek_base_def)
  qed
  moreover have "pa3_char_driver_seek p offset whence =
      (clamp_pos n, clamp_pos n)"
    using assms(2) by (auto simp: pa3_char_driver_seek_def n_def Let_def)
  ultimately show ?thesis using unat_clamp_pos [of n] by simp
qed

lemma clamp_pos_le: "unat (clamp_pos n) \<le> 900"
  unfolding unat_clamp_pos by linarith

lemma seek_in_device: "unat p \<le> BUFFER_SIZE \<Longrightarrow> unat (snd (pa3_char_driver_seek p offset whence)) \<le> BUFFER_SIZE"
  by (simp add: pa3_char_driver_seek_def clamp_pos_le)

lemma read_call:
  assumes "wf_device (d, p)" and "\<And>n. unc n \<le> n" and "length b < 2 ^ 64"
  shows "\<exists>p'. driver_call unc (Read b) (d, p) = Inr (d, p') \<and> wf_device (d, p')"
proof -
  obtain r p' buf where r: "d_buffer d = Some buf" "length buf = 900"
      "pa3_char_driver_read unc d b (of_nat (length b)) p = Inr (r,
         take (transfer (unat p) (length b) - unc (transfer (unat p) (length b))) buf
         @ drop (transfer (unat p) (length b) - unc (transfer (unat p) (length b))) b, p')"
      "unat p' = unat p + (transfer (unat p) (length b) - unc (transfer (unat p) (length b)))"
    using read_spec [OF assms] by (auto simp: Let_def)
  have "unat p \<le> 900" using assms(1) by (simp add: wf_device_def)
  moreover have "transfer (unat p) (length b) - u \<le> 900 - unat p" for u by (simp add: transfer_def)
  ultimately have "unat p' \<le> 900" unfolding r(4) by (metis add_le_cancel_left le_add_diff_inverse)
  then show ?thesis using r(1-3) by (simp add: driver_call_def wf_device_def)
qed

lemma write_call:
  assumes "wf_device (d, p)" and "\<And>n. unc n \<le> n" and "length b < 2 ^ 64"
  shows "\<exists>d' p'. driver_call unc (Write b) (d, p) = Inr (d', p') \<and> wf_device (d', p')"
proof -
  let ?t = "transfer (unat p) (length b) - unc (transfer (unat p) (length b))"
  obtain r p' buf where r: "d_buffer d = Some buf" "length buf = 900"
      "pa3_char_driver_write unc d b (of_nat (length b)) p = Inr (r, d\<lparr>d_buffer := Some (take ?t b @ drop ?t buf)\<rparr>, p')"
      "unat p' = unat p + ?t"
    using write_spec [OF assms] by (auto simp: Let_def)
  have p: "unat p \<le> 900" using assms(1) by (simp add: wf_device_def)
  have t: "?t \<le> length b" "?t \<le> 900 - unat p" by (simp_all add: transfer_def)
  then have "unat p' \<le> 900" "length (take ?t b @ drop ?t buf) = 900" using r(2,4) p by simp_all
  then show ?thesis using r(3) by (simp add: driver_call_def wf_device_def)
qed

lemma driver_call_wf:
  assumes "wf_device (d, p)" and "\<And>n. unc n \<le> n" and "\<forall>b. c = Read b \<or> c = Write b \<longrightarrow> length b < 2 ^ 64"
  shows "okR (driver_call unc c (d, p)) wf_device"
proof (cases c)
  case (Read b)
  then show ?thesis using read_call [OF assms(1,2), of b] assms(3) by auto
next
  case (Write b)
  then show ?thesis using write_call [OF assms(1,2), of b] assms(3) by auto
next
  case (Seek offset whence)
  then show ?thesis using assms(1) seek_in_device by (simp add: driver_call_def wf_device_def)
next
  case Open
  then show ?thesis using assms(1) by (simp add: driver_call_def wf_device_def pa3_char_driver_open_def)
next
  case Close
  then show ?thesis using assms(1) by (simp add: driver_call_def wf_device_def pa3_char_driver_close_def)
qed

subsection \<open>Properties\<close>

text \<open>C36: No sequence of calls makes the driver access memory outside its buffer: after a successful load,
  whatever is opened, read, written and sought, however short the copies stop, no call faults, the
  buffer keeps its 900 bytes and the position stays in the device.\<close>

theorem driver_stays_in_bounds:
  assumes "length mem = BUFFER_SIZE" and "\<And>n. unc n \<le> n"
    and "\<forall>c \<in> set cs. \<forall>b. c = Read b \<or> c = Write b \<longrightarrow> length b < 2 ^ 64"
  shows "okR (foldR (driver_call unc) cs (snd (pa3_char_driver_init (Some mem) d), 0))
    (\<lambda>(d', f_pos). (\<exists>buf. d_buffer d' = Some buf \<and> length buf = BUFFER_SIZE) \<and> unat f_pos \<le> BUFFER_SIZE)"
proof -
  have "wf_device (snd (pa3_char_driver_init (Some mem) d), 0)"
    using assms(1) by (simp add: wf_device_def pa3_char_driver_init_def)
  then have "okR (foldR (driver_call unc) cs (snd (pa3_char_driver_init (Some mem) d), 0)) wf_device"
    using driver_call_wf [OF _ assms(2)] assms(3) by (intro okR_foldR) auto
  then show ?thesis by (simp add: wf_device_def)
qed

theorem driver_stays_in_bounds_witness:
  "\<exists>d' p'. foldR (driver_call (\<lambda>n. n div 2)) [Open, Write ''abcd'', Seek 1000 2, Read ''    '', Seek (-5) 1, Close]
     (snd (pa3_char_driver_init (Some (replicate 900 NUL)) \<lparr>d_open_count = 0, d_close_count = 0, d_buffer = None\<rparr>), 0)
       = Inr (d', p') \<and> unat p' \<le> 900"
  using driver_stays_in_bounds [of "replicate 900 NUL" "\<lambda>n. n div 2"
      "[Open, Write ''abcd'', Seek 1000 2, Read ''    '', Seek (-5) 1, Close]"]
  by (fastforce simp: okR_iff)

text \<open>C19: Counts and positions are those of a file of 900 bytes: a read or write of a buffer transfers as
  many bytes as there are from the position to the end, less those the copy failed on, returns that
  count and moves the position by it; a seek goes to its target, cut to the device; another
  \<open>whence\<close> is refused.\<close>

theorem driver_positions:
  assumes "wf_device (d, p)" and "\<And>n. unc n \<le> n" and "length buffer < 2 ^ 64"
  shows "(\<exists>r b p'. pa3_char_driver_read unc d buffer (of_nat (length buffer)) p = Inr (r, b, p')
      \<and> unat r = transfer (unat p) (length buffer) - unc (transfer (unat p) (length buffer)) \<and> unat p' = unat p + unat r)
    \<and> (\<exists>r d' p'. pa3_char_driver_write unc d buffer (of_nat (length buffer)) p = Inr (r, d', p')
      \<and> unat r = transfer (unat p) (length buffer) - unc (transfer (unat p) (length buffer)) \<and> unat p' = unat p + unat r)
    \<and> (whence \<in> {0, 1, 2} \<longrightarrow> - (2 ^ 63) \<le> sint offset + seek_base p whence \<longrightarrow> sint offset + seek_base p whence < 2 ^ 63 \<longrightarrow>
        fst (pa3_char_driver_seek p offset whence) = snd (pa3_char_driver_seek p offset whence)
        \<and> unat (snd (pa3_char_driver_seek p offset whence)) = nat (max 0 (min 900 (sint offset + seek_base p whence))))
    \<and> (whence \<notin> {0, 1, 2} \<longrightarrow> pa3_char_driver_seek p offset whence = (-22, p))"
proof (intro conjI impI)
  show "\<exists>r b p'. pa3_char_driver_read unc d buffer (of_nat (length buffer)) p = Inr (r, b, p')
      \<and> unat r = transfer (unat p) (length buffer) - unc (transfer (unat p) (length buffer)) \<and> unat p' = unat p + unat r"
    using read_spec [OF assms] by (auto simp: Let_def)
  show "\<exists>r d' p'. pa3_char_driver_write unc d buffer (of_nat (length buffer)) p = Inr (r, d', p')
      \<and> unat r = transfer (unat p) (length buffer) - unc (transfer (unat p) (length buffer)) \<and> unat p' = unat p + unat r"
    using write_spec [OF assms] by (auto simp: Let_def)
  have p: "unat p \<le> BUFFER_SIZE" using assms(1) by (simp add: wf_device_def)
  assume *: "whence \<in> {0, 1, 2}" "- (2 ^ 63) \<le> sint offset + seek_base p whence" "sint offset + seek_base p whence < 2 ^ 63"
  show "fst (pa3_char_driver_seek p offset whence) = snd (pa3_char_driver_seek p offset whence)"
    "unat (snd (pa3_char_driver_seek p offset whence)) = nat (max 0 (min 900 (sint offset + seek_base p whence)))"
    using seek_spec [OF p *] by blast+
next
  assume "whence \<notin> {0, 1, 2}"
  then show "pa3_char_driver_seek p offset whence = (-22, p)" by (simp add: pa3_char_driver_seek_def)
qed

definition sample_device :: device where
  "sample_device = \<lparr>d_open_count = 0, d_close_count = 0, d_buffer = Some (replicate 900 NUL)\<rparr>"

theorem driver_positions_witness:
  "unat (snd (pa3_char_driver_seek 890 100 1)) = 900 \<and> pa3_char_driver_seek 890 0 7 = (-22, 890)
    \<and> (\<exists>r b p'. pa3_char_driver_read (\<lambda>n. 0) sample_device ''abcdefghijklmnop'' 16 890 = Inr (r, b, p') \<and> unat r = 10)"
  using driver_positions [of sample_device 890 "\<lambda>n. 0" "''abcdefghijklmnop''" 1 100]
    driver_positions [of sample_device 890 "\<lambda>n. 0" "''abcdefghijklmnop''" 7 0]
  by (auto simp: wf_device_def sample_device_def seek_base_def transfer_def)

text \<open>The data ignore the position: every read delivers the first bytes of the buffer, and every write
  goes to its start. So two writes one after the other do not append: the second overwrites the first.\<close>

lemma driver_data_ignore_position:
  assumes "wf_device (d, p)" and "length buffer < 2 ^ 64" and "d_buffer d = Some buf"
    and "length a + length b \<le> BUFFER_SIZE"
  shows "(\<exists>r p'. pa3_char_driver_read (\<lambda>n. 0) d buffer (of_nat (length buffer)) p =
        Inr (r, take (unat r) buf @ drop (unat r) buffer, p'))
    \<and> (\<exists>d'. foldR (driver_call (\<lambda>n. 0)) [Write a, Write b] (d, 0) = Inr (d', of_nat (length a + length b))
        \<and> d_buffer d' = Some (b @ drop (length b) (a @ drop (length a) buf)))"
proof
  show "\<exists>r p'. pa3_char_driver_read (\<lambda>n. 0) d buffer (of_nat (length buffer)) p =
        Inr (r, take (unat r) buf @ drop (unat r) buffer, p')"
    using read_spec [OF assms(1) _ assms(2), of "\<lambda>n. 0"] assms(3) by (auto simp: Let_def)
  have len: "length a < 2 ^ 64" "length b < 2 ^ 64" "transfer 0 (length a) = length a"
      "transfer (length a) (length b) = length b"
    using assms(4) by (simp_all add: transfer_def)
  have wf: "wf_device (d, 0)" using assms(1) by (simp add: wf_device_def)
  obtain p1 where p1: "driver_call (\<lambda>n. 0) (Write a) (d, 0) = Inr (d\<lparr>d_buffer := Some (a @ drop (length a) buf)\<rparr>, p1)"
      "unat p1 = length a" "length buf = 900"
    using write_spec [OF wf _ len(1), of "\<lambda>n. 0"] assms(3) len(3) by (auto simp: Let_def driver_call_def)
  let ?d1 = "d\<lparr>d_buffer := Some (a @ drop (length a) buf)\<rparr>"
  have wf1: "wf_device (?d1, p1)" using p1(2,3) assms(4) by (simp add: wf_device_def)
  obtain p2 where p2: "driver_call (\<lambda>n. 0) (Write b) (?d1, p1)
      = Inr (d\<lparr>d_buffer := Some (b @ drop (length b) (a @ drop (length a) buf))\<rparr>, p2)" "unat p2 = length a + length b"
    using write_spec [OF wf1 _ len(2), of "\<lambda>n. 0"] len(4) p1(2) by (auto simp: Let_def driver_call_def)
  have "p2 = of_nat (length a + length b)" unfolding p2(2) [symmetric] by simp
  then show "\<exists>d'. foldR (driver_call (\<lambda>n. 0)) [Write a, Write b] (d, 0) = Inr (d', of_nat (length a + length b))
        \<and> d_buffer d' = Some (b @ drop (length b) (a @ drop (length a) buf))"
    using p1(1) p2(1) by simp
qed

lemma driver_data_ignore_position_witness:
  "\<exists>d'. foldR (driver_call (\<lambda>n. 0)) [Write ''first'', Write ''2nd''] (sample_device, 0) = Inr (d', 8)
     \<and> d_buffer d' = Some (''2ndst'' @ replicate 895 NUL)"
  using driver_data_ignore_position [of sample_device 0 "[]" "replicate 900 NUL" "''first''" "''2nd''"]
  by (auto simp: sample_device_def wf_device_def)

end
