(* ===== verification/Mult_Call.thy ===== *)
theory Mult_Call
  imports Prelude "HOL-Library.Word"
begin

text \<open>
  The system call \<open>csci3753_mult\<close> of \<open>assignments/pa1\<close>: the product of two \<open>int\<close>s is computed in 32 bits
  (with wrap-around, as the kernel is compiled) and only then widened to \<open>long\<close>. \<open>copy_to_user\<close> is an
  argument: it gives the new user memory and the number of bytes it could not copy.
\<close>

definition kernel_result :: "32 word \<Rightarrow> 32 word \<Rightarrow> 64 word" where
  "kernel_result number1 number2 = scast (number1 * number2)"

definition csci3753_mult ::
  "('m \<Rightarrow> 64 word \<Rightarrow> 'm \<times> nat) \<Rightarrow> 32 word \<Rightarrow> 32 word \<Rightarrow> 'm \<Rightarrow> int \<times> 'm" where
  "csci3753_mult copy_to_user number1 number2 user =
     (let (user', uncopied) = copy_to_user user (kernel_result number1 number2) in (0, user'))"

lemma sint_kernel_result: "sint (kernel_result a b) = signed_take_bit 31 (sint a * sint b)"
  by (simp add: kernel_result_def sint_up_scast is_up sint_word_ariths)

text \<open>The call always returns 0, and the value it hands to \<open>copy_to_user\<close> is the product exactly when
  the product fits in an \<open>int\<close>, although the result is a \<open>long\<close>, which could hold every product.\<close>

lemma mult_truncates:
  "fst (csci3753_mult copy_to_user a b user) = 0
   \<and> snd (csci3753_mult copy_to_user a b user) = fst (copy_to_user user (kernel_result a b))
   \<and> (sint (kernel_result a b) = sint a * sint b \<longleftrightarrow> - (2 ^ 31) \<le> sint a * sint b \<and> sint a * sint b < 2 ^ 31)"
proof -
  have "sint (kernel_result a b) = sint a * sint b \<longleftrightarrow> - (2 ^ 31) \<le> sint a * sint b \<and> sint a * sint b < 2 ^ 31"
    unfolding sint_kernel_result by (simp add: signed_take_bit_int_eq_self_iff)
  then show ?thesis by (simp add: csci3753_mult_def split: prod.splits)
qed

end
