(* ===== verification/Copy_Sim.thy ===== *)
theory Copy_Sim
  imports Prelude
begin

text \<open>
  The simulation of \<open>copy_from_user\<close> and \<open>copy_to_user\<close> in \<open>recitation/kernel-mem-access\<close> and the string
  and array helpers of \<open>recitation/syscall-demo\<close>. Buffers are byte lists; a \<open>memcpy\<close> that would leave
  one of them is a fault.
\<close>

subsection \<open>\<open>copy_sim.c\<close>\<close>

abbreviation (input) KBUF_SIZE :: nat where "KBUF_SIZE \<equiv> 32"

definition c_memcpy :: "string \<Rightarrow> string \<Rightarrow> nat \<Rightarrow> string res" where
  "c_memcpy dst src n =
     (if n \<le> length src \<and> n \<le> length dst then Inr (take n src @ drop n dst) else Inl Out_Of_Bounds)"

definition copy_from_user_sim :: "string option \<Rightarrow> nat \<Rightarrow> string \<Rightarrow> nat \<Rightarrow> (nat \<times> string) res" where
  "copy_from_user_sim user_src user_len kernel_dst kernel_cap =
     (case user_src of None \<Rightarrow> Inr (0, kernel_dst)
      | Some src \<Rightarrow>
          if user_len > kernel_cap then Inr (0, kernel_dst)
          else bindR (c_memcpy kernel_dst src user_len) (\<lambda>d. Inr (user_len, d)))"

text \<open>The destination is the option: NULL is refused.\<close>

definition copy_to_user_sim :: "string \<Rightarrow> nat \<Rightarrow> string option \<Rightarrow> nat \<Rightarrow> (nat \<times> string option) res" where
  "copy_to_user_sim kernel_src kernel_len user_dst user_cap =
     (case user_dst of None \<Rightarrow> Inr (0, None)
      | Some dst \<Rightarrow>
          if kernel_len > user_cap then Inr (0, Some dst)
          else bindR (c_memcpy dst kernel_src kernel_len) (\<lambda>d. Inr (kernel_len, Some d)))"

definition c_toupper :: "char \<Rightarrow> char" where
  "c_toupper c = (if 97 \<le> (of_char c :: nat) \<and> (of_char c :: nat) \<le> 122
     then char_of ((of_char c :: nat) - 32) else c)"

definition upper_step :: "nat \<Rightarrow> string \<Rightarrow> string res" where
  "upper_step i kbuf = bindR (idx kbuf (int i)) (\<lambda>c. store kbuf (int i) (c_toupper c))"

text \<open>\<open>main\<close>: what the user gets back in case 1 (None where a copy is refused), and the byte counts
  of the copies of cases 2 and 3. The arguments are the uninitialised buffers.\<close>

definition copy_sim_case1 :: "string \<Rightarrow> string \<Rightarrow> (string option \<times> string) res" where
  "copy_sim_case1 kbuf user_out1 =
     (let msg = ''hello kernel'' @ [NUL] in
      bindR (copy_from_user_sim (Some msg) (c_strlen msg + 1) kbuf (length kbuf)) (\<lambda>(inn, kbuf).
      if inn = 0 then Inr (None, kbuf)
      else
        bindR (foldR upper_step [0..<inn] kbuf) (\<lambda>kbuf.
        bindR (copy_to_user_sim kbuf inn (Some user_out1) (length user_out1)) (\<lambda>(out, u).
        Inr (if out = 0 then None else map_option cstr u, kbuf)))))"

definition copy_sim_main :: "string \<Rightarrow> string \<Rightarrow> string \<Rightarrow> (string option \<times> nat \<times> nat) res" where
  "copy_sim_main kbuf user_out1 tiny_user_out =
     bindR (copy_sim_case1 kbuf user_out1) (\<lambda>(got, kbuf).
     let big = replicate 127 (CHR ''A'') @ [NUL] in
     bindR (copy_from_user_sim (Some big) (c_strlen big + 1) kbuf (length kbuf)) (\<lambda>(in2, kbuf).
     let small = ''OK'' @ [NUL] in
     bindR (copy_from_user_sim (Some small) (c_strlen small + 1) kbuf (length kbuf)) (\<lambda>(in3, kbuf).
     if in3 = 0 then Inr (got, in2, 0)
     else
       bindR (copy_to_user_sim kbuf in3 (Some tiny_user_out) (length tiny_user_out)) (\<lambda>(out, u).
       Inr (got, in2, out)))))"

subsection \<open>\<open>syscall_demo.c\<close>\<close>

function reverse_loop :: "nat \<Rightarrow> nat \<Rightarrow> string \<Rightarrow> string res" where
  "reverse_loop i j s =
     (if i < j then
        bindR (idx s (int i)) (\<lambda>tmp.
        bindR (idx s (int j)) (\<lambda>c.
        bindR (store s (int i) c) (\<lambda>s.
        bindR (store s (int j) tmp) (\<lambda>s. reverse_loop (i + 1) (j - 1) s))))
      else Inr s)"
  by pat_completeness auto
termination by (relation "measure (\<lambda>(i, j, s). j - i)") auto

declare reverse_loop.simps [simp del]

definition reverse_in_place :: "string \<Rightarrow> string res" where
  "reverse_in_place s = (let j = c_strlen s in if j = 0 then Inr s else reverse_loop 0 (j - 1) s)"

text \<open>\<open>sum_array\<close> in 32-bit \<open>int\<close> arithmetic.\<close>

definition sum_array :: "int list \<Rightarrow> nat \<Rightarrow> int res" where
  "sum_array a n = foldR (\<lambda>i sum. bindR (idx a (int i)) (\<lambda>x. Inr (c_int (sum + x)))) [0..<n] 0"

subsection \<open>Copies\<close>

lemma copy_from_user_sim_spec:
  assumes "user_len \<le> length src" and "kernel_cap \<le> length dst"
  shows "copy_from_user_sim (Some src) user_len dst kernel_cap =
    Inr (if user_len \<le> kernel_cap then (user_len, take user_len src @ drop user_len dst) else (0, dst))"
  using assms by (simp add: copy_from_user_sim_def c_memcpy_def)

lemma copy_to_user_sim_spec:
  assumes "kernel_len \<le> length src" and "user_cap \<le> length dst"
  shows "copy_to_user_sim src kernel_len (Some dst) user_cap =
    Inr (if kernel_len \<le> user_cap then (kernel_len, Some (take kernel_len src @ drop kernel_len dst)) else (0, Some dst))"
  using assms by (simp add: copy_to_user_sim_def c_memcpy_def)

lemma upper_all:
  assumes "n \<le> length kbuf"
  shows "foldR upper_step [0..<n] kbuf = Inr (map c_toupper (take n kbuf) @ drop n kbuf)"
  using assms
proof (induction n)
  case 0
  then show ?case by simp
next
  case (Suc n)
  let ?b = "map c_toupper (take n kbuf) @ drop n kbuf"
  have "upper_step n ?b = Inr (?b[n := c_toupper (kbuf ! n)])"
    using Suc.prems by (simp add: upper_step_def nth_append)
  also have "?b[n := c_toupper (kbuf ! n)] = map c_toupper (take (Suc n) kbuf) @ drop (Suc n) kbuf"
    using Suc.prems by (simp add: list_update_append take_Suc_conv_app_nth Cons_nth_drop_Suc [symmetric])
  finally show ?case using Suc by (simp add: foldR_append)
qed

lemma reverse_loop_spec:
  assumes "i + j + 1 = n" and "n \<le> length s" and "i \<le> j + 1"
  shows "reverse_loop i j s = Inr (take i s @ rev (take (j + 1 - i) (drop i s)) @ drop (j + 1) s)"
  using assms
proof (induction i j s arbitrary: rule: reverse_loop.induct)
  case (1 i j s)
  show ?case
  proof (cases "i < j")
    case False
    have short: "length xs \<le> 1 \<Longrightarrow> rev xs = xs" for xs :: string by (cases xs) simp_all
    have "rev (take (j + 1 - i) (drop i s)) = take (j + 1 - i) (drop i s)" using False by (intro short) simp
    moreover have "take i s @ take (j + 1 - i) (drop i s) @ drop (j + 1) s = s"
      using 1(4) by (metis append_assoc append_take_drop_id le_add_diff_inverse take_add)
    ultimately show ?thesis using False by (simp add: reverse_loop.simps)
  next
    case True
    let ?s = "s[i := s ! j, j := s ! i]"
    have len: "j < length s" "i < length s" using True 1(2,3) by simp_all
    have "reverse_loop i j s = reverse_loop (i + 1) (j - 1) ?s"
      using True len by (subst reverse_loop.simps) simp
    also have "\<dots> = Inr (take (i + 1) ?s @ rev (take (j - 1 + 1 - (i + 1)) (drop (i + 1) ?s)) @ drop (j - 1 + 1) ?s)"
      using 1(1) [OF True, of "s ! i" "s ! j" "s[i := s ! j]" ?s] True 1(2,3) len by simp
    also have "take (i + 1) ?s = take i s @ [s ! j]" using True len by (simp add: take_Suc_conv_app_nth)
    also have "drop (j - 1 + 1) ?s = s ! i # drop (j + 1) s"
      using True len by (simp add: Cons_nth_drop_Suc [symmetric])
    also have "take (j - 1 + 1 - (i + 1)) (drop (i + 1) ?s) = take (j - (i + 1)) (drop (i + 1) s)"
      using True len by (intro nth_equalityI) auto
    also have "(take i s @ [s ! j]) @ rev (take (j - (i + 1)) (drop (i + 1) s)) @ s ! i # drop (j + 1) s
      = take i s @ rev (s ! i # take (j - (i + 1)) (drop (i + 1) s) @ [s ! j]) @ drop (j + 1) s" by simp
    also have "s ! i # take (j - (i + 1)) (drop (i + 1) s) @ [s ! j] = take (j + 1 - i) (drop i s)"
    proof -
      have "take (j + 1 - i) (drop i s) = s ! i # take (j - i) (drop (i + 1) s)"
        using True len by (simp add: Cons_nth_drop_Suc [symmetric] Suc_diff_le)
      moreover have "take (j - i) (drop (i + 1) s) = take (j - (i + 1)) (drop (i + 1) s) @ [s ! j]"
      proof -
        have "j - i = Suc (j - (i + 1))" using True by simp
        then show ?thesis using True len by (simp add: take_Suc_conv_app_nth)
      qed
      ultimately show ?thesis by simp
    qed
    finally show ?thesis .
  qed
qed

text \<open>A copy to the kernel and back is exact when it fits both buffers, and refused with the
  destination untouched when the length exceeds the capacity, so no copy leaves a buffer; and the demo
  shows its three cases: \<open>HELLO KERNEL\<close> comes back, the oversized write and the read into two bytes are
  refused.\<close>

lemma copies_are_checked:
  assumes "n \<le> length src" and "length kbuf = KBUF_SIZE" and "length dst = 64" and "length tiny = 2"
  shows "(\<exists>inn kbuf'. copy_from_user_sim (Some src) n kbuf KBUF_SIZE = Inr (inn, kbuf') \<and> length kbuf' = KBUF_SIZE \<and>
      (if n \<le> KBUF_SIZE then inn = n \<and> copy_to_user_sim kbuf' n (Some dst) (length dst) = Inr (n, Some (take n src @ drop n dst))
       else inn = 0 \<and> kbuf' = kbuf))
    \<and> copy_sim_main kbuf dst tiny = Inr (Some ''HELLO KERNEL'', 0, 0)"
proof
  show "\<exists>inn kbuf'. copy_from_user_sim (Some src) n kbuf KBUF_SIZE = Inr (inn, kbuf') \<and> length kbuf' = KBUF_SIZE \<and>
      (if n \<le> KBUF_SIZE then inn = n \<and> copy_to_user_sim kbuf' n (Some dst) (length dst) = Inr (n, Some (take n src @ drop n dst))
       else inn = 0 \<and> kbuf' = kbuf)"
    using assms by (simp add: copy_from_user_sim_spec copy_to_user_sim_spec)
  let ?msg = "''hello kernel'' @ [NUL]"
  have len: "c_strlen ?msg + 1 = 13" "c_strlen (''OK'' @ [NUL]) + 1 = 3" "c_strlen (replicate 127 (CHR ''A'') @ [NUL]) + 1 = 128"
    by (simp_all add: c_strlen_def cstr_def takeWhile_append)
  have up: "map c_toupper ?msg = ''HELLO KERNEL'' @ [NUL]" by (simp add: c_toupper_def char_of_def bit_Suc_0_iff)
  have "copy_sim_case1 kbuf dst = Inr (Some ''HELLO KERNEL'', (''HELLO KERNEL'' @ [NUL]) @ drop 13 kbuf)"
    unfolding copy_sim_case1_def Let_def len using assms(2,3) up
    by (simp add: copy_from_user_sim_spec copy_to_user_sim_spec upper_all cstr_def)
  then show "copy_sim_main kbuf dst tiny = Inr (Some ''HELLO KERNEL'', 0, 0)"
    unfolding copy_sim_main_def Let_def len using assms(2,4)
    by (simp add: copy_from_user_sim_spec copy_to_user_sim_spec)
qed

lemma copies_are_checked_witness:
  "copy_sim_main (replicate 32 NUL) (replicate 64 NUL) (replicate 2 NUL) = Inr (Some ''HELLO KERNEL'', 0, 0)"
  using copies_are_checked [of 0 "[]" "replicate 32 NUL" "replicate 64 NUL" "replicate 2 NUL"] by simp

lemma cstr_prefix: "take (c_strlen s) s = cstr s"
  by (metis c_strlen_def cstr_def takeWhile_eq_take)

lemma drop_c_strlen: "NUL \<in> set s \<Longrightarrow> \<exists>rest. drop (c_strlen s) s = NUL # rest"
proof -
  assume "NUL \<in> set s"
  then have "dropWhile (\<lambda>c. c \<noteq> NUL) s \<noteq> []" by auto
  then obtain c rest where d: "dropWhile (\<lambda>c. c \<noteq> NUL) s = c # rest" by (cases "dropWhile (\<lambda>c. c \<noteq> NUL) s") auto
  then have "c = NUL" using hd_dropWhile [of "\<lambda>c. c \<noteq> NUL" s] by auto
  then show ?thesis using d by (metis c_strlen_def cstr_def dropWhile_eq_drop)
qed

lemma reverse_in_place_spec:
  assumes "NUL \<in> set s"
  shows "reverse_in_place s = Inr (rev (cstr s) @ drop (c_strlen s) s)"
proof (cases "c_strlen s = 0")
  case True
  then show ?thesis by (simp add: reverse_in_place_def c_strlen_def)
next
  case False
  have "c_strlen s \<le> length s" by (simp add: c_strlen_def cstr_def length_takeWhile_le)
  then have "reverse_loop 0 (c_strlen s - 1) s = Inr (rev (take (c_strlen s) s) @ drop (c_strlen s) s)"
    using False by (subst reverse_loop_spec [of _ _ "c_strlen s"]) simp_all
  then show ?thesis using False by (simp add: reverse_in_place_def cstr_prefix)
qed

lemma c_int_add: "c_int (c_int a + b) = c_int (a + b)"
proof -
  have "((a + 2 ^ 31) mod 2 ^ 32 + b) mod 2 ^ 32 = (a + 2 ^ 31 + b) mod (2 ^ 32 :: int)" by (rule mod_add_left_eq)
  then show ?thesis unfolding c_int_def by (simp add: ac_simps)
qed

lemma sum_array_spec: "n \<le> length a \<Longrightarrow> sum_array a n = Inr (c_int (sum_list (take n a)))"
proof (induction n)
  case 0
  then show ?case by (simp add: sum_array_def c_int_def)
next
  case (Suc n)
  then show ?case
    by (simp add: sum_array_def foldR_append take_Suc_conv_app_nth c_int_add)
qed

text \<open>\<open>reverse_in_place\<close> reverses the string in its buffer without touching the NUL and what follows,
  and twice gives the buffer back; \<open>sum_array\<close> returns the sum of the first \<open>n\<close> elements, wrapped to
  32 bits.\<close>

lemma demo_helpers:
  assumes "NUL \<in> set s" and "n \<le> length a"
  shows "reverse_in_place s = Inr (rev (cstr s) @ drop (c_strlen s) s)
    \<and> bindR (reverse_in_place s) reverse_in_place = Inr s \<and> sum_array a n = Inr (c_int (sum_list (take n a)))"
proof (intro conjI)
  show r: "reverse_in_place s = Inr (rev (cstr s) @ drop (c_strlen s) s)" by (rule reverse_in_place_spec [OF assms(1)])
  show "sum_array a n = Inr (c_int (sum_list (take n a)))" by (rule sum_array_spec [OF assms(2)])
  obtain rest where rest: "drop (c_strlen s) s = NUL # rest" using drop_c_strlen [OF assms(1)] by blast
  let ?r = "rev (cstr s) @ NUL # rest"
  have c: "cstr ?r = rev (cstr s)" using cstr_no_NUL [of s] by (intro cstr_append_NUL) simp
  then have "c_strlen ?r = length (rev (cstr s))" by (simp add: c_strlen_def)
  then have "reverse_in_place ?r = Inr (cstr s @ drop (c_strlen s) s)"
    using reverse_in_place_spec [of ?r] unfolding c rest by simp
  then show "bindR (reverse_in_place s) reverse_in_place = Inr s"
    unfolding r rest by (metis append_take_drop_id bindR_simps(2) cstr_prefix rest)
qed

lemma demo_helpers_witness:
  "reverse_in_place (''abc'' @ [NUL, CHR ''x'']) = Inr (''cba'' @ [NUL, CHR ''x'']) \<and> sum_array [1, 2, 2147483647] 3 = Inr (-2147483646)"
  using demo_helpers [of "''abc'' @ [NUL, CHR ''x'']" 3 "[1, 2, 2147483647]"]
  by (simp add: cstr_def c_strlen_def c_int_def)

end
