(* ===== verification/Command_Line.thy ===== *)
theory Command_Line
  imports Pager_Basic Pager_Predict Lookup_Run File_Tool
begin

text \<open>
  The command lines: the options of \<open>simulator.c\<close>, up to and with the simulation they start, and the
  arguments of \<open>multi-lookup.c\<close>, up to the running threads, with the end of its \<open>main\<close>. \<open>argv\<close> is the list of
  the arguments, the name of the program first; the element after the last one is NULL.
\<close>

unbundle bit_operations_syntax

subsection \<open>The options of the simulator\<close>

abbreviation (input) LOG_ALWAYS :: int where "LOG_ALWAYS \<equiv> 1"
abbreviation (input) LOG_LOAD :: int where "LOG_LOAD \<equiv> 2"
abbreviation (input) LOG_BLOCK :: int where "LOG_BLOCK \<equiv> 4"
abbreviation (input) LOG_PAGE :: int where "LOG_PAGE \<equiv> 8"
abbreviation (input) LOG_BRANCH :: int where "LOG_BRANCH \<equiv> 16"
abbreviation (input) LOG_DEAD :: int where "LOG_DEAD \<equiv> 32"

text \<open>The variables that parsing sets; \<open>g_output\<close> and \<open>g_pages\<close> say whether the csv streams are open.\<close>

record sim_args =
  g_seed :: int
  g_procs :: int
  g_log :: int
  g_output :: bool
  g_pages :: bool
  g_errors :: nat
  g_help :: nat

definition sim_args_static :: sim_args where
  "sim_args_static = \<lparr>g_seed = 0, g_procs = int MAXPROCESSES, g_log = LOG_ALWAYS, g_output = False, g_pages = False,
     g_errors = 0, g_help = 0\<rparr>"

text \<open>\<open>sscanf(s, "%ld", &v)\<close>: the new value, or None where it does not return 1.\<close>

definition scan_ld :: "string \<Rightarrow> int option" where
  "scan_ld s = strtol s"

definition log_on :: "int \<Rightarrow> sim_args \<Rightarrow> sim_args" where
  "log_on ports g = g\<lparr>g_log := g_log g OR ports\<rparr>"

definition add_error :: "sim_args \<Rightarrow> sim_args" where
  "add_error g = g\<lparr>g_errors := g_errors g + 1\<rparr>"

definition seed_option :: "string \<Rightarrow> sim_args \<Rightarrow> sim_args" where
  "seed_option a g =
     (case scan_ld a of None \<Rightarrow> add_error g
      | Some v \<Rightarrow>
          let g = g\<lparr>g_seed := v\<rparr> in
          if g_seed g < 1 \<or> g_seed g > 2 ^ 30 - 1 then add_error g else g)"

definition procs_option :: "string \<Rightarrow> sim_args \<Rightarrow> sim_args" where
  "procs_option a g =
     (case scan_ld a of None \<Rightarrow> add_error g
      | Some v \<Rightarrow>
          let g = g\<lparr>g_procs := v\<rparr> in
          if g_procs g < 1 \<or> g_procs g > int MAXPROCESSES then add_error g else g)"

text \<open>\<open>fopen_w name\<close> says whether the file can be opened for writing.\<close>

definition csv_option :: "(string \<Rightarrow> bool) \<Rightarrow> sim_args \<Rightarrow> sim_args" where
  "csv_option fopen_w g =
     (let g = g\<lparr>g_output := fopen_w ''output.csv''\<rparr>;
          g = (if \<not> g_output g then add_error g else g);
          g = g\<lparr>g_pages := fopen_w ''pages.csv''\<rparr> in
      if \<not> g_pages g then add_error g else g)"

text \<open>The options that stand alone; anything else is an error.\<close>

definition plain_option :: "(string \<Rightarrow> bool) \<Rightarrow> string \<Rightarrow> sim_args \<Rightarrow> sim_args" where
  "plain_option fopen_w a g =
     (if a = ''-help'' then g\<lparr>g_help := g_help g + 1\<rparr>
      else if a = ''-all'' then log_on (LOG_LOAD OR LOG_BLOCK OR LOG_PAGE OR LOG_BRANCH) g
      else if a = ''-load'' then log_on LOG_LOAD g
      else if a = ''-block'' then log_on LOG_BLOCK g
      else if a = ''-page'' then log_on LOG_PAGE g
      else if a = ''-branch'' then log_on LOG_BRANCH g
      else if a = ''-dead'' then log_on LOG_DEAD g
      else if a = ''-csv'' then csv_option fopen_w g
      else add_error g)"

text \<open>The loop over \<open>argv\<close>, on what is left of it; \<open>argv[++i]\<close> may be the NULL at the end.\<close>

fun sim_options :: "(string \<Rightarrow> bool) \<Rightarrow> string list \<Rightarrow> sim_args \<Rightarrow> sim_args res" where
  "sim_options fopen_w [] g = Inr g"
| "sim_options fopen_w (a # as) g =
     (if a = ''-seed'' then
        (case as of [] \<Rightarrow> Inl Null_Deref | b # bs \<Rightarrow> sim_options fopen_w bs (seed_option b g))
      else if a = ''-procs'' then
        (case as of [] \<Rightarrow> Inl Null_Deref | b # bs \<Rightarrow> sim_options fopen_w bs (procs_option b g))
      else sim_options fopen_w as (plain_option fopen_w a g))"

text \<open>The seed, where none was given, comes from the clock: \<open>t1\<close>, \<open>t2\<close>, \<open>t3\<close> are the values of the three calls
  of \<open>time(NULL)\<close>.\<close>

definition default_seed :: "int \<Rightarrow> int \<Rightarrow> int \<Rightarrow> int" where
  "default_seed t1 t2 t3 = (t1 * 38491 + 71831 + t2 * t3) AND (2 ^ 30 - 1)"

text \<open>\<open>main\<close>: the exit status after a usage message, or the simulation.\<close>

datatype 'r sim_run = Usage int | Simulated 'r

definition sim_main ::
  "(string \<Rightarrow> bool) \<Rightarrow> int \<times> int \<times> int \<Rightarrow> 'm pager \<Rightarrow> 'm \<Rightarrow> nat \<Rightarrow> string list \<Rightarrow> ('m \<times> sim) sim_run res" where
  "sim_main fopen_w clock pageit m n argv =
     bindR (sim_options fopen_w (tl argv) sim_args_static) (\<lambda>g.
     if g_errors g > 0 \<or> g_help g > 0 then Inr (Usage (if g_errors g > 0 then 1 else 0))
     else
       let seed = (if g_seed g = 0 then (case clock of (t1, t2, t3) \<Rightarrow> default_seed t1 t2 t3) else g_seed g) in
       bindR (simulate pageit m (nat (g_procs g)) seed n) (\<lambda>r. Inr (Simulated r)))"

subsection \<open>What the options come to\<close>

text \<open>An option whose value is missing at the end.\<close>

fun value_missing :: "string list \<Rightarrow> bool" where
  "value_missing [] = False"
| "value_missing (a # as) =
     (if a = ''-seed'' \<or> a = ''-procs'' then (case as of [] \<Rightarrow> True | b # bs \<Rightarrow> value_missing bs)
      else value_missing as)"

text \<open>While no error is counted, the seed and the number of processes are in range.\<close>

definition args_ok :: "sim_args \<Rightarrow> bool" where
  "args_ok g \<longleftrightarrow> g_errors g = 0 \<longrightarrow> 0 \<le> g_seed g \<and> g_seed g < 2 ^ 30 \<and> 1 \<le> g_procs g \<and> g_procs g \<le> int MAXPROCESSES"

lemma args_ok_static [simp]: "args_ok sim_args_static"
  by (simp add: args_ok_def sim_args_static_def)

lemma args_ok_options [simp]:
  "args_ok g \<Longrightarrow> args_ok (seed_option a g)"
  "args_ok g \<Longrightarrow> args_ok (procs_option a g)"
  by (auto simp: args_ok_def add_error_def seed_option_def procs_option_def Let_def split: option.splits)

lemma plain_option_args: "g_errors (plain_option fopen_w a g) = 0 \<Longrightarrow>
    g_errors g = 0 \<and> g_seed (plain_option fopen_w a g) = g_seed g \<and> g_procs (plain_option fopen_w a g) = g_procs g"
  unfolding plain_option_def log_on_def add_error_def csv_option_def Let_def
  by (simp split: if_splits)

lemma args_ok_plain [simp]: "args_ok g \<Longrightarrow> args_ok (plain_option fopen_w a g)"
  unfolding args_ok_def using plain_option_args [of fopen_w a g] by metis

lemma sim_options_ok:
  "args_ok g \<Longrightarrow>
    (if value_missing as then sim_options fopen_w as g = Inl Null_Deref else okR (sim_options fopen_w as g) args_ok)"
proof (induction fopen_w as g rule: sim_options.induct)
  case (2 fopen_w a as g)
  show ?case
  proof (cases "a = ''-seed'' \<or> a = ''-procs''")
    case True
    then show ?thesis using 2 by (cases as) auto
  next
    case False
    then show ?thesis using 2 by simp
  qed
qed simp

lemma default_seed_mod: "default_seed t1 t2 t3 = (t1 * 38491 + 71831 + t2 * t3) mod 2 ^ 30"
  using take_bit_eq_mask [of 30 "t1 * 38491 + 71831 + t2 * t3"]
  by (simp add: default_seed_def take_bit_eq_mod mask_eq_exp_minus_1)


text \<open>Options as \<open>main\<close> accepts them, and the request for help.\<close>

definition seed_given :: "string \<Rightarrow> bool" where
  "seed_given a = (case scan_ld a of None \<Rightarrow> False | Some v \<Rightarrow> 1 \<le> v \<and> v < 2 ^ 30)"

definition procs_given :: "string \<Rightarrow> bool" where
  "procs_given a = (case scan_ld a of None \<Rightarrow> False | Some v \<Rightarrow> 1 \<le> v \<and> v \<le> int MAXPROCESSES)"

definition plain_clean :: "(string \<Rightarrow> bool) \<Rightarrow> string \<Rightarrow> bool" where
  "plain_clean fopen_w a \<longleftrightarrow> a \<in> {''-help'', ''-all'', ''-load'', ''-block'', ''-page'', ''-branch'', ''-dead''}
     \<or> a = ''-csv'' \<and> fopen_w ''output.csv'' \<and> fopen_w ''pages.csv''"

fun options_clean :: "(string \<Rightarrow> bool) \<Rightarrow> string list \<Rightarrow> bool" where
  "options_clean fopen_w [] = True"
| "options_clean fopen_w (a # as) =
     (if a = ''-seed'' then (case as of [] \<Rightarrow> False | b # bs \<Rightarrow> seed_given b \<and> options_clean fopen_w bs)
      else if a = ''-procs'' then (case as of [] \<Rightarrow> False | b # bs \<Rightarrow> procs_given b \<and> options_clean fopen_w bs)
      else plain_clean fopen_w a \<and> options_clean fopen_w as)"

fun asks_help :: "string list \<Rightarrow> bool" where
  "asks_help [] = False"
| "asks_help (a # as) =
     (if a = ''-seed'' \<or> a = ''-procs'' then (case as of [] \<Rightarrow> False | b # bs \<Rightarrow> asks_help bs)
      else a = ''-help'' \<or> asks_help as)"

lemma option_counts:
  "g_errors (seed_option a g) = 0 \<longleftrightarrow> g_errors g = 0 \<and> seed_given a" "g_help (seed_option a g) = g_help g"
  "g_errors (procs_option a g) = 0 \<longleftrightarrow> g_errors g = 0 \<and> procs_given a" "g_help (procs_option a g) = g_help g"
  by (auto simp: add_error_def seed_option_def procs_option_def seed_given_def procs_given_def Let_def
      split: option.splits)

lemma plain_option_counts:
  "g_errors (plain_option fopen_w a g) = 0 \<longleftrightarrow> g_errors g = 0 \<and> plain_clean fopen_w a"
  "g_help (plain_option fopen_w a g) = 0 \<longleftrightarrow> g_help g = 0 \<and> a \<noteq> ''-help''"
proof -
  have "(g_errors (plain_option fopen_w a g) = 0 \<longleftrightarrow> g_errors g = 0 \<and> plain_clean fopen_w a)
      \<and> (g_help (plain_option fopen_w a g) = 0 \<longleftrightarrow> g_help g = 0 \<and> a \<noteq> ''-help'')"
  proof (cases "a \<in> {''-help'', ''-all'', ''-load'', ''-block'', ''-page'', ''-branch'', ''-dead'', ''-csv''}")
    case True
    then show ?thesis
      by (elim insertE) (simp_all add: plain_option_def log_on_def add_error_def csv_option_def plain_clean_def Let_def)
  next
    case False
    then show ?thesis by (simp add: plain_option_def add_error_def plain_clean_def)
  qed
  then show "g_errors (plain_option fopen_w a g) = 0 \<longleftrightarrow> g_errors g = 0 \<and> plain_clean fopen_w a"
    and "g_help (plain_option fopen_w a g) = 0 \<longleftrightarrow> g_help g = 0 \<and> a \<noteq> ''-help''" by simp_all
qed

lemma sim_options_counts:
  "sim_options fopen_w as g = Inr g' \<Longrightarrow>
    (g_errors g' = 0 \<longleftrightarrow> g_errors g = 0 \<and> options_clean fopen_w as) \<and> (g_help g' = 0 \<longleftrightarrow> g_help g = 0 \<and> \<not> asks_help as)"
proof (induction fopen_w as g rule: sim_options.induct)
  case (2 fopen_w a as g)
  show ?case
  proof (cases "a = ''-seed'' \<or> a = ''-procs''")
    case True
    then show ?thesis
    proof (cases as)
      case Nil
      then show ?thesis using True "2.prems" by auto
    next
      case (Cons b bs)
      note IH = "2.IH"(1) [OF _ Cons] "2.IH"(2) [OF _ _ Cons]
      show ?thesis
      proof (cases "a = ''-seed''")
        case True
        then show ?thesis using IH(1) "2.prems" Cons by (simp add: option_counts)
      next
        case False
        then have "a = ''-procs''" using True by simp
        then show ?thesis using IH(2) "2.prems" Cons by (simp add: option_counts)
      qed
    qed
  next
    case False
    then show ?thesis using 2 by (simp add: plain_option_counts)
  qed
qed simp

subsection \<open>A simulation from its command line\<close>

context pager
begin

lemma sim_main_ok:
  assumes "ok m"
  shows "if value_missing (tl argv) then sim_main fopen_w clock pageit m n argv = Inl Null_Deref
    else if options_clean fopen_w (tl argv) \<and> \<not> asks_help (tl argv)
    then okR (sim_main fopen_w clock pageit m n argv) (\<lambda>r. \<exists>m s. r = Simulated (m, s)
        \<and> sim_inv s \<and> 1 \<le> s_procs s \<and> s_procs s \<le> MAXPROCESSES \<and> (alldone s \<longrightarrow> all_jobs_done s))
    else sim_main fopen_w clock pageit m n argv = Inr (Usage (if options_clean fopen_w (tl argv) then 0 else 1))"
proof (cases "value_missing (tl argv)")
  case True
  then show ?thesis using sim_options_ok [of sim_args_static "tl argv" fopen_w] by (simp add: sim_main_def)
next
  case False
  then obtain g where g: "sim_options fopen_w (tl argv) sim_args_static = Inr g" "args_ok g"
    using sim_options_ok [of sim_args_static "tl argv" fopen_w] by (auto simp: okR_iff)
  have c: "options_clean fopen_w (tl argv) \<longleftrightarrow> g_errors g = 0" "asks_help (tl argv) \<longleftrightarrow> g_help g \<noteq> 0"
    using sim_options_counts [OF g(1)] by (auto simp: sim_args_static_def)
  show ?thesis
  proof (cases "g_errors g = 0 \<and> g_help g = 0")
    case True
    then have p: "nat (g_procs g) \<le> MAXPROCESSES" "0 < nat (g_procs g)" using g(2) by (auto simp: args_ok_def)
    let ?seed = "if g_seed g = 0 then case clock of (t1, t2, t3) \<Rightarrow> default_seed t1 t2 t3 else g_seed g"
    obtain m' s where r: "simulate pageit m (nat (g_procs g)) ?seed n = Inr (m', s)" "run_inv s"
        "s_procs s = nat (g_procs g)"
      using simulate_inv [OF p(1) assms, of ?seed n] by (auto simp: okR_iff)
    have "sim_main fopen_w clock pageit m n argv = Inr (Simulated (m', s))"
      using True g(1) r(1) by (simp add: sim_main_def Let_def)
    then show ?thesis using False True r(2,3) p alldone_all_jobs [OF r(2)] by (simp add: c run_inv_def)
  next
    case wrong: False
    then show ?thesis using False g(1) by (auto simp: c sim_main_def)
  qed
qed

end

context qsort_lib
begin

lemmas predict_main_ok = predictive.sim_main_ok [OF wf_predict_static]

end

lemma scan_ld_decimal: "scan_ld (decimal n) = Some (clamp_long (int n))"
  using scan_number_decimal [of "[]" n] by (simp add: scan_ld_def strtol_def)

lemma options_decimal:
  "seed_given (decimal a) \<longleftrightarrow> 1 \<le> a \<and> a < 2 ^ 30"
  "procs_given (decimal a) \<longleftrightarrow> 1 \<le> a \<and> a \<le> MAXPROCESSES"
  by (auto simp: seed_given_def procs_given_def scan_ld_decimal clamp_long_def)

lemma option_values_decimal:
  "a < 2 ^ 62 \<Longrightarrow> g_seed (seed_option (decimal a) g) = int a" "g_procs (seed_option s g) = g_procs g"
  "a < 2 ^ 62 \<Longrightarrow> g_procs (procs_option (decimal a) g) = int a" "g_seed (procs_option s g) = g_seed g"
  by (auto simp: seed_option_def procs_option_def add_error_def scan_ld_decimal clamp_long_def Let_def split: option.splits)

lemma sim_main_decimal:
  "sim_main fopen_w clock pageit m n [prog, ''-seed'', decimal a, ''-procs'', decimal b] =
    (if 1 \<le> a \<and> a < 2 ^ 30 \<and> 1 \<le> b \<and> b \<le> MAXPROCESSES
     then bindR (simulate pageit m b (int a) n) (\<lambda>r. Inr (Simulated r)) else Inr (Usage 1))"
proof -
  let ?g = "procs_option (decimal b) (seed_option (decimal a) sim_args_static)"
  have o: "sim_options fopen_w [''-seed'', decimal a, ''-procs'', decimal b] sim_args_static = Inr ?g" by simp
  have e: "g_errors ?g = 0 \<longleftrightarrow> 1 \<le> a \<and> a < 2 ^ 30 \<and> 1 \<le> b \<and> b \<le> MAXPROCESSES" "g_help ?g = 0"
    by (auto simp: option_counts options_decimal) (simp_all add: sim_args_static_def)
  have "g_seed ?g = int a" "g_procs ?g = int b" if "1 \<le> a \<and> a < 2 ^ 30 \<and> 1 \<le> b \<and> b \<le> MAXPROCESSES"
    using that by (simp_all add: option_values_decimal)
  then show ?thesis using o e by (auto simp: sim_main_def Let_def)
qed

subsection \<open>The arguments of the resolver\<close>

text \<open>\<open>strtol\<close> with \<open>errno\<close> and \<open>endptr\<close>: the value, whether \<open>errno\<close> is set, and what is left of the string. It
  is left to the implementation whether \<open>errno\<close> is set where there is no number: \<open>einval\<close>.\<close>

definition strtol_end :: "bool \<Rightarrow> string \<Rightarrow> int \<times> bool \<times> string" where
  "strtol_end einval s =
     (case scan_number s of None \<Rightarrow> (0, einval, s) | Some (v, rest) \<Rightarrow> (clamp_long v, clamp_long v \<noteq> v, rest))"

abbreviation (input) MAX_REQUESTER_THREADS :: int where "MAX_REQUESTER_THREADS \<equiv> 10"
abbreviation (input) MAX_RESOLVER_THREADS :: int where "MAX_RESOLVER_THREADS \<equiv> 10"
abbreviation (input) MAX_INPUT_FILES :: int where "MAX_INPUT_FILES \<equiv> 100"
abbreviation (input) BASE_ARG_NUM :: nat where "BASE_ARG_NUM \<equiv> 6"
abbreviation (input) DATA_START_IDX :: nat where "DATA_START_IDX \<equiv> 5"

definition thread_count :: "bool \<Rightarrow> int \<Rightarrow> string \<Rightarrow> nat option" where
  "thread_count einval limit s =
     (let (v, errno, endptr) = strtol_end einval s in
      if errno \<or> endptr \<noteq> [] \<or> v > limit \<or> v < 0 then None else Some (nat v))"

text \<open>The files opened for writing, which truncates them, and those of them that are still open.\<close>

record logs =
  w_truncated :: "string list"
  w_open :: "string list"

definition no_logs :: logs where "no_logs = \<lparr>w_truncated = [], w_open = []\<rparr>"

definition open_log :: "string \<Rightarrow> logs \<Rightarrow> logs" where
  "open_log f w = w\<lparr>w_truncated := w_truncated w @ [f], w_open := w_open w @ [f]\<rparr>"

datatype lookup_setup =
    Manual
  | Bad_Requesters
  | Bad_Resolvers
  | Bad_Serviced
  | Bad_Results
  | Too_Many_Files int
  | Ready nat nat "string list"

definition lookup_arguments :: "bool \<Rightarrow> (string \<Rightarrow> bool) \<Rightarrow> string list \<Rightarrow> lookup_setup \<times> logs" where
  "lookup_arguments einval fopen_w argv =
     (if length argv < BASE_ARG_NUM then (Manual, no_logs)
      else case thread_count einval MAX_REQUESTER_THREADS (argv ! 1) of None \<Rightarrow> (Bad_Requesters, no_logs)
      | Some num_requesters \<Rightarrow>
     (case thread_count einval MAX_RESOLVER_THREADS (argv ! 2) of None \<Rightarrow> (Bad_Resolvers, no_logs)
      | Some num_resolvers \<Rightarrow>
      if \<not> fopen_w (argv ! 3) then (Bad_Serviced, no_logs)
      else let w = open_log (argv ! 3) no_logs in
      if \<not> fopen_w (argv ! 4) then (Bad_Results, w)
      else let w = open_log (argv ! 4) w; num_data_files = int (length argv) - (int DATA_START_IDX + 1) in
      if num_data_files > MAX_INPUT_FILES then (Too_Many_Files num_data_files, w\<lparr>w_open := []\<rparr>)
      else (Ready num_requesters num_resolvers (drop DATA_START_IDX argv), w)))"

text \<open>\<open>main\<close> up to the running threads. \<open>req i\<close> and \<open>res i\<close> say whether \<open>malloc\<close> succeeds for the \<open>i\<close>-th thread of
  the kind and what \<open>pthread_create\<close> returns; \<open>bufs i\<close> is what the \<open>i\<close>-th resolver finds in its buffer. Both
  arrays of pointers have \<open>num_requesters\<close> elements. The arrays \<open>q1\<close>, \<open>q2\<close> are as \<open>array_init\<close> leaves them.\<close>

datatype 'q lookup_run = Rejected lookup_setup | Spawn_Failed | Running "'q lookup"

definition lookup_main ::
  "bool \<Rightarrow> (string \<Rightarrow> bool) \<Rightarrow> (nat \<Rightarrow> bool) \<times> (nat \<Rightarrow> int) \<Rightarrow> (nat \<Rightarrow> bool) \<times> (nat \<Rightarrow> int) \<Rightarrow> (nat \<Rightarrow> string) \<Rightarrow>
     'q \<Rightarrow> 'q \<Rightarrow> string list \<Rightarrow> 'q lookup_run res" where
  "lookup_main einval fopen_w req res bufs q1 q2 argv =
     (case fst (lookup_arguments einval fopen_w argv) of
        Ready num_requesters num_resolvers files \<Rightarrow>
          bindR (spawn_threads (fst req) (snd req) (replicate num_requesters None) () num_requesters) (\<lambda>(r1, req_args).
          bindR (spawn_threads (fst res) (snd res) (replicate num_requesters None) () num_resolvers) (\<lambda>(r2, res_args).
          Inr (if r2 = -1 \<or> r1 = -1 then Spawn_Failed
               else Running (lookup_start q1 q2 files num_requesters (map bufs [0..<num_resolvers])))))
      | s \<Rightarrow> Inr (Rejected s))"

text \<open>What \<open>main\<close> returns once it has reached its clean-up with \<open>result\<close>.\<close>

definition lookup_exit :: "bool \<Rightarrow> bool \<Rightarrow> int \<Rightarrow> int" where
  "lookup_exit close_serviced close_results result =
     (let result = (if \<not> close_serviced then -1 else result) in if \<not> close_results then -1 else result)"

lemma thread_count_decimal:
  assumes "limit < 2 ^ 62" and "0 \<le> limit"
  shows "thread_count einval limit (decimal n) = (if int n \<le> limit then Some n else None)"
proof (cases "int n \<le> limit")
  case True
  then have "clamp_long (int n) = int n" using assms(1) by (simp add: clamp_long_def)
  then show ?thesis
    using True scan_number_decimal [of "[]" n] by (simp add: thread_count_def strtol_end_def)
next
  case False
  then have "limit < clamp_long (int n)" using assms(1) by (simp add: clamp_long_def)
  then show ?thesis
    using False scan_number_decimal [of "[]" n] by (simp add: thread_count_def strtol_end_def Let_def)
qed

lemma thread_count_empty: "thread_count einval limit [] = (if einval \<or> limit < 0 then None else Some 0)"
  by (simp add: thread_count_def strtol_end_def scan_number_def)

text \<open>Both checks of the counts, for a command line with data files.\<close>

lemma lookup_arguments_table:
  assumes "files \<noteq> []"
  shows "lookup_arguments einval fopen_w (prog # a1 # a2 # f1 # f2 # files) =
    (case thread_count einval 10 a1 of None \<Rightarrow> (Bad_Requesters, no_logs)
     | Some N \<Rightarrow> (case thread_count einval 10 a2 of None \<Rightarrow> (Bad_Resolvers, no_logs)
     | Some M \<Rightarrow>
        if \<not> fopen_w f1 then (Bad_Serviced, no_logs)
        else if \<not> fopen_w f2 then (Bad_Results, \<lparr>w_truncated = [f1], w_open = [f1]\<rparr>)
        else if 101 < length files then (Too_Many_Files (int (length files) - 1), \<lparr>w_truncated = [f1, f2], w_open = []\<rparr>)
        else (Ready N M files, \<lparr>w_truncated = [f1, f2], w_open = [f1, f2]\<rparr>)))"
proof -
  have "\<not> length (prog # a1 # a2 # f1 # f2 # files) < 6" using assms by (cases files) simp_all
  then show ?thesis
    by (simp add: lookup_arguments_def open_log_def no_logs_def Let_def split: option.split)
qed

lemma results_of_hosts:
  assumes "\<forall>(h, ip) \<in> set (l_results S). ip = dns_text gai h"
  shows "mset (l_results S) = image_mset (\<lambda>h. (h, dns_text gai h)) (mset (map fst (l_results S)))"
proof -
  have "map (\<lambda>h. (h, dns_text gai h)) (map fst (l_results S)) = l_results S"
    using assms by (auto intro!: map_idI)
  then show ?thesis by (metis mset_map)
qed

lemma image_mset_sum_list: "image_mset f (\<Sum>x\<leftarrow>xs. g x) = (\<Sum>x\<leftarrow>xs. image_mset f (g x))"
  by (induction xs) simp_all

lemma lookup_main_decimal:
  assumes "files \<noteq> []" and "fopen_w f1" and "fopen_w f2"
    and "\<forall>i. fst req i" and "\<forall>i. snd req i = 0" and "\<forall>i. fst res i" and "\<forall>i. snd res i = 0"
  shows "lookup_main einval fopen_w req res bufs q1 q2 (prog # decimal N # decimal M # f1 # f2 # files) =
    (if 10 < N then Inr (Rejected Bad_Requesters) else if 10 < M then Inr (Rejected Bad_Resolvers)
     else if 101 < length files then Inr (Rejected (Too_Many_Files (int (length files) - 1)))
     else if N < M then Inl Out_Of_Bounds
     else Inr (Running (lookup_start q1 q2 files N (map bufs [0..<M]))))"
proof -
  have req: "spawn_threads (fst req) (snd req) (replicate N None) () N = Inr (0, replicate N (Some ()))"
    using spawn_threads_fit [of N "fst req" "snd req" "replicate N None" "()"] assms(4,5) by simp
  have res: "\<exists>args. spawn_threads (fst res) (snd res) (replicate N None) () M = Inr (0, args)" if "M \<le> N"
    using spawn_threads_fit [of M "fst res" "snd res" "replicate N None" "()"] assms(6,7) that by simp
  have over: "spawn_threads (fst res) (snd res) (replicate N None) () M = Inl Out_Of_Bounds" if "N < M"
    using spawn_threads_overrun [of M "fst res" "snd res" "replicate N None" "()"] assms(6,7) that by simp
  show ?thesis
    using assms(2,3) req res over
    by (auto simp: lookup_main_def lookup_arguments_table [OF assms(1)] thread_count_decimal)
qed

subsection \<open>Properties\<close>

text \<open>C13: From any command line, \<open>main\<close> of the simulator follows a NULL pointer if the last option is a
  \<open>-seed\<close> or \<open>-procs\<close> without its value, prints the usage with status 1 or 0 if an option is wrong or help is asked
  for, and simulates otherwise, with \<open>pager-basic\<close> as with the predictive pager: no fault, the
  invariant of the frames, between 1 and 20 processes, and finished jobs if the loop ends.\<close>

theorem simulator_from_command_line:
  assumes "qsort_lib qs"
  shows "if value_missing (tl argv)
    then sim_main fopen_w clock basic_pageit () n argv = Inl Null_Deref
      \<and> sim_main fopen_w clock (predict_pageit qs) predict_static n argv = Inl Null_Deref
    else if options_clean fopen_w (tl argv) \<and> \<not> asks_help (tl argv)
    then okR (sim_main fopen_w clock basic_pageit () n argv) (\<lambda>r. \<exists>m s. r = Simulated (m, s)
        \<and> sim_inv s \<and> 1 \<le> s_procs s \<and> s_procs s \<le> MAXPROCESSES \<and> (alldone s \<longrightarrow> all_jobs_done s))
      \<and> okR (sim_main fopen_w clock (predict_pageit qs) predict_static n argv) (\<lambda>r. \<exists>m s. r = Simulated (m, s)
        \<and> sim_inv s \<and> 1 \<le> s_procs s \<and> s_procs s \<le> MAXPROCESSES \<and> (alldone s \<longrightarrow> all_jobs_done s))
    else sim_main fopen_w clock basic_pageit () n argv = Inr (Usage (if options_clean fopen_w (tl argv) then 0 else 1))
      \<and> sim_main fopen_w clock (predict_pageit qs) predict_static n argv
        = Inr (Usage (if options_clean fopen_w (tl argv) then 0 else 1))"
  using basic.sim_main_ok [OF TrueI, of argv fopen_w clock "()" n] qsort_lib.predict_main_ok [OF assms, of argv fopen_w clock n]
  by argo

theorem simulator_from_command_line_witness:
  "okR (sim_main (\<lambda>f. False) (0, 0, 0) basic_pageit () 1000 [''t4'', ''-dead'', ''-seed'', ''512'', ''-procs'', ''4''])
    (\<lambda>r. \<exists>m s. r = Simulated (m, s) \<and> sim_inv s)"
proof -
  let ?as = "[''-dead'', ''-seed'', ''512'', ''-procs'', ''4'']"
  have "\<not> value_missing ?as" "options_clean (\<lambda>f. False) ?as" "\<not> asks_help ?as" by code_simp+
  then show ?thesis
    using simulator_from_command_line [OF stable.qsort_lib_axioms, of "''t4'' # ?as" "\<lambda>f. False" "(0, 0, 0)" 1000]
    by (auto elim!: okR_mono)
qed

text \<open>C39: \<open>-seed\<close> and \<open>-procs\<close> read back the numbers they are given in decimal: the simulation runs from that
  seed with that many processes if they are in range, and otherwise the exit status is 1. Without
  options it runs 20 processes from a seed made of the clock, below \<open>2 ^ 30\<close>.\<close>

theorem simulator_options_round_trip:
  "sim_main fopen_w clock pageit m n [prog, ''-seed'', decimal a, ''-procs'', decimal b] =
    (if a \<in> {1..<2 ^ 30} \<and> b \<in> {1..MAXPROCESSES}
     then bindR (simulate pageit m b (int a) n) (\<lambda>r. Inr (Simulated r)) else Inr (Usage 1))
    \<and> sim_main fopen_w (t1, t2, t3) pageit m n [prog] =
      bindR (simulate pageit m 20 ((t1 * 38491 + 71831 + t2 * t3) mod 2 ^ 30) n) (\<lambda>r. Inr (Simulated r))"
  using sim_main_decimal [of fopen_w clock pageit m n prog a b]
  by (simp_all add: sim_main_def sim_args_static_def default_seed_mod Let_def)





end
