(* ===== verification/Interleave.thy ===== *)
theory Interleave
  imports Prelude
begin

text \<open>
  Threads that share a state. \<open>conc step\<close> lets one thread of a list take one step of the function
  \<open>step\<close>, which is \<open>None\<close> where the thread blocks or has ended. The locale \<open>finite_threads\<close> holds what
  follows when every step of a thread uses up some of a budget of its own: runs have bounded length
  and every run can be extended to one in which nothing moves any more.
\<close>

inductive conc :: "('l \<Rightarrow> 's \<Rightarrow> ('l \<times> 's) option) \<Rightarrow> 's \<times> 'l list \<Rightarrow> 's \<times> 'l list \<Rightarrow> bool" for step where
  conc_step: "t < length ls \<Longrightarrow> step (ls ! t) s = Some (l, s') \<Longrightarrow> conc step (s, ls) (s', ls[t := l])"

inductive_cases concE: "conc step (s, ls) c'"

definition idle :: "('l \<Rightarrow> 's \<Rightarrow> ('l \<times> 's) option) \<Rightarrow> 's \<times> 'l list \<Rightarrow> bool" where
  "idle step = (\<lambda>(s, ls). list_all (\<lambda>l. step l s = None) ls)"

lemma idle_iff: "idle step c \<longleftrightarrow> (\<nexists>c'. conc step c c')"
proof (cases c)
  case (Pair s ls)
  have "idle step (s, ls) \<longleftrightarrow> (\<forall>t < length ls. step (ls ! t) s = None)" by (simp add: idle_def list_all_length)
  also have "\<dots> \<longleftrightarrow> (\<nexists>c'. conc step (s, ls) c')"
    by (metis concE conc_step not_None_eq option.distinct(1) surj_pair)
  finally show ?thesis using Pair by simp
qed

lemma conc_steps_length: "(conc step)\<^sup>*\<^sup>* (s, ls) (s', ls') \<Longrightarrow> length ls' = length ls"
  by (induction rule: rtranclp_induct2) (auto elim!: concE)

lemma conc_one: "t < length ls \<Longrightarrow> step (ls ! t) s = Some (l, s') \<Longrightarrow> (conc step)\<^sup>*\<^sup>* (s, ls) (s', ls[t := l])"
  by (auto intro: conc_step)

text \<open>An invariant of every step holds in every state of a run.\<close>

lemma conc_invariant:
  assumes "(conc step)\<^sup>*\<^sup>* (s0, ls0) (s, ls)" and "P (s0, ls0)"
    and "\<And>s ls t l s'. P (s, ls) \<Longrightarrow> t < length ls \<Longrightarrow> step (ls ! t) s = Some (l, s') \<Longrightarrow> P (s', ls[t := l])"
  shows "P (s, ls)"
  using assms(1,2)
proof (induction rule: rtranclp_induct2)
  case (step s ls s' ls')
  then show ?case using assms(3) by (auto elim!: concE)
qed

text \<open>The sum of a measure over the threads when one of them moves.\<close>

lemma sum_list_update_nat:
  fixes f :: "'l \<Rightarrow> nat"
  assumes "t < length ls"
  shows "sum_list (map f (ls[t := l])) + f (ls ! t) = sum_list (map f ls) + f l"
  using assms
proof (induction ls arbitrary: t)
  case (Cons a ls)
  then show ?case by (cases t) auto
qed simp

lemma sum_list_member_nat:
  fixes f :: "'l \<Rightarrow> nat"
  assumes "t < length ls"
  shows "f (ls ! t) \<le> sum_list (map f ls)"
  using assms by (intro member_le_sum_list) simp_all

lemma sum_list_two_nat:
  fixes f :: "'l \<Rightarrow> nat"
  assumes "t < length ls" and "u < length ls" and "t \<noteq> u"
  shows "f (ls ! t) + f (ls ! u) \<le> sum_list (map f ls)"
  using assms
proof (induction ls arbitrary: t u)
  case (Cons a ls)
  then show ?case
    using sum_list_member_nat [of _ ls f] by (cases t; cases u) (auto intro: le_add_same_cancel1 [THEN iffD2] trans_le_add2)
qed simp

locale finite_threads =
  fixes step :: "'l \<Rightarrow> 's \<Rightarrow> ('l \<times> 's) option" and left :: "'l \<Rightarrow> nat"
  assumes step_left: "step l s = Some (l', s') \<Longrightarrow> left l' < left l"
begin

lemma conc_left:
  assumes "conc step (s, ls) (s', ls')"
  shows "sum_list (map left ls') < sum_list (map left ls)"
proof -
  obtain t l where t: "t < length ls" "step (ls ! t) s = Some (l, s')" "ls' = ls[t := l]"
    using assms by (auto elim!: concE)
  then show ?thesis using sum_list_update_nat [OF t(1), of left l] step_left [OF t(2)] by simp
qed

lemma run_bound:
  assumes "(conc step ^^ n) (s, ls) (s', ls')"
  shows "n + sum_list (map left ls') \<le> sum_list (map left ls)"
  using assms
proof (induction n arbitrary: s' ls')
  case (Suc n)
  then obtain s1 ls1 where "(conc step ^^ n) (s, ls) (s1, ls1)" "conc step (s1, ls1) (s', ls')" by auto
  then show ?case using Suc.IH [of s1 ls1] conc_left [of s1 ls1 s' ls'] by simp
qed simp

lemma run_to_idle: "\<exists>c'. (conc step)\<^sup>*\<^sup>* c c' \<and> idle step c'"
proof (induction "sum_list (map left (snd c))" arbitrary: c rule: less_induct)
  case less
  show ?case
  proof (cases "idle step c")
    case False
    then obtain c1 where c1: "conc step c c1" by (auto simp: idle_iff)
    then have "sum_list (map left (snd c1)) < sum_list (map left (snd c))"
      using conc_left by (cases c; cases c1) auto
    then show ?thesis using less c1 by (meson converse_rtranclp_into_rtranclp)
  qed blast
qed

end

end
