(* ===== verification/Thread_Counter.thy ===== *)
theory Thread_Counter
  imports Interleave
begin

text \<open>
  Parts 1 and 2 of \<open>recitation/threads/thread_test.c\<close>: threads that each add 1 to \<open>counter\<close> \<open>ITERATIONS\<close>
  times, without (\<open>inc_no_lock\<close>) and with (\<open>inc_with_lock\<close>) the mutex \<open>g_lock\<close>. A thread is its place in
  the code with its local variables; loads and stores of \<open>counter\<close> are single steps. \<open>sched_yield\<close> and
  \<open>busy_spin\<close> change no variable of the program, they only make other threads likelier to run in between.
\<close>

abbreviation (input) THREADS :: nat where "THREADS \<equiv> 8"
abbreviation (input) ITERATIONS :: nat where "ITERATIONS \<equiv> 100000"

subsection \<open>Without a lock\<close>

text \<open>At the test of the loop with \<open>i\<close>; before the store, with \<open>i\<close> and \<open>tmp\<close>; returned.\<close>

datatype inc_loc = Inc_Test nat | Inc_Store nat int | Inc_Done

fun inc_no_lock :: "nat \<Rightarrow> inc_loc \<Rightarrow> int \<Rightarrow> (inc_loc \<times> int) option" where
  "inc_no_lock iters (Inc_Test i) counter =
     Some (if i < iters then (Inc_Store i (counter + 1), counter) else (Inc_Done, counter))"
| "inc_no_lock iters (Inc_Store i tmp) counter = Some (Inc_Test (Suc i), tmp)"
| "inc_no_lock iters Inc_Done counter = None"

text \<open>Part 1 of \<open>main\<close>: the counter that is printed once all threads are joined.\<close>

definition race_result :: "nat \<Rightarrow> nat \<Rightarrow> int \<Rightarrow> bool" where
  "race_result threads iters c \<longleftrightarrow>
     (conc (inc_no_lock iters))\<^sup>*\<^sup>* (0, replicate threads (Inc_Test 0)) (c, replicate threads Inc_Done)"

subsection \<open>With the mutex\<close>

datatype lock_loc = Lk_Test nat | Lk_Lock nat | Lk_Load nat | Lk_Store nat int | Lk_Unlock nat | Lk_Done

text \<open>The shared state: whether \<open>g_lock\<close> is held, and \<open>counter\<close>.\<close>

fun inc_with_lock :: "nat \<Rightarrow> lock_loc \<Rightarrow> bool \<times> int \<Rightarrow> (lock_loc \<times> bool \<times> int) option" where
  "inc_with_lock iters (Lk_Test i) s = Some (if i < iters then Lk_Lock i else Lk_Done, s)"
| "inc_with_lock iters (Lk_Lock i) (held, c) = (if held then None else Some (Lk_Load i, True, c))"
| "inc_with_lock iters (Lk_Load i) (held, c) = Some (Lk_Store i (c + 1), held, c)"
| "inc_with_lock iters (Lk_Store i v) (held, c) = Some (Lk_Unlock i, held, v)"
| "inc_with_lock iters (Lk_Unlock i) (held, c) = Some (Lk_Test (Suc i), False, c)"
| "inc_with_lock iters Lk_Done s = None"

subsection \<open>Both programs end\<close>

fun inc_left :: "nat \<Rightarrow> inc_loc \<Rightarrow> nat" where
  "inc_left iters (Inc_Test i) = 2 * (iters - i) + 1"
| "inc_left iters (Inc_Store i v) = 2 * (iters - Suc i) + 2"
| "inc_left iters Inc_Done = 0"

fun lock_left :: "nat \<Rightarrow> lock_loc \<Rightarrow> nat" where
  "lock_left iters (Lk_Test i) = 5 * (iters - i) + 1"
| "lock_left iters (Lk_Lock i) = 5 * (iters - Suc i) + 5"
| "lock_left iters (Lk_Load i) = 5 * (iters - Suc i) + 4"
| "lock_left iters (Lk_Store i v) = 5 * (iters - Suc i) + 3"
| "lock_left iters (Lk_Unlock i) = 5 * (iters - Suc i) + 2"
| "lock_left iters Lk_Done = 0"

interpretation race: finite_threads "inc_no_lock iters" "inc_left iters"
proof
  show "inc_no_lock iters l s = Some (l', s') \<Longrightarrow> inc_left iters l' < inc_left iters l" for l s l' s'
    by (cases l) (auto split: if_splits)
qed

interpretation locked: finite_threads "inc_with_lock iters" "lock_left iters"
proof
  show "inc_with_lock iters l s = Some (l', s') \<Longrightarrow> lock_left iters l' < lock_left iters l" for l s l' s'
    by (cases l; cases s) (auto split: if_splits)
qed

subsection \<open>What the race can lose\<close>

text \<open>The additions a thread has stored.\<close>

fun stored :: "inc_loc \<Rightarrow> nat \<Rightarrow> nat" where
  "stored (Inc_Test i) iters = i"
| "stored (Inc_Store i v) iters = i"
| "stored Inc_Done iters = iters"

fun will_store :: "nat \<Rightarrow> inc_loc \<Rightarrow> bool" where
  "will_store iters (Inc_Test i) = (i < iters)"
| "will_store iters (Inc_Store i v) = True"
| "will_store iters Inc_Done = False"

fun race_ok :: "nat \<Rightarrow> nat \<Rightarrow> int \<Rightarrow> inc_loc \<Rightarrow> bool" where
  "race_ok iters n c (Inc_Test i) \<longleftrightarrow> i \<le> iters \<and> (1 \<le> i \<longrightarrow> 1 \<le> c)"
| "race_ok iters n c (Inc_Store i v) \<longleftrightarrow> i < iters \<and> (1 \<le> i \<longrightarrow> 1 \<le> c \<and> 2 \<le> v) \<and> 1 \<le> v \<and> v \<le> int n + 1"
| "race_ok iters n c Inc_Done \<longleftrightarrow> 1 \<le> iters \<longrightarrow> 1 \<le> c"

abbreviation (input) total :: "nat \<Rightarrow> inc_loc list \<Rightarrow> nat" where
  "total iters ls \<equiv> sum_list (map (\<lambda>l. stored l iters) ls)"

definition race_inv :: "nat \<Rightarrow> int \<times> inc_loc list \<Rightarrow> bool" where
  "race_inv iters = (\<lambda>(c, ls). 0 \<le> c \<and> c \<le> int (total iters ls) \<and> list_all (race_ok iters (total iters ls) c) ls
     \<and> (min 2 (int iters) \<le> c \<or> (\<exists>l \<in> set ls. will_store iters l)))"

lemma race_ok_mono: "race_ok iters n c l \<Longrightarrow> n \<le> n' \<Longrightarrow> c' = c \<or> 1 \<le> c' \<Longrightarrow> race_ok iters n' c' l"
  by (cases l) auto

lemma race_inv_start: "0 < threads \<Longrightarrow> race_inv iters (0, replicate threads (Inc_Test 0))"
  by (cases iters) (simp_all add: race_inv_def)

text \<open>A thread that will still store keeps the last clause true; otherwise its last store did.\<close>

lemma ex_update: "t < length ls \<Longrightarrow> (\<exists>l \<in> set ls. P l) \<Longrightarrow> P (ls ! t) \<longrightarrow> P l' \<Longrightarrow> \<exists>l \<in> set (ls[t := l']). P l"
  by (metis in_set_conv_nth length_list_update nth_list_update_eq nth_list_update_neq)

lemma race_inv_step:
  assumes "race_inv iters (c, ls)" and t: "t < length ls" and step: "inc_no_lock iters (ls ! t) c = Some (l, c')"
  shows "race_inv iters (c', ls[t := l])"
proof -
  note sum = sum_list_update_nat [OF t, of "\<lambda>l. stored l iters" l]
  have old: "0 \<le> c" "c \<le> int (total iters ls)" "list_all (race_ok iters (total iters ls) c) ls"
      "min 2 (int iters) \<le> c \<or> (\<exists>k \<in> set ls. will_store iters k)"
    using assms(1) by (simp_all add: race_inv_def)
  have mine: "race_ok iters (total iters ls) c (ls ! t)" using old(3) t by (rule list_all_nth)
  have grow: "total iters ls \<le> total iters (ls[t := l])" and bounds: "0 \<le> c'" "c' \<le> int (total iters (ls[t := l]))"
      "c' = c \<or> 1 \<le> c'"
    using sum step mine old(1,2) by (cases "ls ! t"; auto split: if_splits)+
  have new: "race_ok iters (total iters (ls[t := l])) c' l"
    using step mine grow old(1,2) by (cases "ls ! t"; auto split: if_splits)
  have "list_all (race_ok iters (total iters (ls[t := l])) c') ls"
    using old(3) grow bounds(3) by (auto simp: list_all_iff intro: race_ok_mono)
  then have all: "list_all (race_ok iters (total iters (ls[t := l])) c') (ls[t := l])" using new by (rule list_all_update)
  have "min 2 (int iters) \<le> c' \<or> (\<exists>k \<in> set (ls[t := l]). will_store iters k)"
  proof (cases "will_store iters l \<or> (\<exists>i v. ls ! t = Inc_Store i v)")
    case True
    moreover have "l \<in> set (ls[t := l])" using t by (rule set_update_memI)
    moreover have "will_store iters l \<or> min 2 (int iters) \<le> c'" if "ls ! t = Inc_Store i v" for i v
      using that step mine by (cases "Suc i < iters") auto
    ultimately show ?thesis by blast
  next
    case False
    then have "c' = c" "\<not> will_store iters (ls ! t)" using step by (cases "ls ! t"; auto split: if_splits)+
    then show ?thesis using old(4) ex_update [OF t, of "will_store iters" l] by auto
  qed
  then show ?thesis using bounds all by (simp add: race_inv_def)
qed

lemma race_bounds:
  assumes "race_result threads iters c" and "0 < threads"
  shows "min 2 (int iters) \<le> c \<and> c \<le> int (threads * iters)"
proof -
  have "race_inv iters (c, replicate threads Inc_Done)"
    by (rule conc_invariant [where P = "race_inv iters", OF assms(1) [unfolded race_result_def] race_inv_start [OF assms(2)]]) (rule race_inv_step)
  then show ?thesis using assms(2) by (auto simp: race_inv_def sum_list_replicate)
qed

subsection \<open>How the race reaches every value in between\<close>

abbreviation (input) race_run :: "nat \<Rightarrow> int \<times> inc_loc list \<Rightarrow> int \<times> inc_loc list \<Rightarrow> bool" where
  "race_run iters \<equiv> (conc (inc_no_lock iters))\<^sup>*\<^sup>*"

text \<open>A thread that runs alone adds one for each turn.\<close>

lemma race_advance:
  assumes "i + m \<le> iters"
  shows "race_run iters (c, pre @ Inc_Test i # suf) (c + int m, pre @ Inc_Test (i + m) # suf)"
  using assms
proof (induction m)
  case (Suc m)
  let ?t = "length pre" and ?c = "c + int m"
  have "race_run iters (?c, pre @ Inc_Test (i + m) # suf) (?c, pre @ Inc_Store (i + m) (?c + 1) # suf)"
    using conc_one [of ?t "pre @ Inc_Test (i + m) # suf" "inc_no_lock iters"] Suc.prems by simp
  moreover have "race_run iters (?c, pre @ Inc_Store (i + m) (?c + 1) # suf) (?c + 1, pre @ Inc_Test (Suc (i + m)) # suf)"
    using conc_one [of ?t "pre @ Inc_Store (i + m) (?c + 1) # suf" "inc_no_lock iters"] by simp
  ultimately show ?case using Suc by (simp add: algebra_simps)
qed simp

lemma race_finish:
  assumes "i \<le> iters"
  shows "race_run iters (c, pre @ Inc_Test i # suf) (c + int (iters - i), pre @ Inc_Done # suf)"
proof -
  have "race_run iters (c', pre @ Inc_Test iters # suf) (c', pre @ Inc_Done # suf)" for c'
    using conc_one [of "length pre" "pre @ Inc_Test iters # suf" "inc_no_lock iters"] by simp
  then show ?thesis using race_advance [of i "iters - i" iters c pre suf] assms by (simp add: rtranclp_trans)
qed

lemma race_advance_all:
  assumes "\<forall>j \<in> set js. j \<le> iters"
  shows "race_run iters (c, pre @ map Inc_Test (replicate (length js) 0)) (c + int (sum_list js), pre @ map Inc_Test js)"
  using assms
proof (induction js arbitrary: c pre)
  case (Cons j js)
  have "race_run iters (c, pre @ Inc_Test 0 # map Inc_Test (replicate (length js) 0))
      (c + int j, pre @ Inc_Test j # map Inc_Test (replicate (length js) 0))"
    using race_advance [of 0 j iters c pre] Cons.prems by simp
  moreover have "race_run iters (c + int j, (pre @ [Inc_Test j]) @ map Inc_Test (replicate (length js) 0))
      (c + int j + int (sum_list js), (pre @ [Inc_Test j]) @ map Inc_Test js)"
    using Cons.prems by (intro Cons.IH) simp
  ultimately show ?case by (simp add: algebra_simps)
qed simp

lemma race_finish_all:
  assumes "\<forall>i \<in> set is. i \<le> iters"
  shows "race_run iters (c, pre @ map Inc_Test is)
    (c + int (length is * iters - sum_list is), pre @ replicate (length is) Inc_Done)"
  using assms
proof (induction "is" arbitrary: c pre)
  case (Cons i "is")
  have le: "sum_list is \<le> length is * iters"
    using sum_list_mono [of "is" "\<lambda>i. i" "\<lambda>_. iters"] Cons.prems by (simp add: sum_list_triv)
  have "race_run iters (c, pre @ Inc_Test i # map Inc_Test is) (c + int (iters - i), pre @ Inc_Done # map Inc_Test is)"
    using race_finish Cons.prems by simp
  moreover have "race_run iters (c + int (iters - i), (pre @ [Inc_Done]) @ map Inc_Test is)
      (c + int (iters - i) + int (length is * iters - sum_list is), (pre @ [Inc_Done]) @ replicate (length is) Inc_Done)"
    using Cons.prems by (intro Cons.IH) simp
  ultimately show ?case using le Cons.prems by (simp add: of_nat_diff algebra_simps)
qed simp

lemma spread: "l \<le> n * k \<Longrightarrow> \<exists>js. length js = n \<and> sum_list js = l \<and> (\<forall>j \<in> set js. j \<le> (k::nat))"
proof (induction n arbitrary: l)
  case (Suc n)
  have "l - min l k \<le> n * k" using Suc.prems by simp
  then obtain js where "length js = n" "sum_list js = l - min l k" "\<forall>j \<in> set js. j \<le> k" using Suc.IH by blast
  then show ?case by (intro exI [of _ "min l k # js"]) simp
qed simp

text \<open>One thread loads 0 and stores 1 after the others have made \<open>l\<close> turns: \<open>l\<close> additions are lost.\<close>

lemma race_one_hold:
  assumes "0 < iters" and "l \<le> n * iters"
  shows "race_result (Suc n) iters (int (Suc n * iters - l))"
proof -
  obtain js where js: "length js = n" "sum_list js = l" "\<forall>j \<in> set js. j \<le> iters" using spread [OF assms(2)] by blast
  have "race_run iters (0, replicate (Suc n) (Inc_Test 0)) (0, Inc_Store 0 1 # map Inc_Test (replicate n 0))"
    using conc_one [of 0 "replicate (Suc n) (Inc_Test 0)" "inc_no_lock iters" 0] assms(1) by simp
  also have "race_run iters (0, Inc_Store 0 1 # map Inc_Test (replicate n 0)) (int l, Inc_Store 0 1 # map Inc_Test js)"
    using race_advance_all [OF js(3), of 0 "[Inc_Store 0 1]"] js by simp
  also have "race_run iters (int l, Inc_Store 0 1 # map Inc_Test js) (1, map Inc_Test (1 # js))"
    using conc_one [of 0 "Inc_Store 0 1 # map Inc_Test js" "inc_no_lock iters" "int l"] by simp
  also have "race_run iters (1, map Inc_Test (1 # js)) (1 + int (Suc n * iters - Suc l), replicate (Suc n) Inc_Done)"
    using race_finish_all [of "1 # js" iters 1 "[]"] js assms(1) by simp
  finally show ?thesis using assms by (simp add: race_result_def Suc_diff_Suc of_nat_diff algebra_simps)
qed

text \<open>A second thread loads \<open>m + 1\<close> for its last turn while the first one finishes: only \<open>m + 2\<close> is left.\<close>

lemma race_two_holds:
  assumes "m + 1 < iters \<or> m + 1 = iters \<and> 2 \<le> iters"
  shows "race_result (Suc (Suc n)) iters (int m + 2)"
proof -
  let ?k = "iters - 1" and ?r = "map Inc_Test (replicate n iters)"
  have k: "1 \<le> ?k" "m \<le> ?k" "Suc ?k = iters" using assms by auto
  have "race_run iters (0, replicate (Suc (Suc n)) (Inc_Test 0)) (0, Inc_Store 0 1 # map Inc_Test (replicate (Suc n) 0))"
    using conc_one [of 0 "replicate (Suc (Suc n)) (Inc_Test 0)" "inc_no_lock iters" 0] k by simp
  also have "race_run iters \<dots> (int (?k + n * iters), Inc_Store 0 1 # Inc_Test ?k # ?r)"
    using race_advance_all [of "?k # replicate n iters" iters 0 "[Inc_Store 0 1]"] by (simp add: sum_list_replicate)
  also have "race_run iters \<dots> (1, Inc_Test 1 # Inc_Test ?k # ?r)"
    using conc_one [of 0 "Inc_Store 0 1 # Inc_Test ?k # ?r" "inc_no_lock iters"] by simp
  also have "race_run iters \<dots> (1 + int m, Inc_Test (1 + m) # Inc_Test ?k # ?r)"
    using race_advance [of 1 m iters 1 "[]" "Inc_Test ?k # ?r"] k by simp
  also have "race_run iters \<dots> (1 + int m, Inc_Test (1 + m) # Inc_Store ?k (int m + 2) # ?r)"
    using conc_one [of 1 "Inc_Test (1 + m) # Inc_Test ?k # ?r" "inc_no_lock iters" "1 + int m"] k by (simp add: add.commute)
  also have "race_run iters \<dots> (1 + int m + int (iters - (1 + m)), Inc_Done # Inc_Store ?k (int m + 2) # ?r)"
    using race_finish [of "1 + m" iters "1 + int m" "[]"] k by simp
  also have "race_run iters \<dots> (int m + 2, Inc_Done # map Inc_Test (replicate (Suc n) iters))"
    using conc_one [of 1 "Inc_Done # Inc_Store ?k (int m + 2) # ?r" "inc_no_lock iters"] k by simp
  also have "race_run iters \<dots> (int m + 2, replicate (Suc (Suc n)) Inc_Done)"
    using race_finish_all [of "replicate (Suc n) iters" iters "int m + 2" "[Inc_Done]"] by (simp add: sum_list_replicate)
  finally show ?thesis by (simp add: race_result_def)
qed

subsection \<open>Mutual exclusion\<close>

fun in_lock :: "lock_loc \<Rightarrow> nat" where
  "in_lock (Lk_Load i) = 1" | "in_lock (Lk_Store i v) = 1" | "in_lock (Lk_Unlock i) = 1" | "in_lock l = 0"

fun added :: "nat \<Rightarrow> lock_loc \<Rightarrow> nat" where
  "added iters (Lk_Test i) = i" | "added iters (Lk_Lock i) = i" | "added iters (Lk_Load i) = i"
| "added iters (Lk_Store i v) = i" | "added iters (Lk_Unlock i) = Suc i" | "added iters Lk_Done = iters"

fun lock_ok :: "nat \<Rightarrow> int \<Rightarrow> lock_loc \<Rightarrow> bool" where
  "lock_ok iters c (Lk_Test i) = (i \<le> iters)" | "lock_ok iters c (Lk_Lock i) = (i < iters)"
| "lock_ok iters c (Lk_Load i) = (i < iters)" | "lock_ok iters c (Lk_Store i v) = (i < iters \<and> v = c + 1)"
| "lock_ok iters c (Lk_Unlock i) = (i < iters)" | "lock_ok iters c Lk_Done = True"

definition lock_inv :: "nat \<Rightarrow> (bool \<times> int) \<times> lock_loc list \<Rightarrow> bool" where
  "lock_inv iters = (\<lambda>((held, c), ls). sum_list (map in_lock ls) = (if held then 1 else 0)
     \<and> c = int (sum_list (map (added iters) ls)) \<and> list_all (lock_ok iters c) ls)"

lemma lock_inv_start: "lock_inv iters ((False, 0), replicate threads (Lk_Test 0))"
  by (simp add: lock_inv_def sum_list_replicate)

lemma lock_inv_step:
  assumes "lock_inv iters (s, ls)" and t: "t < length ls" and step: "inc_with_lock iters (ls ! t) s = Some (l, s')"
  shows "lock_inv iters (s', ls[t := l])"
proof -
  obtain held c held' c' where s: "s = (held, c)" "s' = (held', c')" by (cases s; cases s')
  note inside = sum_list_update_nat [OF t, of in_lock l] and adds = sum_list_update_nat [OF t, of "added iters" l]
  have old: "sum_list (map in_lock ls) = (if held then 1 else 0)" "c = int (sum_list (map (added iters) ls))"
    and each: "list_all (lock_ok iters c) ls" using assms(1) unfolding s lock_inv_def prod.case by blast+
  have mine: "lock_ok iters c (ls ! t)" using each t by (rule list_all_nth)
  have le: "in_lock (ls ! t) \<le> (if held then 1 else 0)" using sum_list_member_nat [OF t, of in_lock] old(1) by simp
  have same: "c' = c \<or> in_lock (ls ! t) = 1" and new: "lock_ok iters c' l"
    and sums: "sum_list (map in_lock (ls[t := l])) = (if held' then 1 else 0)" "c' = int (sum_list (map (added iters) (ls[t := l])))"
    using step mine inside adds old le s by (cases "ls ! t"; auto split: if_splits)+
  have "lock_ok iters c' (ls[t := l] ! u)" if u: "u < length ls" for u
  proof (cases "u = t \<or> c' = c")
    case True
    then show ?thesis using new each t u by (auto simp: nth_list_update list_all_length)
  next
    case False
    then have "in_lock (ls ! u) = 0"
      using sum_list_two_nat [OF t u, of in_lock] same old(1) by (auto split: if_splits)
    then show ?thesis using False list_all_nth [OF each u] by (cases "ls ! u") auto
  qed
  then show ?thesis using sums s by (simp add: lock_inv_def list_all_length)
qed

lemma locked_run_inv:
  "(conc (inc_with_lock iters))\<^sup>*\<^sup>* ((False, 0), replicate threads (Lk_Test 0)) (s, ls) \<Longrightarrow> lock_inv iters (s, ls)"
  by (erule conc_invariant [where P = "lock_inv iters", OF _ lock_inv_start]) (rule lock_inv_step)

text \<open>No deadlock: when no thread can move, none holds the mutex, so none waits for it.\<close>

lemma locked_idle:
  assumes "lock_inv iters ((held, c), ls)" and "idle (inc_with_lock iters) ((held, c), ls)"
  shows "ls = replicate (length ls) Lk_Done"
proof -
  have one: "sum_list (map in_lock ls) = (if held then 1 else 0)" using assms(1) unfolding lock_inv_def by blast
  have stuck: "l \<in> set ls \<Longrightarrow> inc_with_lock iters l (held, c) = None" for l using assms(2) by (simp add: idle_def list_all_iff)
  then have "in_lock l = 0" if "l \<in> set ls" for l using that by (cases l) fastforce+
  then have "map in_lock ls = map (\<lambda>_. 0) ls" by simp
  then have "sum_list (map in_lock ls) = 0" by (simp only: sum_list_0)
  then have "\<not> held" using one by (simp split: if_splits)
  then have "l = Lk_Done" if "l \<in> set ls" for l using stuck [OF that] by (cases l) auto
  then show ?thesis by (simp add: replicate_length_same [symmetric])
qed

lemma locked_final:
  assumes "(conc (inc_with_lock iters))\<^sup>*\<^sup>* ((False, 0), replicate threads (Lk_Test 0)) ((held, c), ls)"
    and "idle (inc_with_lock iters) ((held, c), ls)"
  shows "ls = replicate threads Lk_Done \<and> c = int (threads * iters)"
proof -
  have "ls = replicate threads Lk_Done"
    using locked_idle [OF locked_run_inv [OF assms(1)] assms(2)] conc_steps_length [OF assms(1)] by simp
  then show ?thesis using locked_run_inv [OF assms(1)] by (simp add: lock_inv_def sum_list_replicate)
qed

lemma locked_finishes:
  assumes "(conc (inc_with_lock iters))\<^sup>*\<^sup>* ((False, 0), replicate threads (Lk_Test 0)) c"
  shows "\<exists>held. (conc (inc_with_lock iters))\<^sup>*\<^sup>* c ((held, int (threads * iters)), replicate threads Lk_Done)"
proof -
  obtain held v ls where "(conc (inc_with_lock iters))\<^sup>*\<^sup>* c ((held, v), ls)" "idle (inc_with_lock iters) ((held, v), ls)"
    using locked.run_to_idle [of iters c] by auto
  then show ?thesis using locked_final [OF rtranclp_trans [OF assms]] by blast
qed

subsection \<open>Properties\<close>

text \<open>C18: What Part 1 prints: with at least two threads the unprotected counter can end at exactly
  the values from 2 (from \<open>ITERATIONS\<close>, if that is less) to \<open>THREADS * ITERATIONS\<close>, and at no other.
  As few as two of the 800000 additions can survive.\<close>

theorem race_results:
  assumes "2 \<le> threads"
  shows "race_result threads iters c \<longleftrightarrow> min 2 (int iters) \<le> c \<and> c \<le> int (threads * iters)"
proof
  show "race_result threads iters c \<Longrightarrow> min 2 (int iters) \<le> c \<and> c \<le> int (threads * iters)"
    using race_bounds assms by simp
  assume c: "min 2 (int iters) \<le> c \<and> c \<le> int (threads * iters)"
  obtain n where n: "threads = Suc (Suc n)" using assms by (metis Suc_le_D numeral_2_eq_2 Suc_le_mono)
  consider "iters = 0" | "0 < iters" "int iters \<le> c" | "2 \<le> iters" "2 \<le> c" "c < int iters" using c by linarith
  then show "race_result threads iters c"
  proof cases
    case 1
    moreover from this have "c = 0" using c by simp
    ultimately show ?thesis using race_finish_all [of "replicate threads 0" iters 0 "[]"] by (simp add: race_result_def)
  next
    case 2
    have "threads * iters - nat c \<le> Suc n * iters" using 2 n by simp
    from race_one_hold [OF 2(1) this] show ?thesis using c n 2 by (simp add: of_nat_diff nat_le_iff)
  next
    case 3
    then have "nat c - 2 + 1 < iters" "int (nat c - 2) + 2 = c" by linarith+
    then show ?thesis using race_two_holds [of "nat c - 2" iters n] n by simp
  qed
qed

theorem race_results_witness:
  "race_result THREADS ITERATIONS 2 \<and> race_result THREADS ITERATIONS 800000 \<and> \<not> race_result THREADS ITERATIONS 1"
  using race_results [of 8 100000] by simp

text \<open>C21: With the mutex the counter is exact: in every reachable state at most one thread is between
  \<open>pthread_mutex_lock\<close> and \<open>pthread_mutex_unlock\<close>; the threads cannot deadlock or run for ever, and when
  nothing moves any more they have all returned and \<open>counter\<close> is \<open>THREADS * ITERATIONS\<close>.\<close>

theorem locked_counter_exact:
  assumes "(conc (inc_with_lock iters) ^^ n) ((False, 0), replicate threads (Lk_Test 0)) ((held, c), ls)"
  shows "sum_list (map in_lock ls) \<le> 1 \<and> n \<le> threads * (5 * iters + 1)
    \<and> (idle (inc_with_lock iters) ((held, c), ls) \<longrightarrow> ls = replicate threads Lk_Done \<and> c = int (threads * iters))
    \<and> (\<exists>held'. (conc (inc_with_lock iters))\<^sup>*\<^sup>* ((held, c), ls) ((held', int (threads * iters)), replicate threads Lk_Done))"
proof -
  have run: "(conc (inc_with_lock iters))\<^sup>*\<^sup>* ((False, 0), replicate threads (Lk_Test 0)) ((held, c), ls)"
    using assms by (rule relpowp_imp_rtranclp)
  have "n \<le> threads * (5 * iters + 1)"
    using locked.run_bound [OF assms] by (simp add: sum_list_replicate)
  moreover have "sum_list (map in_lock ls) \<le> 1" using locked_run_inv [OF run] by (auto simp: lock_inv_def)
  ultimately show ?thesis using locked_final [OF run] locked_finishes [OF run] by blast
qed

theorem locked_counter_exact_witness:
  "\<exists>held. (conc (inc_with_lock ITERATIONS))\<^sup>*\<^sup>* ((False, 0), replicate THREADS (Lk_Test 0))
    ((held, 800000), replicate THREADS Lk_Done)"
  using locked_counter_exact [of 0 100000 8 False 0 "replicate 8 (Lk_Test 0)"] by simp

end
