(* ===== verification/Thread_Queue.thy ===== *)
theory Thread_Queue
  imports Interleave
begin

text \<open>
  Part 6 of \<open>recitation/threads/thread_test.c\<close>: the counting semaphore made of a mutex and a condition
  variable (\<open>semc_t\<close>), the bounded buffer \<open>queue_t\<close> on top of it, and the threads \<open>producer\<close> and
  \<open>consumer\<close>. A thread is its role, its local variables and its place in the code; every access to a
  shared variable, every lock and unlock is a step of its own. \<open>pthread_cond_signal\<close> wakes one of the
  threads that wait, if there is one; \<open>pthread_cond_wait\<close> may also return without a signal.
\<close>

abbreviation (input) QSIZE :: nat where "QSIZE \<equiv> 4"
abbreviation (input) PRODUCE_COUNT :: int where "PRODUCE_COUNT \<equiv> 12"

subsection \<open>State\<close>

text \<open>A \<open>semc_t\<close>: its count, and whether its mutex is held. The threads that wait for its condition
  variable are those at the place \<open>W_Sleep\<close>.\<close>

record semc =
  sc_count :: int
  sc_m :: bool

record queue =
  q_data :: "int list"
  q_head :: int
  q_tail :: int
  q_lock :: bool
  q_empty :: semc
  q_full :: semc

datatype sem = Empty | Full

fun sem_of :: "sem \<Rightarrow> queue \<Rightarrow> semc" where
  "sem_of Empty q = q_empty q"
| "sem_of Full q = q_full q"

fun set_sem :: "sem \<Rightarrow> semc \<Rightarrow> queue \<Rightarrow> queue" where
  "set_sem Empty s q = q\<lparr>q_empty := s\<rparr>"
| "set_sem Full s q = q\<lparr>q_full := s\<rparr>"

abbreviation set_m :: "sem \<Rightarrow> bool \<Rightarrow> queue \<Rightarrow> queue" where
  "set_m S b q \<equiv> set_sem S ((sem_of S q)\<lparr>sc_m := b\<rparr>) q"

abbreviation add_count :: "sem \<Rightarrow> int \<Rightarrow> queue \<Rightarrow> queue" where
  "add_count S k q \<equiv> set_sem S ((sem_of S q)\<lparr>sc_count := sc_count (sem_of S q) + k\<rparr>) q"

text \<open>\<open>q_init\<close> leaves \<open>data\<close> as it is.\<close>

definition semc_init :: "int \<Rightarrow> semc" where
  "semc_init initial = \<lparr>sc_count = initial, sc_m = False\<rparr>"

definition q_init :: "queue \<Rightarrow> queue" where
  "q_init q = q\<lparr>q_head := 0, q_tail := 0, q_lock := False, q_empty := semc_init (int QSIZE), q_full := semc_init 0\<rparr>"

text \<open>The places of a thread: the test of its loop, \<open>semc_wait\<close>, the critical section of \<open>q_push\<close> or
  \<open>q_pop\<close>, \<open>semc_post\<close>, the \<open>printf\<close> after the call, the end, and a fault.\<close>

datatype at = Loop
  | W_Lock | W_Test | W_Sleep | W_Relock | W_Dec | W_Unlock
  | Q_Lock | Q_Cell | Q_Index | Q_Unlock
  | P_Lock | P_Inc | P_Signal | P_Unlock
  | Print | Done | Crash

datatype role = Producer | Consumer

record thread =
  t_role :: role
  t_count :: int
  t_i :: int
  t_v :: int
  t_at :: at

datatype event = Produced int | Consumed int

subsection \<open>Semaphores\<close>

fun semc_wait :: "sem \<Rightarrow> at \<Rightarrow> queue \<Rightarrow> (at \<times> queue) option" where
  "semc_wait S W_Lock q = (if sc_m (sem_of S q) then None else Some (W_Test, set_m S True q))"
| "semc_wait S W_Test q = Some (if sc_count (sem_of S q) = 0 then (W_Sleep, set_m S False q) else (W_Dec, q))"
| "semc_wait S W_Sleep q = None"
| "semc_wait S W_Relock q = (if sc_m (sem_of S q) then None else Some (W_Test, set_m S True q))"
| "semc_wait S W_Dec q = Some (W_Unlock, add_count S (-1) q)"
| "semc_wait S W_Unlock q = Some (Q_Lock, set_m S False q)"
| "semc_wait S _ q = None"

text \<open>\<open>pthread_cond_signal\<close>, at \<open>P_Signal\<close>, also moves another thread and is a rule of \<open>demo_step\<close>.\<close>

fun semc_post :: "sem \<Rightarrow> at \<Rightarrow> queue \<Rightarrow> (at \<times> queue) option" where
  "semc_post S P_Lock q = (if sc_m (sem_of S q) then None else Some (P_Inc, set_m S True q))"
| "semc_post S P_Inc q = Some (P_Signal, add_count S 1 q)"
| "semc_post S P_Unlock q = Some (Print, set_m S False q)"
| "semc_post S _ q = None"

subsection \<open>The bounded buffer\<close>

definition lock_q :: "queue \<Rightarrow> (at \<times> queue) option" where
  "lock_q q = (if q_lock q then None else Some (Q_Cell, q\<lparr>q_lock := True\<rparr>))"

definition q_push :: "int \<Rightarrow> at \<Rightarrow> queue \<Rightarrow> (at \<times> queue) option" where
  "q_push v at q =
     (if at \<in> {W_Lock, W_Test, W_Sleep, W_Relock, W_Dec, W_Unlock} then semc_wait Empty at q
      else if at = Q_Lock then lock_q q
      else if at = Q_Cell then
        Some (case store (q_data q) (q_tail q) v of Inl e \<Rightarrow> (Crash, q) | Inr d \<Rightarrow> (Q_Index, q\<lparr>q_data := d\<rparr>))
      else if at = Q_Index then Some (Q_Unlock, q\<lparr>q_tail := (q_tail q + 1) smod int QSIZE\<rparr>)
      else if at = Q_Unlock then Some (P_Lock, q\<lparr>q_lock := False\<rparr>)
      else semc_post Full at q)"

text \<open>\<open>q_pop\<close> also sets its local variable \<open>v\<close>.\<close>

definition q_pop :: "int \<Rightarrow> at \<Rightarrow> queue \<Rightarrow> (int \<times> at \<times> queue) option" where
  "q_pop v at q =
     (if at \<in> {W_Lock, W_Test, W_Sleep, W_Relock, W_Dec, W_Unlock} then map_option (Pair v) (semc_wait Full at q)
      else if at = Q_Lock then map_option (Pair v) (lock_q q)
      else if at = Q_Cell then
        Some (case idx (q_data q) (q_head q) of Inl e \<Rightarrow> (v, Crash, q) | Inr x \<Rightarrow> (x, Q_Index, q))
      else if at = Q_Index then Some (v, Q_Unlock, q\<lparr>q_head := (q_head q + 1) smod int QSIZE\<rparr>)
      else if at = Q_Unlock then Some (v, P_Lock, q\<lparr>q_lock := False\<rparr>)
      else map_option (Pair v) (semc_post Empty at q))"

subsection \<open>The threads\<close>

definition producer :: "thread \<Rightarrow> queue \<times> event list \<Rightarrow> (thread \<times> queue \<times> event list) option" where
  "producer th = (\<lambda>(q, out).
     if t_at th = Loop then Some (th\<lparr>t_at := if t_i th \<le> t_count th then W_Lock else Done\<rparr>, q, out)
     else if t_at th = Print then Some (th\<lparr>t_i := t_i th + 1, t_at := Loop\<rparr>, q, out @ [Produced (t_i th)])
     else map_option (\<lambda>(at, q'). (th\<lparr>t_at := at\<rparr>, q', out)) (q_push (t_i th) (t_at th) q))"

definition consumer :: "thread \<Rightarrow> queue \<times> event list \<Rightarrow> (thread \<times> queue \<times> event list) option" where
  "consumer th = (\<lambda>(q, out).
     if t_at th = Loop then Some (th\<lparr>t_at := if t_i th < t_count th then W_Lock else Done\<rparr>, q, out)
     else if t_at th = Print then Some (th\<lparr>t_i := t_i th + 1, t_at := Loop\<rparr>, q, out @ [Consumed (t_v th)])
     else map_option (\<lambda>(v, at, q'). (th\<lparr>t_v := v, t_at := at\<rparr>, q', out)) (q_pop (t_v th) (t_at th) q))"

definition thread_step :: "thread \<Rightarrow> queue \<times> event list \<Rightarrow> (thread \<times> queue \<times> event list) option" where
  "thread_step th = (case t_role th of Producer \<Rightarrow> producer th | Consumer \<Rightarrow> consumer th)"

text \<open>A new thread, with an uninitialised \<open>v\<close>.\<close>

definition new_producer :: "int \<Rightarrow> int \<Rightarrow> thread" where
  "new_producer count v = \<lparr>t_role = Producer, t_count = count, t_i = 1, t_v = v, t_at = Loop\<rparr>"

definition new_consumer :: "int \<Rightarrow> int \<Rightarrow> thread" where
  "new_consumer count v = \<lparr>t_role = Consumer, t_count = count, t_i = 0, t_v = v, t_at = Loop\<rparr>"

definition wait_sem :: "thread \<Rightarrow> sem" where
  "wait_sem th = (case t_role th of Producer \<Rightarrow> Empty | Consumer \<Rightarrow> Full)"

definition post_sem :: "thread \<Rightarrow> sem" where
  "post_sem th = (case t_role th of Producer \<Rightarrow> Full | Consumer \<Rightarrow> Empty)"

definition sleeps_on :: "sem \<Rightarrow> thread \<Rightarrow> bool" where
  "sleeps_on S th \<longleftrightarrow> t_at th = W_Sleep \<and> wait_sem th = S"

type_synonym demo = "(queue \<times> event list) \<times> thread list"

inductive demo_step :: "demo \<Rightarrow> demo \<Rightarrow> bool" where
  run: "t < length ths \<Longrightarrow> thread_step (ths ! t) s = Some (th, s') \<Longrightarrow> demo_step (s, ths) (s', ths[t := th])"
| signal_none: "t < length ths \<Longrightarrow> t_at (ths ! t) = P_Signal \<Longrightarrow> list_all (\<lambda>th. \<not> sleeps_on (post_sem (ths ! t)) th) ths
    \<Longrightarrow> demo_step (s, ths) (s, ths[t := (ths ! t)\<lparr>t_at := P_Unlock\<rparr>])"
| signal_one: "t < length ths \<Longrightarrow> t_at (ths ! t) = P_Signal \<Longrightarrow> u < length ths \<Longrightarrow> sleeps_on (post_sem (ths ! t)) (ths ! u)
    \<Longrightarrow> demo_step (s, ths) (s, ths[t := (ths ! t)\<lparr>t_at := P_Unlock\<rparr>, u := (ths ! u)\<lparr>t_at := W_Relock\<rparr>])"

text \<open>The return of \<open>pthread_cond_wait\<close> without a signal.\<close>

inductive spurious :: "demo \<Rightarrow> demo \<Rightarrow> bool" where
  wake: "u < length ths \<Longrightarrow> t_at (ths ! u) = W_Sleep \<Longrightarrow> spurious (s, ths) (s, ths[u := (ths ! u)\<lparr>t_at := W_Relock\<rparr>])"

inductive_cases demo_stepE: "demo_step (s, ths) c'"
inductive_cases spuriousE: "spurious (s, ths) c'"

abbreviation demo_run :: "demo \<Rightarrow> demo \<Rightarrow> bool" where
  "demo_run \<equiv> (sup demo_step spurious)\<^sup>*\<^sup>*"


subsection \<open>What a thread has done so far\<close>

lemmas step_defs = thread_step_def producer_def consumer_def q_push_def q_pop_def lock_q_def

text \<open>The turns of the loop that a thread has completed and those it has to make.\<close>

definition turns :: "thread \<Rightarrow> int" where
  "turns th = (case t_role th of Producer \<Rightarrow> t_i th - 1 | Consumer \<Rightarrow> t_i th)"

definition goal :: "thread \<Rightarrow> int" where
  "goal th = max 0 (t_count th)"

text \<open>The decrements of \<open>wait_sem\<close>, moves of an index and increments of \<open>post_sem\<close> it has made.\<close>

definition claimed :: "thread \<Rightarrow> int" where
  "claimed th = turns th + of_bool (t_at th \<in> {W_Unlock, Q_Lock, Q_Cell, Q_Index, Q_Unlock, P_Lock, P_Inc, P_Signal, P_Unlock, Print})"

definition moved :: "thread \<Rightarrow> int" where
  "moved th = turns th + of_bool (t_at th \<in> {Q_Unlock, P_Lock, P_Inc, P_Signal, P_Unlock, Print})"

definition posted :: "thread \<Rightarrow> int" where
  "posted th = turns th + of_bool (t_at th \<in> {P_Signal, P_Unlock, Print})"

definition used :: "sem \<Rightarrow> thread \<Rightarrow> int" where
  "used S th = (if wait_sem th = S then claimed th else - posted th)"

definition stock :: "thread \<Rightarrow> int" where
  "stock th = (case t_role th of Producer \<Rightarrow> moved th | Consumer \<Rightarrow> - moved th)"

text \<open>Where it holds the mutexes, sleeps, or will look at the semaphore (or make someone look).\<close>

definition holds :: "sem \<Rightarrow> thread \<Rightarrow> int" where
  "holds S th = of_bool (if wait_sem th = S then t_at th \<in> {W_Test, W_Dec, W_Unlock} else t_at th \<in> {P_Inc, P_Signal, P_Unlock})"

definition in_q :: "thread \<Rightarrow> int" where
  "in_q th = of_bool (t_at th \<in> {Q_Cell, Q_Index, Q_Unlock})"

definition asleep :: "sem \<Rightarrow> thread \<Rightarrow> int" where
  "asleep S th = of_bool (sleeps_on S th)"

definition aware :: "sem \<Rightarrow> thread \<Rightarrow> int" where
  "aware S th = of_bool (if wait_sem th = S then t_at th \<in> {W_Relock, W_Test, W_Dec} else t_at th = P_Signal)"

lemmas count_defs = turns_def goal_def claimed_def moved_def posted_def used_def stock_def holds_def in_q_def
  asleep_def aware_def sleeps_on_def wait_sem_def post_sem_def

definition queue_wf :: "queue \<Rightarrow> bool" where
  "queue_wf q \<longleftrightarrow> length (q_data q) = QSIZE \<and> 0 \<le> q_head q \<and> q_head q < int QSIZE \<and> 0 \<le> q_tail q \<and> q_tail q < int QSIZE
     \<and> (\<forall>S. 0 \<le> sc_count (sem_of S q))"

definition thread_ok :: "queue \<Rightarrow> thread \<Rightarrow> bool" where
  "thread_ok q th \<longleftrightarrow> t_at th \<noteq> Crash \<and> 0 \<le> turns th \<and> turns th \<le> goal th
     \<and> (t_at th = Done \<longrightarrow> turns th = goal th) \<and> (t_at th \<notin> {Loop, Done} \<longrightarrow> turns th < goal th)
     \<and> (t_at th = W_Dec \<longrightarrow> 0 < sc_count (sem_of (wait_sem th) q))
     \<and> (t_at th = Q_Index \<longrightarrow> (case t_role th of Producer \<Rightarrow> q_data q ! nat (q_tail q) = t_i th
          | Consumer \<Rightarrow> t_v th = q_data q ! nat (q_head q)))"

lemma all_sem: "(\<forall>S. P S) \<longleftrightarrow> P Empty \<and> P Full"
  by (metis sem.exhaust)

text \<open>The steps one by one. \<open>wait_sem\<close> and \<open>post_sem\<close> make those of the two threads alike but for the
  two in the buffer.\<close>

lemma step_cases [consumes 3]:
  assumes "thread_step th (q, out) = Some (th', q', out')" and "queue_wf q" and "t_at th \<noteq> Crash"
  obtains (enter) "t_at th = Loop" and "turns th < t_count th" and "th' = th\<lparr>t_at := W_Lock\<rparr>" and "q' = q" and "out' = out"
  | (leave) "t_at th = Loop" and "t_count th \<le> turns th" and "th' = th\<lparr>t_at := Done\<rparr>" and "q' = q" and "out' = out"
  | (reacquire) "t_at th = W_Relock" and "\<not> sc_m (sem_of (wait_sem th) q)" and "th' = th\<lparr>t_at := W_Test\<rparr>"
      and "q' = set_m (wait_sem th) True q" and "out' = out"
  | (acquire) "t_at th = W_Lock" and "\<not> sc_m (sem_of (wait_sem th) q)" and "th' = th\<lparr>t_at := W_Test\<rparr>"
      and "q' = set_m (wait_sem th) True q" and "out' = out"
  | (sleep) "t_at th = W_Test" and "sc_count (sem_of (wait_sem th) q) = 0" and "th' = th\<lparr>t_at := W_Sleep\<rparr>"
      and "q' = set_m (wait_sem th) False q" and "out' = out"
  | (pass) "t_at th = W_Test" and "sc_count (sem_of (wait_sem th) q) > 0" and "th' = th\<lparr>t_at := W_Dec\<rparr>" and "q' = q" and "out' = out"
  | (dec) "t_at th = W_Dec" and "th' = th\<lparr>t_at := W_Unlock\<rparr>" and "q' = add_count (wait_sem th) (-1) q" and "out' = out"
  | (release) "t_at th = W_Unlock" and "th' = th\<lparr>t_at := Q_Lock\<rparr>" and "q' = set_m (wait_sem th) False q" and "out' = out"
  | (lock) "t_at th = Q_Lock" and "\<not> q_lock q" and "th' = th\<lparr>t_at := Q_Cell\<rparr>" and "q' = q\<lparr>q_lock := True\<rparr>" and "out' = out"
  | (put) "t_role th = Producer" and "t_at th = Q_Cell" and "th' = th\<lparr>t_at := Q_Index\<rparr>"
      and "q' = q\<lparr>q_data := (q_data q)[nat (q_tail q) := t_i th]\<rparr>" and "out' = out"
  | (put_next) "t_role th = Producer" and "t_at th = Q_Index" and "th' = th\<lparr>t_at := Q_Unlock\<rparr>"
      and "q' = q\<lparr>q_tail := (q_tail q + 1) mod 4\<rparr>" and "out' = out"
  | (get) "t_role th = Consumer" and "t_at th = Q_Cell" and "th' = th\<lparr>t_v := q_data q ! nat (q_head q), t_at := Q_Index\<rparr>"
      and "q' = q" and "out' = out"
  | (get_next) "t_role th = Consumer" and "t_at th = Q_Index" and "th' = th\<lparr>t_at := Q_Unlock\<rparr>"
      and "q' = q\<lparr>q_head := (q_head q + 1) mod 4\<rparr>" and "out' = out"
  | (unlock) "t_at th = Q_Unlock" and "th' = th\<lparr>t_at := P_Lock\<rparr>" and "q' = q\<lparr>q_lock := False\<rparr>" and "out' = out"
  | (post_lock) "t_at th = P_Lock" and "\<not> sc_m (sem_of (post_sem th) q)" and "th' = th\<lparr>t_at := P_Inc\<rparr>"
      and "q' = set_m (post_sem th) True q" and "out' = out"
  | (inc) "t_at th = P_Inc" and "th' = th\<lparr>t_at := P_Signal\<rparr>" and "q' = add_count (post_sem th) 1 q" and "out' = out"
  | (post_unlock) "t_at th = P_Unlock" and "th' = th\<lparr>t_at := Print\<rparr>" and "q' = set_m (post_sem th) False q" and "out' = out"
  | (print) "t_at th = Print" and "th' = th\<lparr>t_i := t_i th + 1, t_at := Loop\<rparr>" and "q' = q"
      and "out' = out @ [case t_role th of Producer \<Rightarrow> Produced (t_i th) | Consumer \<Rightarrow> Consumed (t_v th)]"
proof -
  have wf: "length (q_data q) = 4" "0 \<le> q_head q" "q_head q < 4" "0 \<le> q_tail q" "q_tail q < 4"
    and count: "0 \<le> sc_count (sem_of S q)" for S
    using assms(2) by (auto simp: queue_wf_def)
  note pos = count [of Empty] count [of Full]
  note defs = thread_step_def producer_def consumer_def q_push_def q_pop_def lock_q_def wait_sem_def post_sem_def turns_def smod_nonneg
  show ?thesis
  proof (cases "t_at th")
    case Loop
    then show ?thesis using assms(1) by (cases "t_role th") (auto simp: defs split: if_splits intro: that(1,2))
  next
    case W_Lock
    then show ?thesis using assms(1) by (cases "t_role th") (auto simp: defs split: if_splits intro: that(4))
  next
    case W_Test
    then show ?thesis using assms(1) pos by (cases "t_role th") (auto simp: defs split: if_splits intro: that(5,6))
  next
    case W_Sleep
    then show ?thesis using assms(1) by (cases "t_role th") (auto simp: defs split: if_splits)
  next
    case W_Relock
    then show ?thesis using assms(1) by (cases "t_role th") (auto simp: defs split: if_splits intro: that(3))
  next
    case W_Dec
    then show ?thesis using assms(1) by (cases "t_role th") (auto simp: defs split: if_splits intro: that(7))
  next
    case W_Unlock
    then show ?thesis using assms(1) by (cases "t_role th") (auto simp: defs split: if_splits intro: that(8))
  next
    case Q_Lock
    then show ?thesis using assms(1) by (cases "t_role th") (auto simp: defs split: if_splits intro: that(9))
  next
    case Q_Cell
    then show ?thesis using assms(1) wf by (cases "t_role th") (auto simp: defs split: if_splits intro: that(10,12))
  next
    case Q_Index
    then show ?thesis using assms(1) wf by (cases "t_role th") (auto simp: defs split: if_splits intro: that(11,13))
  next
    case Q_Unlock
    then show ?thesis using assms(1) by (cases "t_role th") (auto simp: defs split: if_splits intro: that(14))
  next
    case P_Lock
    then show ?thesis using assms(1) by (cases "t_role th") (auto simp: defs split: if_splits intro: that(15))
  next
    case P_Inc
    then show ?thesis using assms(1) by (cases "t_role th") (auto simp: defs split: if_splits intro: that(16))
  next
    case P_Signal
    then show ?thesis using assms(1) by (cases "t_role th") (auto simp: defs split: if_splits)
  next
    case P_Unlock
    then show ?thesis using assms(1) by (cases "t_role th") (auto simp: defs split: if_splits intro: that(17))
  next
    case Print
    then show ?thesis using assms(1) by (cases "t_role th") (auto simp: defs split: if_splits intro: that(18))
  next
    case Done
    then show ?thesis using assms(1) by (cases "t_role th") (auto simp: defs split: if_splits)
  qed (use assms(3) in simp)
qed


text \<open>One step as its own thread sees it.\<close>

lemma sem_of_set [simp]: "sem_of S (set_sem S' x q) = (if S = S' then x else sem_of S q)"
  by (cases S; cases S') simp_all

lemma queue_fields [simp]:
  "q_data (set_sem S x q) = q_data q" "q_head (set_sem S x q) = q_head q" "q_tail (set_sem S x q) = q_tail q"
  "q_lock (set_sem S x q) = q_lock q"
  by (cases S; simp)+

lemma sem_of_update [simp]:
  "sem_of S (q\<lparr>q_data := d\<rparr>) = sem_of S q" "sem_of S (q\<lparr>q_head := h\<rparr>) = sem_of S q"
  "sem_of S (q\<lparr>q_tail := h\<rparr>) = sem_of S q" "sem_of S (q\<lparr>q_lock := b\<rparr>) = sem_of S q"
  by (cases S; simp)+

lemma post_other: "wait_sem th = Empty \<Longrightarrow> post_sem th = Full" "wait_sem th = Full \<Longrightarrow> post_sem th = Empty"
  by (cases "t_role th"; simp add: post_sem_def wait_sem_def)+

lemma thread_fields [simp]:
  "wait_sem (th\<lparr>t_at := a\<rparr>) = wait_sem th" "wait_sem (th\<lparr>t_i := i\<rparr>) = wait_sem th" "wait_sem (th\<lparr>t_v := v\<rparr>) = wait_sem th"
  "turns (th\<lparr>t_at := a\<rparr>) = turns th" "turns (th\<lparr>t_i := t_i th + 1\<rparr>) = turns th + 1" "turns (th\<lparr>t_v := v\<rparr>) = turns th"
  "goal (th\<lparr>t_at := a\<rparr>) = goal th" "goal (th\<lparr>t_i := i\<rparr>) = goal th" "goal (th\<lparr>t_v := v\<rparr>) = goal th"
  by (cases "t_role th"; simp add: wait_sem_def turns_def goal_def)+

lemmas local_defs = claimed_def moved_def posted_def used_def holds_def in_q_def asleep_def aware_def sleeps_on_def

lemma local_step:
  assumes "thread_step th (q, out) = Some (th', q', out')" and "queue_wf q" and "thread_ok q th"
    and "\<And>S. holds S th = 1 \<Longrightarrow> sc_m (sem_of S q)" and "in_q th = 1 \<Longrightarrow> q_lock q"
  shows "of_bool (sc_m (sem_of S q')) = of_bool (sc_m (sem_of S q)) + holds S th' - holds S th"
    and "of_bool (q_lock q') = of_bool (q_lock q) + in_q th' - in_q th"
    and "sc_count (sem_of S q') = sc_count (sem_of S q) + used S th - used S th'"
    and "asleep S th' = asleep S th \<and> sc_count (sem_of S q') - aware S th' \<le> sc_count (sem_of S q) - aware S th
      \<or> sc_count (sem_of S q') = 0"
proof -
  have c: "t_at th \<noteq> Crash" and pos: "0 \<le> sc_count (sem_of S q)" for S
    using assms(2,3) by (auto simp: thread_ok_def queue_wf_def)
  have own: "sc_m (sem_of S q)" if "holds S th = 1" for S using assms(4) that .
  show "of_bool (sc_m (sem_of S q')) = of_bool (sc_m (sem_of S q)) + holds S th' - holds S th"
    using assms(1,2) c
    by (cases rule: step_cases; cases S; cases "wait_sem th"; use own [of S] in \<open>auto simp: local_defs post_other\<close>)
  show "of_bool (q_lock q') = of_bool (q_lock q) + in_q th' - in_q th"
    using assms(1,2) c by (cases rule: step_cases) (use assms(5) in \<open>auto simp: local_defs\<close>)
  show "sc_count (sem_of S q') = sc_count (sem_of S q) + used S th - used S th'"
    using assms(1,2) c
    by (cases rule: step_cases; cases S; cases "wait_sem th"; simp add: local_defs post_other)
  show "asleep S th' = asleep S th \<and> sc_count (sem_of S q') - aware S th' \<le> sc_count (sem_of S q) - aware S th
      \<or> sc_count (sem_of S q') = 0"
    using assms(1,2) c
    by (cases rule: step_cases; cases S; cases "wait_sem th"; use pos [of S] in \<open>auto simp: local_defs post_other\<close>)
qed

lemma local_ok:
  assumes "thread_step th (q, out) = Some (th', q', out')" and "queue_wf q" and "thread_ok q th"
  shows "t_role th' = t_role th" and "t_count th' = t_count th" and "queue_wf q'" and "thread_ok q' th'"
proof -
  have c: "t_at th \<noteq> Crash" using assms(3) by (simp add: thread_ok_def)
  show "t_role th' = t_role th" "t_count th' = t_count th"
    using assms(1,2) c by (cases rule: step_cases; simp)+
  show "queue_wf q'"
    using assms(1,2) c by (cases rule: step_cases) (use assms(2,3) in \<open>auto simp: queue_wf_def thread_ok_def\<close>)
  have g: "goal th = (if t_count th < 0 then 0 else t_count th)" by (simp add: goal_def)
  have l: "nat (q_tail q) < length (q_data q)" using assms(2) by (auto simp: queue_wf_def)
  show "thread_ok q' th'"
    using assms(1,2) c by (cases rule: step_cases) (use assms(3) g l in \<open>auto simp: thread_ok_def split: if_splits\<close>)
qed

subsection \<open>The invariant of the demonstration\<close>

abbreviation (input) tsum :: "(thread \<Rightarrow> int) \<Rightarrow> thread list \<Rightarrow> int" where
  "tsum f ths \<equiv> sum_list (map f ths)"

fun capacity :: "sem \<Rightarrow> int" where
  "capacity Empty = int QSIZE"
| "capacity Full = 0"

definition mutex_inv :: "queue \<Rightarrow> thread list \<Rightarrow> bool" where
  "mutex_inv q ths \<longleftrightarrow> (\<forall>S. tsum (holds S) ths = of_bool (sc_m (sem_of S q))) \<and> tsum in_q ths = of_bool (q_lock q)"

definition count_inv :: "queue \<Rightarrow> thread list \<Rightarrow> bool" where
  "count_inv q ths \<longleftrightarrow> (\<forall>S. sc_count (sem_of S q) = capacity S - tsum (used S) ths)"

text \<open>No wakeup is lost: while a thread sleeps, every unit of the semaphore has someone who will look.\<close>

definition wakeup_inv :: "queue \<Rightarrow> thread list \<Rightarrow> bool" where
  "wakeup_inv q ths \<longleftrightarrow> (\<forall>S. 0 < tsum (asleep S) ths \<longrightarrow> sc_count (sem_of S q) \<le> tsum (aware S) ths)"

definition demo_inv :: "demo \<Rightarrow> bool" where
  "demo_inv = (\<lambda>((q, out), ths). queue_wf q \<and> list_all (thread_ok q) ths \<and> mutex_inv q ths \<and> count_inv q ths
     \<and> wakeup_inv q ths)"

text \<open>A sum of non-negative terms bounds each of them, and two different ones.\<close>

lemma tsum_member: "(\<And>th. 0 \<le> f th) \<Longrightarrow> t < length ths \<Longrightarrow> f (ths ! t) \<le> tsum f ths"
  by (intro member_le_sum_list) auto

lemma tsum_nonneg: "(\<And>th. 0 \<le> f th) \<Longrightarrow> 0 \<le> tsum f ths"
  by (intro sum_list_nonneg) auto

lemma tsum_two:
  assumes "\<And>th. 0 \<le> f th" and "t < length ths" and "u < length ths" and "t \<noteq> u"
  shows "f (ths ! t) + f (ths ! u) \<le> tsum f ths"
  using assms(2-4)
proof (induction ths arbitrary: t u)
  case (Cons a ths)
  have "0 \<le> f a" by (rule assms(1))
  then show ?case
    using Cons tsum_member [OF assms(1), of _ ths] by (cases t; cases u) (auto intro: add_increasing)
qed simp

lemma bits_nonneg: "0 \<le> holds S th" "0 \<le> in_q th" "0 \<le> asleep S th" "0 \<le> aware S th"
  by (simp_all add: holds_def in_q_def asleep_def aware_def)

text \<open>Mutual exclusion, read off the sums.\<close>

lemma holder_locks:
  assumes "mutex_inv q ths" and "t < length ths"
  shows "holds S (ths ! t) = 1 \<Longrightarrow> sc_m (sem_of S q)" and "in_q (ths ! t) = 1 \<Longrightarrow> q_lock q"
proof -
  have s: "tsum (holds S) ths = of_bool (sc_m (sem_of S q))" "tsum in_q ths = of_bool (q_lock q)"
    using assms(1) by (simp_all add: mutex_inv_def)
  show "holds S (ths ! t) = 1 \<Longrightarrow> sc_m (sem_of S q)" "in_q (ths ! t) = 1 \<Longrightarrow> q_lock q"
    using s tsum_member [of "holds S", OF bits_nonneg(1) assms(2)] tsum_member [of in_q, OF bits_nonneg(2) assms(2)]
    by (auto simp: of_bool_def split: if_splits)
qed

lemma one_holder:
  assumes "mutex_inv q ths" and "t < length ths" and "u < length ths" and "t \<noteq> u"
  shows "holds S (ths ! t) = 1 \<Longrightarrow> holds S (ths ! u) = 0" and "in_q (ths ! t) = 1 \<Longrightarrow> in_q (ths ! u) = 0"
proof -
  have s: "tsum (holds S) ths \<le> 1" "tsum in_q ths \<le> 1" using assms(1) by (simp_all add: mutex_inv_def)
  show "holds S (ths ! t) = 1 \<Longrightarrow> holds S (ths ! u) = 0"
    using s tsum_two [of "holds S", OF bits_nonneg(1) assms(2-4)] bits_nonneg(1) [of S "ths ! u"] by simp
  show "in_q (ths ! t) = 1 \<Longrightarrow> in_q (ths ! u) = 0"
    using s tsum_two [of in_q, OF bits_nonneg(2) assms(2-4)] bits_nonneg(2) [of "ths ! u"] by simp
qed

text \<open>What another thread relies on is left alone.\<close>

lemma frame_step:
  assumes "thread_step th (q, out) = Some (th', q', out')" and "queue_wf q" and "t_at th \<noteq> Crash"
  shows "holds S th = 0 \<Longrightarrow> sc_count (sem_of S q') = sc_count (sem_of S q)"
    and "in_q th = 0 \<Longrightarrow> q_data q' = q_data q \<and> q_head q' = q_head q \<and> q_tail q' = q_tail q"
proof -
  show "in_q th = 0 \<Longrightarrow> q_data q' = q_data q \<and> q_head q' = q_head q \<and> q_tail q' = q_tail q"
    using assms by (cases rule: step_cases; simp add: in_q_def)
  show "holds S th = 0 \<Longrightarrow> sc_count (sem_of S q') = sc_count (sem_of S q)"
    using assms by (cases rule: step_cases; cases S; cases "wait_sem th"; simp add: holds_def post_other)
qed

lemma other_ok:
  assumes "thread_step th (q, out) = Some (th', q', out')" and "queue_wf q" and "thread_ok q th" and "thread_ok q x"
    and "\<And>S. holds S x = 1 \<Longrightarrow> holds S th = 0" and "in_q x = 1 \<Longrightarrow> in_q th = 0"
  shows "thread_ok q' x"
proof -
  have c: "t_at th \<noteq> Crash" using assms(3) by (simp add: thread_ok_def)
  have "sc_count (sem_of (wait_sem x) q') = sc_count (sem_of (wait_sem x) q)" if "t_at x = W_Dec"
    using frame_step(1) [OF assms(1,2) c] assms(5) that by (simp add: holds_def)
  moreover have "q_data q' = q_data q \<and> q_head q' = q_head q \<and> q_tail q' = q_tail q" if "t_at x = Q_Index"
    using frame_step(2) [OF assms(1,2) c] assms(6) that by (simp add: in_q_def)
  ultimately show ?thesis using assms(4) by (cases "t_role x") (auto simp: thread_ok_def)
qed

lemma demo_inv_run:
  assumes "demo_inv ((q, out), ths)" and t: "t < length ths" and step: "thread_step (ths ! t) (q, out) = Some (th, q', out')"
  shows "demo_inv ((q', out'), ths[t := th])"
proof -
  have wf: "queue_wf q" and ok: "list_all (thread_ok q) ths" and m: "mutex_inv q ths" and n: "count_inv q ths"
    and w: "wakeup_inv q ths" using assms(1) by (simp_all add: demo_inv_def)
  have me: "thread_ok q (ths ! t)" using ok t by (rule list_all_nth)
  note l = local_step [OF step wf me holder_locks [OF m t]] and o = local_ok [OF step wf me]
  note sum = sum_list_map_update [OF t, where x = th]
  have "thread_ok q' (ths[t := th] ! u)" if u: "u < length ths" for u
  proof (cases "u = t")
    case False
    then show ?thesis
      using other_ok [OF step wf me list_all_nth [OF ok u]] one_holder [OF m u t] by simp
  qed (use o(4) t in simp)
  then have "list_all (thread_ok q') (ths[t := th])" by (simp add: list_all_length)
  moreover have "mutex_inv q' (ths[t := th])" using m sum [of in_q] sum [of "holds _"] l(1,2) by (simp add: mutex_inv_def)
  moreover have "count_inv q' (ths[t := th])" using n sum [of "used _"] l(3) by (simp add: count_inv_def)
  moreover have "wakeup_inv q' (ths[t := th])"
    unfolding wakeup_inv_def
  proof (intro allI impI)
    fix S assume a: "0 < tsum (asleep S) (ths[t := th])"
    have old: "0 < tsum (asleep S) ths \<Longrightarrow> sc_count (sem_of S q) \<le> tsum (aware S) ths" using w by (simp add: wakeup_inv_def)
    have "0 \<le> tsum (aware S) (ths[t := th])" by (intro tsum_nonneg bits_nonneg)
    moreover have "asleep S th = asleep S (ths ! t) \<and> sc_count (sem_of S q') - aware S th \<le> sc_count (sem_of S q) - aware S (ths ! t)
        \<or> sc_count (sem_of S q') = 0" using l(4) by simp
    ultimately show "sc_count (sem_of S q') \<le> tsum (aware S) (ths[t := th])"
    proof (elim disjE conjE)
      assume look: "sc_count (sem_of S q') - aware S th \<le> sc_count (sem_of S q) - aware S (ths ! t)"
        and "asleep S th = asleep S (ths ! t)"
      then have "sc_count (sem_of S q) \<le> tsum (aware S) ths" using a old sum [of "asleep S"] by simp
      then show ?thesis using look sum [of "aware S"] by linarith
    qed simp
  qed
  ultimately show ?thesis using o(3) by (simp add: demo_inv_def)
qed

text \<open>A signal and a wakeup move a thread between two places that differ in nothing but who will look.\<close>

definition nudged :: "thread \<Rightarrow> at \<Rightarrow> bool" where
  "nudged th a \<longleftrightarrow> t_at th = P_Signal \<and> a = P_Unlock \<or> t_at th = W_Sleep \<and> a = W_Relock"

lemma nudged_same:
  assumes "nudged th a"
  shows "holds S (th\<lparr>t_at := a\<rparr>) = holds S th" and "in_q (th\<lparr>t_at := a\<rparr>) = in_q th" and "used S (th\<lparr>t_at := a\<rparr>) = used S th"
    and "stock (th\<lparr>t_at := a\<rparr>) = stock th" and "thread_ok q (th\<lparr>t_at := a\<rparr>) = thread_ok q th"
  using assms unfolding nudged_def
  by (elim disjE conjE; cases "t_role th"; simp add: local_defs thread_ok_def stock_def)+

lemma sum_list_map_same: "t < length xs \<Longrightarrow> f x = f (xs ! t) \<Longrightarrow> sum_list (map f (xs[t := x])) = (sum_list (map f xs) :: int)"
  by (simp add: sum_list_map_update)

lemma demo_inv_nudge:
  assumes "demo_inv ((q, out), ths)" and "t < length ths" and "nudged (ths ! t) a" and "wakeup_inv q (ths[t := (ths ! t)\<lparr>t_at := a\<rparr>])"
  shows "demo_inv ((q, out), ths[t := (ths ! t)\<lparr>t_at := a\<rparr>])"
proof -
  have "thread_ok q (ths ! t)" using assms(1,2) by (auto simp: demo_inv_def list_all_length)
  then have "list_all (thread_ok q) (ths[t := (ths ! t)\<lparr>t_at := a\<rparr>])"
    using assms(1) nudged_same(5) [OF assms(3)] by (intro list_all_update) (simp_all add: demo_inv_def)
  then show ?thesis
    using assms(1,2,4) nudged_same(1-3) [OF assms(3)]
    by (simp add: demo_inv_def mutex_inv_def count_inv_def sum_list_map_same)
qed

lemma asleep_awake: "t_at th = W_Sleep \<Longrightarrow> asleep S (th\<lparr>t_at := W_Relock\<rparr>) = 0 \<and> asleep S th = of_bool (wait_sem th = S)
    \<and> aware S th = 0 \<and> aware S (th\<lparr>t_at := W_Relock\<rparr>) = of_bool (wait_sem th = S)"
  and asleep_signal: "t_at th = P_Signal \<Longrightarrow> asleep S (th\<lparr>t_at := P_Unlock\<rparr>) = 0 \<and> asleep S th = 0
    \<and> aware S th = of_bool (wait_sem th \<noteq> S) \<and> aware S (th\<lparr>t_at := P_Unlock\<rparr>) = 0"
  by (auto simp: local_defs)

lemma demo_inv_spurious:
  assumes "demo_inv ((q, out), ths)" and "t < length ths" and "t_at (ths ! t) = W_Sleep"
  shows "demo_inv ((q, out), ths[t := (ths ! t)\<lparr>t_at := W_Relock\<rparr>])"
proof (rule demo_inv_nudge [OF assms(1,2)])
  have w: "wakeup_inv q ths" using assms(1) by (simp add: demo_inv_def)
  note sum = sum_list_map_update [OF assms(2), where x = "(ths ! t)\<lparr>t_at := W_Relock\<rparr>"]
  show "wakeup_inv q (ths[t := (ths ! t)\<lparr>t_at := W_Relock\<rparr>])"
    unfolding wakeup_inv_def
  proof (intro allI impI)
    fix S assume "0 < tsum (asleep S) (ths[t := (ths ! t)\<lparr>t_at := W_Relock\<rparr>])"
    then have "0 < tsum (asleep S) ths" using sum [of "asleep S"] asleep_awake [OF assms(3), of S]
      by (cases "wait_sem (ths ! t) = S") simp_all
    then show "sc_count (sem_of S q) \<le> tsum (aware S) (ths[t := (ths ! t)\<lparr>t_at := W_Relock\<rparr>])"
      using w sum [of "aware S"] asleep_awake [OF assms(3), of S] by (auto simp: wakeup_inv_def)
  qed
qed (use assms(3) in \<open>simp add: nudged_def\<close>)

lemma no_sleepers: "list_all (\<lambda>th. \<not> sleeps_on S th) ths \<Longrightarrow> tsum (asleep S) ths = 0"
proof -
  assume "list_all (\<lambda>th. \<not> sleeps_on S th) ths"
  then have "map (asleep S) ths = map (\<lambda>_. 0) ths" by (simp add: asleep_def list_all_iff)
  then show ?thesis by (simp only: sum_list_0)
qed

lemma demo_inv_signal_none:
  assumes "demo_inv ((q, out), ths)" and "t < length ths" and "t_at (ths ! t) = P_Signal"
    and "list_all (\<lambda>th. \<not> sleeps_on (post_sem (ths ! t)) th) ths"
  shows "demo_inv ((q, out), ths[t := (ths ! t)\<lparr>t_at := P_Unlock\<rparr>])"
proof (rule demo_inv_nudge [OF assms(1,2)])
  have w: "wakeup_inv q ths" using assms(1) by (simp add: demo_inv_def)
  note sum = sum_list_map_update [OF assms(2), where x = "(ths ! t)\<lparr>t_at := P_Unlock\<rparr>"]
  show "wakeup_inv q (ths[t := (ths ! t)\<lparr>t_at := P_Unlock\<rparr>])"
    unfolding wakeup_inv_def
  proof (intro allI impI)
    fix S assume s: "0 < tsum (asleep S) (ths[t := (ths ! t)\<lparr>t_at := P_Unlock\<rparr>])"
    then have "S \<noteq> post_sem (ths ! t)"
      using sum [of "asleep S"] asleep_signal [OF assms(3), of S] no_sleepers [OF assms(4)] by auto
    then have "wait_sem (ths ! t) = S" using post_other by (cases S; cases "wait_sem (ths ! t)") auto
    then show "sc_count (sem_of S q) \<le> tsum (aware S) (ths[t := (ths ! t)\<lparr>t_at := P_Unlock\<rparr>])"
      using w s sum [of "aware S"] sum [of "asleep S"] asleep_signal [OF assms(3), of S] by (auto simp: wakeup_inv_def)
  qed
qed (use assms(3) in \<open>simp add: nudged_def\<close>)

lemma demo_inv_signal_one:
  assumes "demo_inv ((q, out), ths)" and "t < length ths" and "t_at (ths ! t) = P_Signal"
    and u: "u < length ths" "sleeps_on (post_sem (ths ! t)) (ths ! u)"
  shows "demo_inv ((q, out), ths[t := (ths ! t)\<lparr>t_at := P_Unlock\<rparr>, u := (ths ! u)\<lparr>t_at := W_Relock\<rparr>])"
proof -
  have sl: "t_at (ths ! u) = W_Sleep" and ws: "wait_sem (ths ! u) = post_sem (ths ! t)"
    using u(2) by (simp_all add: sleeps_on_def)
  then have ne: "u \<noteq> t" using assms(3) by auto
  let ?a = "ths[u := (ths ! u)\<lparr>t_at := W_Relock\<rparr>]"
  have a: "demo_inv ((q, out), ?a)" by (rule demo_inv_spurious [OF assms(1) u(1) sl])
  have t: "t < length ?a" "?a ! t = ths ! t" using assms(2) ne by simp_all
  have w: "wakeup_inv q ths" using assms(1) by (simp add: demo_inv_def)
  note sum1 = sum_list_map_update [OF u(1), where x = "(ths ! u)\<lparr>t_at := W_Relock\<rparr>"]
  note sum2 = sum_list_map_update [OF t(1), where x = "(?a ! t)\<lparr>t_at := P_Unlock\<rparr>"]
  have "wakeup_inv q (?a[t := (?a ! t)\<lparr>t_at := P_Unlock\<rparr>])"
    unfolding wakeup_inv_def
  proof (intro allI impI)
    fix S assume s: "0 < tsum (asleep S) (?a[t := (?a ! t)\<lparr>t_at := P_Unlock\<rparr>])"
    note at1 = asleep_awake [OF sl, of S] and at2 = asleep_signal [OF assms(3), of S]
    have "0 < tsum (asleep S) ths"
      using s sum1 [of "asleep S"] sum2 [of "asleep S"] at1 at2 t(2) by (cases "wait_sem (ths ! u) = S") simp_all
    then have "sc_count (sem_of S q) \<le> tsum (aware S) ths" using w by (simp add: wakeup_inv_def)
    moreover have "tsum (aware S) (?a[t := (?a ! t)\<lparr>t_at := P_Unlock\<rparr>]) = tsum (aware S) ths"
      using sum1 [of "aware S"] sum2 [of "aware S"] at1 at2 t(2) ws post_other [of "ths ! t"]
      by (cases S; cases "wait_sem (ths ! t)"; simp)
    ultimately show "sc_count (sem_of S q) \<le> tsum (aware S) (?a[t := (?a ! t)\<lparr>t_at := P_Unlock\<rparr>])" by simp
  qed
  moreover have "nudged (?a ! t) P_Unlock" using assms(3) t(2) by (simp add: nudged_def)
  ultimately have "demo_inv ((q, out), ?a[t := (?a ! t)\<lparr>t_at := P_Unlock\<rparr>])" by (intro demo_inv_nudge [OF a t(1)])
  then show ?thesis using ne t(2) by (simp add: list_update_swap)
qed

lemma demo_inv_step: "demo_step c c' \<Longrightarrow> demo_inv c \<Longrightarrow> demo_inv c'"
proof (induction rule: demo_step.induct)
  case (run t ths s th s')
  then show ?case using demo_inv_run by (cases s; cases s') blast
next
  case (signal_none t ths s)
  then show ?case using demo_inv_signal_none by (cases s) blast
next
  case (signal_one t ths u s)
  then show ?case using demo_inv_signal_one by (cases s) blast
qed

lemma demo_inv_any: "sup demo_step spurious c c' \<Longrightarrow> demo_inv c \<Longrightarrow> demo_inv c'"
proof (elim sup2E)
  show "spurious c c' \<Longrightarrow> demo_inv c \<Longrightarrow> demo_inv c'"
    by (induction rule: spurious.induct) (metis demo_inv_spurious surj_pair)
qed (rule demo_inv_step)

lemma demo_inv_runs: "demo_run c c' \<Longrightarrow> demo_inv c \<Longrightarrow> demo_inv c'"
  by (induction rule: rtranclp_induct) (auto intro: demo_inv_any)

text \<open>The state in which \<open>main\<close> starts its threads.\<close>

definition fresh_thread :: "thread \<Rightarrow> bool" where
  "fresh_thread th \<longleftrightarrow> (\<exists>n v. th = new_producer n v \<or> th = new_consumer n v)"

lemma tsum_zero: "(\<And>th. th \<in> set ths \<Longrightarrow> f th = 0) \<Longrightarrow> tsum f ths = 0"
  by (induction ths) simp_all

lemma demo_inv_start:
  assumes "length (q_data q) = QSIZE" and "list_all fresh_thread ths"
  shows "demo_inv ((q_init q, []), ths)"
proof -
  have new: "t_at th = Loop \<and> turns th = 0" if "th \<in> set ths" for th
    using assms(2) that by (auto simp: list_all_iff fresh_thread_def new_producer_def new_consumer_def turns_def)
  have z: "holds S th = 0" "in_q th = 0" "used S th = 0" "asleep S th = 0" if "th \<in> set ths" for th S
    using new [OF that] by (simp_all add: local_defs)
  have "thread_ok q' th" if "th \<in> set ths" for th q' using new [OF that] by (simp add: thread_ok_def goal_def)
  moreover have "sc_count (sem_of S (q_init q)) = capacity S" "\<not> sc_m (sem_of S (q_init q))" for S
    by (cases S; simp add: q_init_def semc_init_def)+
  moreover have "queue_wf (q_init q)" using assms(1) by (simp add: queue_wf_def all_sem q_init_def semc_init_def)
  moreover have "\<not> q_lock (q_init q)" by (simp add: q_init_def)
  ultimately show ?thesis
    using tsum_zero [of ths, OF z(1)] tsum_zero [of ths, OF z(2)] tsum_zero [of ths, OF z(3)] tsum_zero [of ths, OF z(4)]
    by (simp add: demo_inv_def mutex_inv_def count_inv_def wakeup_inv_def list_all_iff)
qed

subsection \<open>The demonstration ends\<close>

text \<open>What remains of a turn: a signal is dear enough to pay for the wakeup it causes.\<close>

fun left_in_turn :: "at \<Rightarrow> nat" where
  "left_in_turn Loop = 18" | "left_in_turn W_Lock = 17" | "left_in_turn W_Test = 16" | "left_in_turn W_Sleep = 15"
| "left_in_turn W_Relock = 17" | "left_in_turn W_Dec = 15" | "left_in_turn W_Unlock = 14" | "left_in_turn Q_Lock = 13"
| "left_in_turn Q_Cell = 12" | "left_in_turn Q_Index = 11" | "left_in_turn Q_Unlock = 10" | "left_in_turn P_Lock = 9"
| "left_in_turn P_Inc = 8" | "left_in_turn P_Signal = 7" | "left_in_turn P_Unlock = 2" | "left_in_turn Print = 1"
| "left_in_turn Done = 0" | "left_in_turn Crash = 0"

definition steps_left :: "thread \<Rightarrow> nat" where
  "steps_left th = nat (goal th - turns th) * 18 + left_in_turn (t_at th)"

abbreviation (input) all_left :: "thread list \<Rightarrow> nat" where
  "all_left ths \<equiv> sum_list (map steps_left ths)"

lemma steps_left_step:
  assumes "thread_step th (q, out) = Some (th', q', out')" and "queue_wf q" and "thread_ok q th"
  shows "steps_left th' < steps_left th"
proof -
  have c: "t_at th \<noteq> Crash" and g: "t_at th = Print \<Longrightarrow> turns th < goal th" using assms(3) by (simp_all add: thread_ok_def)
  have p: "nat (goal th - turns th) = Suc (nat (goal th - (turns th + 1)))" if "t_at th = Print"
    using g [OF that] by simp
  show ?thesis
    using assms(1,2) c by (cases rule: step_cases) (use p in \<open>simp_all add: steps_left_def\<close>)
qed

lemma all_left_step: "demo_step c c' \<Longrightarrow> demo_inv c \<Longrightarrow> all_left (snd c') < all_left (snd c)"
proof (induction rule: demo_step.induct)
  case (run t ths s th s')
  then have "steps_left th < steps_left (ths ! t)"
    by (cases s; cases s') (auto simp: demo_inv_def list_all_length intro: steps_left_step)
  then show ?case using sum_list_update_nat [OF run(1), of steps_left th] by simp
next
  case (signal_none t ths s)
  have "steps_left ((ths ! t)\<lparr>t_at := P_Unlock\<rparr>) < steps_left (ths ! t)"
    using signal_none(2) by (simp add: steps_left_def)
  then show ?case using sum_list_update_nat [OF signal_none(1), of steps_left "(ths ! t)\<lparr>t_at := P_Unlock\<rparr>"] by simp
next
  case (signal_one t ths u s)
  let ?t = "(ths ! t)\<lparr>t_at := P_Unlock\<rparr>" and ?u = "(ths ! u)\<lparr>t_at := W_Relock\<rparr>"
  have sl: "t_at (ths ! u) = W_Sleep" using signal_one(4) by (simp add: sleeps_on_def)
  then have ne: "u \<noteq> t" using signal_one(2) by auto
  have "steps_left ?t + 5 = steps_left (ths ! t)" "steps_left ?u = steps_left (ths ! u) + 2"
    using signal_one(2) sl by (simp_all add: steps_left_def)
  then show ?case
    using sum_list_update_nat [OF signal_one(1), of steps_left ?t] ne
      sum_list_update_nat [of u "ths[t := ?t]" steps_left ?u] signal_one(3) by simp
qed

lemma all_left_spurious: "spurious c c' \<Longrightarrow> all_left (snd c') = all_left (snd c) + 2"
proof (induction rule: spurious.induct)
  case (wake u ths s)
  let ?u = "(ths ! u)\<lparr>t_at := W_Relock\<rparr>"
  have "steps_left ?u = steps_left (ths ! u) + 2" using wake(2) by (simp add: steps_left_def)
  then show ?case using sum_list_update_nat [OF wake(1), of steps_left ?u] by simp
qed

text \<open>A run of \<open>n\<close> steps with \<open>k\<close> spurious wakeups in between.\<close>

inductive demo_path :: "nat \<Rightarrow> nat \<Rightarrow> demo \<Rightarrow> demo \<Rightarrow> bool" where
  start: "demo_path 0 0 c c"
| step: "demo_path n k c c' \<Longrightarrow> demo_step c' c'' \<Longrightarrow> demo_path (Suc n) k c c''"
| wakeup: "demo_path n k c c' \<Longrightarrow> spurious c' c'' \<Longrightarrow> demo_path n (Suc k) c c''"

lemma demo_path_run: "demo_path n k c c' \<Longrightarrow> demo_run c c'"
  by (induction rule: demo_path.induct) (auto elim: rtranclp.rtrancl_into_rtrancl)

lemma demo_path_bound:
  assumes "demo_path n k c c'" and "demo_inv c"
  shows "n + all_left (snd c') \<le> all_left (snd c) + 2 * k"
  using assms
proof (induction rule: demo_path.induct)
  case (step n k c c' c'')
  then show ?case using all_left_step [of c' c''] demo_inv_runs [OF demo_path_run [OF step(1)]] by fastforce
next
  case (wakeup n k c c' c'')
  then show ?case using all_left_spurious [of c' c''] by simp
qed simp

text \<open>Where a thread is stuck when nothing moves.\<close>

lemma stuck_places:
  assumes "thread_step th (q, out) = None" and "t_at th \<noteq> P_Signal" and "t_at th \<noteq> Crash" and "queue_wf q"
  shows "t_at th \<in> {Done, W_Sleep} \<or> t_at th \<in> {W_Lock, W_Relock} \<and> sc_m (sem_of (wait_sem th) q)
    \<or> t_at th = P_Lock \<and> sc_m (sem_of (post_sem th) q) \<or> t_at th = Q_Lock \<and> q_lock q"
  using assms(1-3)
  by (cases "t_at th"; cases "t_role th"; auto simp: step_defs wait_sem_def post_sem_def split: if_splits)

lemma idle_threads:
  assumes inv: "demo_inv ((q, out), ths)" and no: "\<nexists>c'. demo_step ((q, out), ths) c'" and th: "th \<in> set ths"
  shows "t_at th \<in> {Done, W_Sleep}"
proof -
  have wf: "queue_wf q" and ok: "\<And>th. th \<in> set ths \<Longrightarrow> thread_ok q th" and m: "mutex_inv q ths"
    using inv by (simp_all add: demo_inv_def list_all_iff)
  have stuck: "thread_step x (q, out) = None" "t_at x \<noteq> P_Signal" "t_at x \<noteq> Crash" if x: "x \<in> set ths" for x
  proof -
    obtain t where t: "t < length ths" "x = ths ! t" using x by (auto simp: in_set_conv_nth)
    show "t_at x \<noteq> Crash" using ok [OF x] by (simp add: thread_ok_def)
    show "thread_step x (q, out) = None"
      using no demo_step.run [OF t(1), of "(q, out)"] t(2) by (metis not_None_eq surj_pair)
    show "t_at x \<noteq> P_Signal"
    proof
      assume p: "t_at x = P_Signal"
      show False
      proof (cases "list_all (\<lambda>th. \<not> sleeps_on (post_sem (ths ! t)) th) ths")
        case True
        then show False using no signal_none [OF t(1)] p t(2) by blast
      next
        case False
        then obtain u where "u < length ths" "sleeps_on (post_sem (ths ! t)) (ths ! u)" by (auto simp: list_all_length)
        then show False using no signal_one [OF t(1)] p t(2) by blast
      qed
    qed
  qed
  have places: "t_at x \<in> {Done, W_Sleep, W_Lock, W_Relock, P_Lock, Q_Lock}" if "x \<in> set ths" for x
    using stuck_places [OF stuck [OF that] wf] by auto
  have "tsum (holds S) ths = 0" "tsum in_q ths = 0" for S
    by (rule tsum_zero, use places in \<open>fastforce simp: holds_def in_q_def\<close>)+
  then have "\<not> sc_m (sem_of S q)" "\<not> q_lock q" for S using m by (simp_all add: mutex_inv_def)
  then show ?thesis using stuck_places [OF stuck [OF th] wf] by simp
qed

text \<open>What the producers make less what the consumers take.\<close>

definition surplus :: "thread \<Rightarrow> int" where
  "surplus th = (case t_role th of Producer \<Rightarrow> goal th | Consumer \<Rightarrow> - goal th)"

lemma tsum_mono: "(\<And>th. th \<in> set ths \<Longrightarrow> f th \<le> g th) \<Longrightarrow> tsum f ths \<le> tsum g ths"
  by (rule sum_list_mono)

lemma tsum_add: "tsum (\<lambda>th. f th + g th) ths = tsum f ths + tsum g ths"
  by (rule sum_list_addf)

lemma tsum_neg: "tsum (\<lambda>th. - f th) ths = - tsum f ths"
  by (induction ths) simp_all

lemma no_deadlock:
  assumes inv: "demo_inv ((q, out), ths)" and no: "\<nexists>c'. demo_step ((q, out), ths) c'"
    and fair: "0 \<le> tsum surplus ths" "tsum surplus ths \<le> int QSIZE"
  shows "\<forall>th \<in> set ths. t_at th = Done"
proof -
  have wf: "queue_wf q" and ok: "\<And>th. th \<in> set ths \<Longrightarrow> thread_ok q th" and n: "count_inv q ths" and w: "wakeup_inv q ths"
    using inv by (simp_all add: demo_inv_def list_all_iff)
  have stop: "t_at th = Done \<or> t_at th = W_Sleep" if "th \<in> set ths" for th using idle_threads [OF inv no that] by simp
  have counts: "sc_count (sem_of S q) = capacity S - tsum (used S) ths" "0 \<le> sc_count (sem_of S q)" for S
    using n wf by (simp_all add: count_inv_def queue_wf_def)
  have both: "tsum (used Empty) ths + tsum (used Full) ths = 0"
    unfolding tsum_add [symmetric]
  proof (rule tsum_zero)
    show "used Empty th + used Full th = 0" if "th \<in> set ths" for th
      using stop [OF that] by (elim disjE; cases "wait_sem th"; simp add: used_def claimed_def posted_def)
  qed
  have none: "tsum (aware S) ths = 0" for S
  proof (rule tsum_zero)
    show "aware S th = 0" if "th \<in> set ths" for th using stop [OF that] by (elim disjE; simp add: aware_def)
  qed
  have empty: "sc_count (sem_of S q) = 0" if "0 < tsum (asleep S) ths" for S
    using w that none [of S] counts(2) [of S] by (fastforce simp: wakeup_inv_def)
  have awake: "tsum (asleep S) ths = 0" if "sc_count (sem_of S q) \<noteq> 0" for S
    using empty [of S] that tsum_nonneg [of "asleep S" ths, OF bits_nonneg(3)] by linarith
  have fin: "t_at th = Done" if th: "th \<in> set ths" "tsum (asleep (wait_sem th)) ths = 0" for th
  proof (rule ccontr)
    assume "t_at th \<noteq> Done"
    then have "asleep (wait_sem th) th = 1" using stop [OF th(1)] by (simp add: asleep_def sleeps_on_def)
    moreover obtain t where "t < length ths" "th = ths ! t" using th(1) by (auto simp: in_set_conv_nth)
    ultimately show False using tsum_member [of "asleep (wait_sem th)" t ths, OF bits_nonneg(3)] th(2) by simp
  qed
  have shape: "used Full th = (case t_role th of Producer \<Rightarrow> - turns th | Consumer \<Rightarrow> turns th)"
    "wait_sem th = (case t_role th of Producer \<Rightarrow> Empty | Consumer \<Rightarrow> Full)"
    "turns th \<le> goal th" "t_at th = W_Sleep \<longrightarrow> turns th < goal th" "t_at th = Done \<longrightarrow> turns th = goal th"
    if "th \<in> set ths" for th
    using stop [OF that] ok [OF that]
    by (elim disjE; cases "t_role th"; simp add: used_def claimed_def posted_def wait_sem_def thread_ok_def)+
  show ?thesis
  proof (cases "tsum (asleep Empty) ths = 0 \<and> tsum (asleep Full) ths = 0")
    case True
    then show ?thesis using fin by (metis sem.exhaust)
  next
    case False
    moreover have nn: "0 \<le> tsum (asleep S) ths" for S by (intro tsum_nonneg bits_nonneg)
    ultimately consider "0 < tsum (asleep Empty) ths" | "0 < tsum (asleep Full) ths"
      using nn [of Empty] nn [of Full] by linarith
    then show ?thesis
    proof cases
      case 1
      then have full: "sc_count (sem_of Full q) = 4" using empty [of Empty] counts(1) [of Empty] counts(1) [of Full] both by simp
      have "tsum (\<lambda>th. - used Full th + asleep Empty th) ths \<le> tsum surplus ths"
      proof (rule tsum_mono)
        fix th assume th: "th \<in> set ths"
        show "- used Full th + asleep Empty th \<le> surplus th"
          using shape [OF th] stop [OF th] fin [OF th] awake [of Full] full
          by (auto simp: surplus_def asleep_def sleeps_on_def split: role.splits)
      qed
      then have "- tsum (used Full) ths + tsum (asleep Empty) ths \<le> tsum surplus ths" unfolding tsum_add tsum_neg by simp
      then show ?thesis using fair(2) 1 full counts(1) [of Full] by simp
    next
      case 2
      then have full: "sc_count (sem_of Full q) = 0" "sc_count (sem_of Empty q) = 4"
        using empty [of Full] counts(1) [of Empty] counts(1) [of Full] both by simp_all
      have "tsum surplus ths \<le> tsum (\<lambda>th. - used Full th + - asleep Full th) ths"
      proof (rule tsum_mono)
        fix th assume th: "th \<in> set ths"
        show "surplus th \<le> - used Full th + - asleep Full th"
          using shape [OF th] stop [OF th] fin [OF th] awake [of Empty] full(2)
          by (auto simp: surplus_def asleep_def sleeps_on_def split: role.splits)
      qed
      then have "tsum surplus ths \<le> - tsum (used Full) ths - tsum (asleep Full) ths" unfolding tsum_add tsum_neg by simp
      then show ?thesis using fair(1) 2 full(1) counts(1) [of Full] by simp
    qed
  qed
qed

lemma surplus_step: "demo_step c c' \<Longrightarrow> tsum surplus (snd c') = tsum surplus (snd c)"
proof -
  have at: "surplus (th\<lparr>t_at := a\<rparr>) = surplus th" for th a by (cases "t_role th"; simp add: surplus_def)
  have run: "surplus th' = surplus th" if "thread_step th s = Some (th', s')" for th th' s s'
    using that by (cases s; cases "t_role th"; auto simp: surplus_def goal_def step_defs split: if_splits sum.splits)
  show "demo_step c c' \<Longrightarrow> tsum surplus (snd c') = tsum surplus (snd c)"
    by (induction rule: demo_step.induct)
      (auto simp: sum_list_map_update nth_list_update at dest!: run)
qed

lemma runs_to_the_end:
  assumes "demo_inv c" and "0 \<le> tsum surplus (snd c)" and "tsum surplus (snd c) \<le> int QSIZE"
  shows "\<exists>c'. demo_step\<^sup>*\<^sup>* c c' \<and> (\<forall>th \<in> set (snd c'). t_at th = Done)"
  using assms
proof (induction "all_left (snd c)" arbitrary: c rule: less_induct)
  case less
  obtain q out ths where c: "c = ((q, out), ths)" by (cases c) auto
  show ?case
  proof (cases "\<exists>c'. demo_step c c'")
    case True
    then obtain c1 where c1: "demo_step c c1" ..
    have "\<exists>c'. demo_step\<^sup>*\<^sup>* c1 c' \<and> (\<forall>th \<in> set (snd c'). t_at th = Done)"
      by (rule less.hyps [OF all_left_step [OF c1 less.prems(1)] demo_inv_step [OF c1 less.prems(1)]])
        (use surplus_step [OF c1] less.prems in simp_all)
    then show ?thesis using c1 by (meson converse_rtranclp_into_rtranclp)
  next
    case False
    then have "\<forall>th \<in> set ths. t_at th = Done" using no_deadlock [of q out ths] less.prems c by simp
    then show ?thesis using c by auto
  qed
qed

subsection \<open>First in, first out\<close>

text \<open>The values in the buffer, oldest first.\<close>

definition buffer :: "demo \<Rightarrow> int list" where
  "buffer = (\<lambda>((q, out), ths). map (\<lambda>k. q_data q ! nat ((q_head q + int k) mod int QSIZE)) [0..<nat (tsum stock ths)])"

definition tail_inv :: "queue \<Rightarrow> thread list \<Rightarrow> bool" where
  "tail_inv q ths \<longleftrightarrow> q_tail q = (q_head q + tsum stock ths) mod int QSIZE"

text \<open>The number of values: between the units of \<open>full\<close> and the slots not in \<open>empty\<close>, with a place left for
  each producer and a value for each consumer that is at work on the buffer.\<close>

lemma stock_bounds:
  assumes "demo_inv ((q, out), ths)"
  shows "0 \<le> tsum stock ths" and "tsum stock ths \<le> int QSIZE"
    and "t < length ths \<Longrightarrow> t_at (ths ! t) \<in> {Q_Cell, Q_Index} \<Longrightarrow> t_role (ths ! t) = Producer \<Longrightarrow> tsum stock ths < int QSIZE"
    and "t < length ths \<Longrightarrow> t_at (ths ! t) \<in> {Q_Cell, Q_Index} \<Longrightarrow> t_role (ths ! t) = Consumer \<Longrightarrow> 0 < tsum stock ths"
proof -
  have counts: "sc_count (sem_of S q) = capacity S - tsum (used S) ths" "0 \<le> sc_count (sem_of S q)" for S
    using assms unfolding demo_inv_def count_inv_def queue_wf_def prod.case by blast+
  define busy where "busy r (th :: thread) = (of_bool (t_at th \<in> {Q_Cell, Q_Index} \<and> t_role th = r) :: int)" for r th
  have up: "stock th + busy Producer th \<le> used Empty th" and lo: "busy Consumer th - stock th \<le> used Full th" for th
    by (cases "t_role th"; cases "t_at th"; simp add: stock_def used_def wait_sem_def moved_def claimed_def posted_def busy_def)+
  have "tsum (\<lambda>th. stock th + busy Producer th) ths \<le> tsum (used Empty) ths"
    and "tsum (\<lambda>th. busy Consumer th + - stock th) ths \<le> tsum (used Full) ths"
    using up lo by (intro tsum_mono, simp)+
  then have sums: "tsum stock ths + tsum (busy Producer) ths \<le> 4" "tsum (busy Consumer) ths - tsum stock ths \<le> 0"
    using counts(2) [of Empty] counts(2) [of Full] counts(1) [of Empty] counts(1) [of Full] unfolding tsum_add tsum_neg by simp_all
  have nn: "0 \<le> busy r th" for r th by (simp add: busy_def)
  note z = tsum_nonneg [of "busy Producer", OF nn] tsum_nonneg [of "busy Consumer", OF nn]
  show "0 \<le> tsum stock ths" "tsum stock ths \<le> int QSIZE" using sums z [of ths] by simp_all
  show "tsum stock ths < int QSIZE" if "t < length ths" "t_at (ths ! t) \<in> {Q_Cell, Q_Index}" "t_role (ths ! t) = Producer"
    using sums(1) tsum_member [of "busy Producer", OF nn that(1)] that by (auto simp: busy_def)
  show "0 < tsum stock ths" if "t < length ths" "t_at (ths ! t) \<in> {Q_Cell, Q_Index}" "t_role (ths ! t) = Consumer"
    using sums(2) tsum_member [of "busy Consumer", OF nn that(1)] that by (auto simp: busy_def)
qed

lemma stock_step:
  assumes "thread_step th (q, out) = Some (th', q', out')" and "queue_wf q" and "thread_ok q th"
  shows "t_at th \<noteq> Q_Index \<Longrightarrow> stock th' = stock th"
    and "t_at th = Q_Index \<Longrightarrow> stock th' = stock th + (case t_role th of Producer \<Rightarrow> 1 | Consumer \<Rightarrow> -1)"
proof -
  have c: "t_at th \<noteq> Crash" using assms(3) by (simp add: thread_ok_def)
  show "t_at th \<noteq> Q_Index \<Longrightarrow> stock th' = stock th"
    using assms(1,2) c by (cases rule: step_cases; cases "t_role th"; simp add: stock_def moved_def)
  show "t_at th = Q_Index \<Longrightarrow> stock th' = stock th + (case t_role th of Producer \<Rightarrow> 1 | Consumer \<Rightarrow> -1)"
    using assms(1,2) c by (cases rule: step_cases; cases "t_role th"; simp add: stock_def moved_def)
qed

lemma index_step:
  assumes "thread_step th (q, out) = Some (th', q', out')" and "queue_wf q" and "t_at th = Q_Index"
  shows "q' = (case t_role th of Producer \<Rightarrow> q\<lparr>q_tail := (q_tail q + 1) mod 4\<rparr> | Consumer \<Rightarrow> q\<lparr>q_head := (q_head q + 1) mod 4\<rparr>)"
proof -
  have "t_at th \<noteq> Crash" using assms(3) by simp
  with assms(1,2) show ?thesis by (cases rule: step_cases) (simp_all add: assms(3))
qed

lemma cells_differ: "n < 4 \<Longrightarrow> k < n \<Longrightarrow> 0 \<le> h \<Longrightarrow> nat ((h + int k) mod 4) \<noteq> nat ((h + int n) mod 4)"
proof
  assume *: "n < 4" "k < n" "0 \<le> h" "nat ((h + int k) mod 4) = nat ((h + int n) mod 4)"
  then have "(h + int k) mod 4 = (h + int n) mod 4" by simp
  then have "(int n - int k) mod 4 = 0" by (metis add_diff_cancel_left mod_eq_dvd_iff dvd_eq_mod_eq_0)
  then show False using * by simp
qed

text \<open>What a step of a thread does to the buffer: a producer that moves \<open>tail\<close> appends its value, a consumer
  that moves \<open>head\<close> takes the oldest one, and every other step leaves the values in the buffer alone.\<close>

lemma buffer_run:
  assumes inv: "demo_inv ((q, out), ths)" and tail: "tail_inv q ths" and t: "t < length ths"
    and step: "thread_step (ths ! t) (q, out) = Some (th, q', out')"
  shows "tail_inv q' (ths[t := th])"
    and "t_at (ths ! t) \<noteq> Q_Index \<Longrightarrow> buffer ((q', out'), ths[t := th]) = buffer ((q, out), ths)"
    and "t_at (ths ! t) = Q_Index \<Longrightarrow> t_role (ths ! t) = Producer \<Longrightarrow> length (buffer ((q, out), ths)) < QSIZE
      \<and> buffer ((q', out'), ths[t := th]) = buffer ((q, out), ths) @ [t_i (ths ! t)]"
    and "t_at (ths ! t) = Q_Index \<Longrightarrow> t_role (ths ! t) = Consumer
      \<Longrightarrow> buffer ((q, out), ths) = t_v (ths ! t) # buffer ((q', out'), ths[t := th])"
proof -
  let ?n = "tsum stock ths"
  have wf: "queue_wf q" and ok: "thread_ok q (ths ! t)" using inv t by (auto simp: demo_inv_def list_all_length)
  then have c: "t_at (ths ! t) \<noteq> Crash" by (simp add: thread_ok_def)
  have h: "0 \<le> q_head q" "q_head q < 4" "length (q_data q) = 4" using wf by (simp_all add: queue_wf_def)
  note bounds = stock_bounds [OF inv] and sum = sum_list_map_update [OF t, where f = stock and x = th]
  note stk = stock_step [OF step wf ok]
  have same: "q_head q' = q_head q \<and> q_tail q' = q_tail q" if "t_at (ths ! t) \<noteq> Q_Index"
    using step wf c by (cases rule: step_cases) (use that in simp_all)
  have cells: "q_data q' ! nat ((q_head q + int k) mod 4) = q_data q ! nat ((q_head q + int k) mod 4)"
    if "t_at (ths ! t) \<noteq> Q_Index" "k < nat ?n" for k
  proof (cases "t_at (ths ! t) = Q_Cell \<and> t_role (ths ! t) = Producer")
    case True
    then have "?n < 4" using bounds(3) [OF t] by simp
    then have "nat ?n < 4" using bounds(1) by simp
    then have other: "nat (q_tail q) \<noteq> nat ((q_head q + int k) mod 4)"
      using cells_differ [of "nat ?n" k "q_head q"] that(2) bounds(1) h(1) tail by (auto simp: tail_inv_def)
    show ?thesis
      using step wf c by (cases rule: step_cases) (use True other in simp_all)
  next
    case False
    show ?thesis using step wf c by (cases rule: step_cases) (use False that in simp_all)
  qed
  show "buffer ((q', out'), ths[t := th]) = buffer ((q, out), ths)" if "t_at (ths ! t) \<noteq> Q_Index"
    using same [OF that] cells [OF that] sum stk(1) [OF that] by (simp add: buffer_def)
  have put: "tail_inv q' (ths[t := th]) \<and> length (buffer ((q, out), ths)) < QSIZE
      \<and> buffer ((q', out'), ths[t := th]) = buffer ((q, out), ths) @ [t_i (ths ! t)]"
    if "t_at (ths ! t) = Q_Index" "t_role (ths ! t) = Producer"
  proof -
    have q': "q_data q' = q_data q" "q_head q' = q_head q" "q_tail q' = (q_tail q + 1) mod 4"
      using index_step [OF step wf that(1)] that(2) by simp_all
    have n: "?n < 4" "tsum stock (ths[t := th]) = ?n + 1" using bounds(3) [OF t] that sum stk(2) by simp_all
    have v: "q_data q ! nat (q_tail q) = t_i (ths ! t)" using ok that by (simp add: thread_ok_def)
    have "nat (?n + 1) = Suc (nat ?n)" using bounds(1) by simp
    then show ?thesis
      using q' n v tail bounds(1) by (simp add: buffer_def tail_inv_def mod_add_left_eq add.assoc [symmetric])
  qed
  have get: "tail_inv q' (ths[t := th]) \<and> buffer ((q, out), ths) = t_v (ths ! t) # buffer ((q', out'), ths[t := th])"
    if "t_at (ths ! t) = Q_Index" "t_role (ths ! t) = Consumer"
  proof -
    have q': "q_data q' = q_data q" "q_tail q' = q_tail q" "q_head q' = (q_head q + 1) mod 4"
      using index_step [OF step wf that(1)] that(2) by simp_all
    have n: "0 < ?n" "tsum stock (ths[t := th]) = ?n - 1" using bounds(4) [OF t] that sum stk(2) by simp_all
    have v: "t_v (ths ! t) = q_data q ! nat (q_head q)" using ok that by (simp add: thread_ok_def)
    have s: "nat ?n = Suc (nat (?n - 1))" using n(1) by simp
    have "((q_head q + 1) mod 4 + int k) mod 4 = (q_head q + int (Suc k)) mod 4" for k
      by (simp only: mod_add_left_eq of_nat_Suc add.assoc)
    moreover have "[0..<nat ?n] = 0 # map Suc [0..<nat (?n - 1)]" unfolding s by (simp add: upt_conv_Cons map_Suc_upt del: upt_Suc)
    moreover have "(q_head q + ?n) mod 4 = ((q_head q + 1) mod 4 + (?n - 1)) mod 4" by (simp add: mod_add_left_eq)
    ultimately show ?thesis using q' n v tail h(1,2) by (simp add: buffer_def tail_inv_def o_def)
  qed
  show "length (buffer ((q, out), ths)) < QSIZE \<and> buffer ((q', out'), ths[t := th]) = buffer ((q, out), ths) @ [t_i (ths ! t)]"
    if "t_at (ths ! t) = Q_Index" "t_role (ths ! t) = Producer" using put [OF that] by blast
  show "buffer ((q, out), ths) = t_v (ths ! t) # buffer ((q', out'), ths[t := th])"
    if "t_at (ths ! t) = Q_Index" "t_role (ths ! t) = Consumer" using get [OF that] by blast
  show "tail_inv q' (ths[t := th])"
  proof (cases "t_at (ths ! t) = Q_Index")
    case True
    then show ?thesis using put get by (cases "t_role (ths ! t)") auto
  next
    case False
    then show ?thesis using same tail sum stk(1) by (simp add: tail_inv_def)
  qed
qed

lemma buffer_nudge:
  assumes "t < length ths" and "nudged (ths ! t) a"
  shows "buffer (s, ths[t := (ths ! t)\<lparr>t_at := a\<rparr>]) = buffer (s, ths)"
    and "tail_inv q (ths[t := (ths ! t)\<lparr>t_at := a\<rparr>]) = tail_inv q ths"
  using nudged_same(4) [OF assms(2)] sum_list_map_same [OF assms(1), of stock]
  by (cases s; simp add: buffer_def tail_inv_def)+

definition fifo_effect :: "demo \<Rightarrow> demo \<Rightarrow> bool" where
  "fifo_effect c c' \<longleftrightarrow> buffer c' = buffer c \<or> (\<exists>th \<in> set (snd c). t_at th = Q_Index \<and>
     (case t_role th of Producer \<Rightarrow> length (buffer c) < QSIZE \<and> buffer c' = buffer c @ [t_i th]
      | Consumer \<Rightarrow> buffer c = t_v th # buffer c'))"

definition fifo_inv :: "demo \<Rightarrow> bool" where
  "fifo_inv c \<longleftrightarrow> demo_inv c \<and> tail_inv (fst (fst c)) (snd c)"

lemma fifo_step:
  assumes "sup demo_step spurious c c'" and "fifo_inv c"
  shows "fifo_inv c' \<and> fifo_effect c c'"
proof -
  have inv: "demo_inv c'" using assms demo_inv_any by (simp add: fifo_inv_def)
  have one: "nudged (th :: thread) P_Unlock" if "t_at th = P_Signal" for th using that by (simp add: nudged_def)
  have two: "nudged (th :: thread) W_Relock" if "t_at th = W_Sleep" for th using that by (simp add: nudged_def)
  have "demo_step c c' \<Longrightarrow> fifo_inv c \<Longrightarrow> tail_inv (fst (fst c')) (snd c') \<and> fifo_effect c c'"
  proof (induction rule: demo_step.induct)
    case (run t ths s th s')
    obtain q out q' out' where s: "s = (q, out)" "s' = (q', out')" by (cases s; cases s')
    have i: "demo_inv ((q, out), ths)" "tail_inv q ths" using run(3) s by (simp_all add: fifo_inv_def)
    note b = buffer_run [OF i run(1) run(2) [unfolded s]]
    have "fifo_effect (s, ths) (s', ths[t := th])"
    proof (cases "t_at (ths ! t) = Q_Index")
      case True
      then show ?thesis
        using b(3,4) run(1) unfolding fifo_effect_def s
        by (cases "t_role (ths ! t)") (auto intro!: bexI [of _ "ths ! t"])
    next
      case False
      then show ?thesis using b(2) s by (simp add: fifo_effect_def)
    qed
    then show ?case using b(1) s by simp
  next
    case (signal_none t ths s)
    then show ?case
      using buffer_nudge [OF signal_none(1) one [OF signal_none(2)]] by (simp add: fifo_effect_def fifo_inv_def)
  next
    case (signal_one t ths u s)
    let ?a = "ths[t := (ths ! t)\<lparr>t_at := P_Unlock\<rparr>]"
    have sl: "t_at (ths ! u) = W_Sleep" using signal_one(4) by (simp add: sleeps_on_def)
    then have "u \<noteq> t" using signal_one(2) by auto
    then have u: "u < length ?a" "?a ! u = ths ! u" using signal_one(3) by simp_all
    show ?case
      using buffer_nudge [OF signal_one(1) one [OF signal_one(2)]] buffer_nudge [OF u(1), unfolded u(2), OF two [OF sl]] signal_one(5)
      by (simp add: fifo_effect_def fifo_inv_def)
  qed
  moreover have "spurious c c' \<Longrightarrow> fifo_inv c \<Longrightarrow> tail_inv (fst (fst c')) (snd c') \<and> fifo_effect c c'"
  proof (induction rule: spurious.induct)
    case (wake u ths s)
    then show ?case using buffer_nudge [OF wake(1) two [OF wake(2)]] by (simp add: fifo_effect_def fifo_inv_def)
  qed
  ultimately show ?thesis using assms inv by (auto simp: fifo_inv_def)
qed

lemma fifo_inv_runs: "demo_run c c' \<Longrightarrow> fifo_inv c \<Longrightarrow> fifo_inv c'"
  by (induction rule: rtranclp_induct) (use fifo_step in blast)+

lemma fifo_inv_start:
  assumes "length (q_data q) = QSIZE" and "list_all fresh_thread ths"
  shows "fifo_inv ((q_init q, []), ths) \<and> buffer ((q_init q, []), ths) = []"
proof -
  have "tsum stock ths = 0"
    by (rule tsum_zero)
      (use assms(2) in \<open>auto simp: list_all_iff fresh_thread_def new_producer_def new_consumer_def stock_def moved_def turns_def\<close>)
  then show ?thesis using demo_inv_start [OF assms] by (simp add: fifo_inv_def tail_inv_def buffer_def q_init_def)
qed

subsection \<open>One producer and one consumer\<close>

definition produced :: "event list \<Rightarrow> int list" where
  "produced out = concat (map (\<lambda>e. case e of Produced i \<Rightarrow> [i] | Consumed i \<Rightarrow> []) out)"

definition consumed :: "event list \<Rightarrow> int list" where
  "consumed out = concat (map (\<lambda>e. case e of Produced i \<Rightarrow> [] | Consumed i \<Rightarrow> [i]) out)"

definition in_order :: "demo \<Rightarrow> bool" where
  "in_order c \<longleftrightarrow> (\<exists>q out p d. c = ((q, out), [p, d]) \<and> t_role p = Producer \<and> t_role d = Consumer
     \<and> buffer c = [moved d + 1..moved p] \<and> produced out = [1..turns p] \<and> consumed out = [1..turns d]
     \<and> (t_at d \<in> {Q_Unlock, P_Lock, P_Inc, P_Signal, P_Unlock, Print} \<longrightarrow> t_v d = t_i d + 1))"

text \<open>What a step adds to the output and to the counts.\<close>

lemma own_step:
  assumes "thread_step th (q, out) = Some (th', q', out')" and "queue_wf q" and "t_at th \<noteq> Crash"
  shows "turns th' = turns th + of_bool (t_at th = Print)"
    and "moved th' = moved th + of_bool (t_at th = Q_Index)"
    and "out' = out @ (if t_at th = Print then [case t_role th of Producer \<Rightarrow> Produced (t_i th) | Consumer \<Rightarrow> Consumed (t_v th)] else [])"
    and "t_at th' \<in> {Q_Unlock, P_Lock, P_Inc, P_Signal, P_Unlock, Print} \<Longrightarrow>
      t_v th' = t_v th \<and> t_i th' = t_i th \<and> t_at th \<in> {Q_Index, Q_Unlock, P_Lock, P_Inc, P_Unlock}"
  using assms by (cases rule: step_cases; simp add: moved_def)+

lemma produced_append [simp]: "produced (xs @ ys) = produced xs @ produced ys" "consumed (xs @ ys) = consumed xs @ consumed ys"
  by (simp_all add: produced_def consumed_def)

lemma upto_snoc: "a \<le> b + 1 \<Longrightarrow> [a..b] @ [b + 1] = [a..b + (1::int)]"
  using upto_rec2 [of a "b + 1"] by simp

lemma in_order_run:
  assumes inv: "fifo_inv (s, ths)" and ord: "in_order (s, ths)" and t: "t < length ths" and step: "thread_step (ths ! t) s = Some (th, s')"
  shows "in_order (s', ths[t := th])"
proof -
  obtain q out p d where c: "s = (q, out)" "ths = [p, d]" and roles: "t_role p = Producer" "t_role d = Consumer"
    and buf: "buffer ((q, out), [p, d]) = [moved d + 1..moved p]" and outs: "produced out = [1..turns p]" "consumed out = [1..turns d]"
    and v: "t_at d \<in> {Q_Unlock, P_Lock, P_Inc, P_Signal, P_Unlock, Print} \<longrightarrow> t_v d = t_i d + 1"
    using ord by (auto simp: in_order_def)
  obtain q' out' where s': "s' = (q', out')" by (cases s')
  have i: "demo_inv ((q, out), [p, d])" "tail_inv q [p, d]" using inv c by (simp_all add: fifo_inv_def)
  have wf: "queue_wf q" and ok: "thread_ok q p" "thread_ok q d" using i(1) by (simp_all add: demo_inv_def)
  have le: "moved d \<le> moved p" using stock_bounds(1) [OF i(1)] roles by (simp add: stock_def)
  have nc: "t_at p \<noteq> Crash" "t_at d \<noteq> Crash" and nn: "0 \<le> turns p" "0 \<le> turns d" using ok by (simp_all add: thread_ok_def)
  have ti: "t_i p = turns p + 1" "t_i d = turns d" using roles by (simp_all add: turns_def)
  consider "t = 0" | "t = 1" using t c by fastforce
  then show ?thesis
  proof cases
    case 1
    then have st: "thread_step p (q, out) = Some (th, q', out')" using step c s' by simp
    note b = buffer_run [OF i, of 0, simplified, OF st] and o = own_step [OF st wf nc(1)] and r = local_ok [OF st wf ok(1)]
    have "buffer ((q', out'), [th, d]) = [moved d + 1..moved th]"
    proof (cases "t_at p = Q_Index")
      case True
      then have "moved p = turns p" by (simp add: moved_def)
      then show ?thesis using b(3) True roles buf o(2) ti le upto_snoc [of "moved d + 1" "moved p"] by simp
    next
      case False
      then show ?thesis using b(2) buf o(2) by simp
    qed
    moreover have "produced out' = [1..turns th] \<and> consumed out' = [1..turns d]"
      using o(1,3) outs roles ti nn upto_snoc [of 1 "turns p"] by (cases "t_at p = Print") (simp_all add: produced_def consumed_def)
    ultimately show ?thesis using 1 c s' roles r(1) v by (simp add: in_order_def)
  next
    case 2
    then have st: "thread_step d (q, out) = Some (th, q', out')" using step c s' by simp
    note b = buffer_run [OF i, of 1, simplified, OF st] and o = own_step [OF st wf nc(2)] and r = local_ok [OF st wf ok(2)]
    have "buffer ((q', out'), [p, th]) = [moved th + 1..moved p] \<and> (t_at d = Q_Index \<longrightarrow> t_v d = t_i d + 1)"
    proof (cases "t_at d = Q_Index")
      case True
      then have m: "moved d = turns d" by (simp add: moved_def)
      have "t_v d # buffer ((q', out'), [p, th]) = [moved d + 1..moved p]" using b(4) True roles buf by simp
      then have "moved d + 1 \<le> moved p" by (metis list.distinct(1) upto_empty not_le)
      then show ?thesis
        using b(4) True roles buf o(2) m ti upto_rec1 [of "moved d + 1" "moved p"] by (simp add: add.commute)
    next
      case False
      then show ?thesis using b(2) buf o(2) by simp
    qed
    moreover have "produced out' = [1..turns p] \<and> consumed out' = [1..turns th]"
      using o(1,3) outs roles ti nn v upto_snoc [of 1 "turns d"] by (cases "t_at d = Print") (simp_all add: produced_def consumed_def)
    moreover have "t_at th \<in> {Q_Unlock, P_Lock, P_Inc, P_Signal, P_Unlock, Print} \<longrightarrow> t_v th = t_i th + 1"
      using o(4) v calculation(1) by auto
    ultimately show ?thesis using 2 c s' roles r(1) by (simp add: in_order_def)
  qed
qed

lemma in_order_nudge:
  assumes "in_order (s, ths)" and "t < length ths" and "nudged (ths ! t) a"
  shows "in_order (s, ths[t := (ths ! t)\<lparr>t_at := a\<rparr>])"
proof -
  obtain q out p d where c: "s = (q, out)" "ths = [p, d]" and o: "t_role p = Producer" "t_role d = Consumer"
    "buffer ((q, out), [p, d]) = [moved d + 1..moved p]" "produced out = [1..turns p]" "consumed out = [1..turns d]"
    "t_at d \<in> {Q_Unlock, P_Lock, P_Inc, P_Signal, P_Unlock, Print} \<longrightarrow> t_v d = t_i d + 1"
    using assms(1) by (auto simp: in_order_def)
  have m: "moved (th\<lparr>t_at := a\<rparr>) = moved th" if "nudged th a" for th
    using that unfolding nudged_def by (elim disjE conjE; simp add: moved_def)
  consider "t = 0" | "t = 1" using assms(2) c by fastforce
  then show ?thesis
  proof cases
    case 1
    then show ?thesis using buffer_nudge(1) [OF assms(2,3), of s] c o m [of p] assms(3) by (simp add: in_order_def)
  next
    case 2
    then have "nudged d a" using assms(3) c by simp
    then have "t_at (d\<lparr>t_at := a\<rparr>) \<in> {Q_Unlock, P_Lock, P_Inc, P_Signal, P_Unlock, Print}
        \<longrightarrow> t_v (d\<lparr>t_at := a\<rparr>) = t_i (d\<lparr>t_at := a\<rparr>) + 1"
      using o(6) unfolding nudged_def by (elim disjE conjE; simp)
    then show ?thesis using buffer_nudge(1) [OF assms(2,3), of s] c o m [of d] 2 assms(3) by (simp add: in_order_def)
  qed
qed

lemma in_order_step:
  assumes "sup demo_step spurious c c'" and "fifo_inv c" and "in_order c"
  shows "in_order c'"
proof -
  have "demo_step c c' \<Longrightarrow> fifo_inv c \<Longrightarrow> in_order c \<Longrightarrow> in_order c'"
  proof (induction rule: demo_step.induct)
    case (signal_one t ths u s)
    let ?a = "ths[t := (ths ! t)\<lparr>t_at := P_Unlock\<rparr>]"
    have sl: "t_at (ths ! u) = W_Sleep" using signal_one(4) by (simp add: sleeps_on_def)
    then have "u \<noteq> t" using signal_one(2) by auto
    then have u: "u < length ?a" "?a ! u = ths ! u" using signal_one(3) by simp_all
    have "in_order (s, ?a)" using signal_one by (intro in_order_nudge) (simp_all add: nudged_def)
    from in_order_nudge [OF this u(1)] have "in_order (s, ?a[u := (?a ! u)\<lparr>t_at := W_Relock\<rparr>])"
      using u sl by (simp add: nudged_def)
    then show ?case using u(2) by simp
  qed (auto intro: in_order_run in_order_nudge simp: nudged_def)
  moreover have "spurious c c' \<Longrightarrow> in_order c \<Longrightarrow> in_order c'"
    by (induction rule: spurious.induct) (auto intro: in_order_nudge simp: nudged_def)
  ultimately show ?thesis using assms by blast
qed

lemma in_order_runs: "demo_run c c' \<Longrightarrow> fifo_inv c \<Longrightarrow> in_order c \<Longrightarrow> fifo_inv c' \<and> in_order c'"
  by (induction rule: rtranclp_induct) (use fifo_step in_order_step in blast)+

text \<open>Part 6 of \<open>main\<close>: one producer and one consumer of \<open>n\<close> values each.\<close>

definition part6 :: "int \<Rightarrow> queue \<Rightarrow> int \<Rightarrow> int \<Rightarrow> demo" where
  "part6 n q v w = ((q_init q, []), [new_producer n v, new_consumer n w])"

lemma part6_start:
  assumes "length (q_data q) = QSIZE"
  shows "fifo_inv (part6 n q v w)" and "in_order (part6 n q v w)" and "tsum surplus (snd (part6 n q v w)) = 0"
    and "all_left (snd (part6 n q v w)) = 36 * (nat n + 1)"
proof -
  have fresh: "list_all fresh_thread [new_producer n v, new_consumer n w]" by (auto simp: fresh_thread_def)
  note f = fifo_inv_start [OF assms fresh]
  show "fifo_inv (part6 n q v w)" using f by (simp add: part6_def)
  let ?p = "new_producer n v" and ?d = "new_consumer n w"
  have new: "t_role ?p = Producer" "t_role ?d = Consumer" "moved ?p = 0" "moved ?d = 0" "turns ?p = 0" "turns ?d = 0" "t_at ?d = Loop"
    by (simp_all add: moved_def turns_def new_producer_def new_consumer_def)
  show "in_order (part6 n q v w)"
    unfolding part6_def in_order_def
    by (rule exI [of _ "q_init q"], rule exI [of _ "[]"], rule exI [of _ ?p], rule exI [of _ ?d])
      (use f new in \<open>simp add: produced_def consumed_def\<close>)
  show "tsum surplus (snd (part6 n q v w)) = 0"
    by (simp add: part6_def surplus_def goal_def new_producer_def new_consumer_def)
  show "all_left (snd (part6 n q v w)) = 36 * (nat n + 1)"
  proof -
    have "steps_left (new_producer n v) = nat n * 18 + 18" "steps_left (new_consumer n w) = nat n * 18 + 18"
      by (cases "0 \<le> n"; simp add: steps_left_def goal_def turns_def new_producer_def new_consumer_def)+
    then show ?thesis by (simp add: part6_def)
  qed
qed

lemma goals_run: "demo_run c c' \<Longrightarrow> map goal (snd c') = map goal (snd c) \<and> map t_role (snd c') = map t_role (snd c)"
proof (induction rule: rtranclp_induct)
  case (step c' c'')
  let ?P = "\<lambda>c c'. map goal (snd c') = map goal (snd c) \<and> map t_role (snd c') = map t_role (snd c)"
  have run: "goal th' = goal th \<and> t_role th' = t_role th" if "thread_step th s = Some (th', s')" for th th' s s'
    using that by (cases s; cases "t_role th"; auto simp: goal_def step_defs split: if_splits sum.splits)
  have "demo_step c' c'' \<Longrightarrow> ?P c' c''"
    by (induction rule: demo_step.induct) (auto simp: map_update list_update_same_conv nth_list_update dest!: run
        intro!: nth_equalityI)
  moreover have "spurious c' c'' \<Longrightarrow> ?P c' c''"
    by (induction rule: spurious.induct) (simp add: map_update list_update_same_conv)
  ultimately show ?case using step by auto
qed simp

lemma finished_output:
  assumes "in_order c" and "fifo_inv c" and "\<forall>th \<in> set (snd c). t_at th = Done" and "map goal (snd c) = [g, g]"
  shows "produced (snd (fst c)) = [1..g] \<and> consumed (snd (fst c)) = [1..g]"
proof -
  obtain q out p d where c: "c = ((q, out), [p, d])" and o: "produced out = [1..turns p]" "consumed out = [1..turns d]"
    using assms(1) by (auto simp: in_order_def)
  have "thread_ok q p" "thread_ok q d" using assms(2) c by (simp_all add: fifo_inv_def demo_inv_def)
  then show ?thesis using assms(3,4) c o by (simp add: thread_ok_def)
qed

lemma part6_inv:
  assumes "length (q_data q) = QSIZE" and "demo_run (part6 n q v w) c"
  shows "fifo_inv c" and "in_order c" and "demo_inv c" and "map goal (snd c) = [max 0 n, max 0 n]"
  using in_order_runs [OF assms(2) part6_start(1,2) [OF assms(1)]] goals_run [OF assms(2)]
  by (simp_all add: fifo_inv_def part6_def goal_def new_producer_def new_consumer_def)

lemma upto_goal: "[1..max 0 n] = [1..n]"
  by (cases "0 \<le> n") simp_all

lemma part6_finished:
  assumes "length (q_data q) = QSIZE" and "demo_run (part6 n q v w) c" and "\<forall>th \<in> set (snd c). t_at th = Done"
  shows "produced (snd (fst c)) = [1..n] \<and> consumed (snd (fst c)) = [1..n]"
  using finished_output [OF part6_inv(2,1) [OF assms(1,2)] assms(3) part6_inv(4) [OF assms(1,2)]] unfolding upto_goal .

lemma part6_finishes:
  assumes "length (q_data q) = QSIZE"
  shows "\<exists>c. demo_step\<^sup>*\<^sup>* (part6 n q v w) c \<and> demo_run (part6 n q v w) c \<and> (\<forall>th \<in> set (snd c). t_at th = Done)"
proof -
  have inv: "demo_inv (part6 n q v w)" using part6_start(1) [OF assms] by (simp add: fifo_inv_def)
  obtain c where c: "demo_step\<^sup>*\<^sup>* (part6 n q v w) c" "\<forall>th \<in> set (snd c). t_at th = Done"
    using runs_to_the_end [OF inv] part6_start(3) [OF assms, of n v w] by auto
  moreover have "demo_run (part6 n q v w) c" using c(1) by (rule rtranclp_mono [THEN predicate2D, rotated]) auto
  ultimately show ?thesis by blast
qed

subsection \<open>Properties\<close>

text \<open>C7: The buffer of Part 6 is a bounded first-in-first-out queue whatever the interleaving: with any
  number of producers and consumers, under every schedule and with spurious wakeups, no thread accesses
  memory outside \<open>data\<close>, at most one is inside the critical section, no semaphore goes below zero, and each
  step leaves the buffer alone, or appends the value of a producer to fewer than \<open>QSIZE\<close> values, or
  hands the oldest value to a consumer.\<close>

theorem buffer_is_fifo:
  assumes "length (q_data q) = QSIZE" and "list_all fresh_thread ths" and "demo_run ((q_init q, []), ths) ((q', out), ths')"
    and "sup demo_step spurious ((q', out), ths') c'"
  shows "length (buffer ((q', out), ths')) \<le> QSIZE \<and> fifo_effect ((q', out), ths') c'
    \<and> tsum in_q ths' \<le> 1 \<and> (\<forall>S. 0 \<le> sc_count (sem_of S q')) \<and> (\<forall>th \<in> set ths'. t_at th \<noteq> Crash)"
proof -
  have inv: "fifo_inv ((q', out), ths')"
    by (rule fifo_inv_runs [OF assms(3)]) (use fifo_inv_start [OF assms(1,2)] in simp)
  then have d: "demo_inv ((q', out), ths')" by (simp add: fifo_inv_def)
  have "length (buffer ((q', out), ths')) \<le> 4" using stock_bounds(2) [OF d] by (simp add: buffer_def)
  moreover have "tsum in_q ths' \<le> 1" using d by (simp add: demo_inv_def mutex_inv_def)
  moreover have "\<forall>S. 0 \<le> sc_count (sem_of S q')" using d by (simp add: demo_inv_def queue_wf_def)
  moreover have "\<forall>th \<in> set ths'. t_at th \<noteq> Crash" using d by (simp add: demo_inv_def list_all_iff thread_ok_def)
  ultimately show ?thesis using fifo_step [OF assms(4) inv] by simp
qed

definition blank_queue :: queue where
  "blank_queue = \<lparr>q_data = [0, 0, 0, 0], q_head = 0, q_tail = 0, q_lock = False, q_empty = semc_init 0, q_full = semc_init 0\<rparr>"

theorem buffer_is_fifo_witness:
  "fifo_effect (part6 12 blank_queue 0 0) ((q_init blank_queue, []), [(new_producer 12 0)\<lparr>t_at := W_Lock\<rparr>, new_consumer 12 0])"
proof -
  let ?ths = "[new_producer 12 0, new_consumer 12 0]"
  have len: "length (q_data blank_queue) = 4" by (simp add: blank_queue_def)
  have fresh: "list_all fresh_thread ?ths" by (auto simp: fresh_thread_def)
  have "demo_step ((q_init blank_queue, []), ?ths) ((q_init blank_queue, []), [(new_producer 12 0)\<lparr>t_at := W_Lock\<rparr>, new_consumer 12 0])"
    using demo_step.run [of 0 ?ths "(q_init blank_queue, [])"] by (simp add: thread_step_def producer_def new_producer_def)
  then have "sup demo_step spurious ((q_init blank_queue, []), ?ths)
      ((q_init blank_queue, []), [(new_producer 12 0)\<lparr>t_at := W_Lock\<rparr>, new_consumer 12 0])" by simp
  then show ?thesis
    using buffer_is_fifo [OF len fresh rtranclp.rtrancl_refl] by (simp add: part6_def)
qed

text \<open>C8: No wakeup is lost: for any producers and consumers of which the former make at most \<open>QSIZE\<close> values
  more than the latter take, and never fewer, a state in which no thread can go on without a spurious
  wakeup is one in which all have returned; and every state can reach such an end without one.\<close>

theorem no_lost_wakeup:
  assumes "length (q_data q) = QSIZE" and "list_all fresh_thread ths" and "0 \<le> tsum surplus ths" and "tsum surplus ths \<le> int QSIZE"
    and "demo_run ((q_init q, []), ths) c"
  shows "((\<nexists>c'. demo_step c c') \<longrightarrow> (\<forall>th \<in> set (snd c). t_at th = Done))
    \<and> (\<exists>c'. demo_step\<^sup>*\<^sup>* c c' \<and> (\<forall>th \<in> set (snd c'). t_at th = Done))"
proof -
  have inv: "demo_inv c" by (rule demo_inv_runs [OF assms(5) demo_inv_start [OF assms(1,2)]])
  have "map surplus ths' = map2 (\<lambda>r g. case r of Producer \<Rightarrow> g | Consumer \<Rightarrow> - g) (map t_role ths') (map goal ths')" for ths'
    by (induction ths') (simp_all add: surplus_def)
  then have "tsum surplus (snd c) = tsum surplus ths" using goals_run [OF assms(5)] by simp
  then have s: "0 \<le> tsum surplus (snd c)" "tsum surplus (snd c) \<le> int QSIZE" using assms(3,4) by simp_all
  obtain q' out ths' where c: "c = ((q', out), ths')" by (cases c) auto
  show ?thesis using no_deadlock [of q' out ths'] runs_to_the_end [OF inv s] inv s c by simp
qed

theorem no_lost_wakeup_witness:
  "\<exists>c'. demo_step\<^sup>*\<^sup>* (part6 12 blank_queue 0 0) c' \<and> (\<forall>th \<in> set (snd c'). t_at th = Done)"
proof -
  have "list_all fresh_thread [new_producer 12 0, new_consumer 12 0]" by (auto simp: fresh_thread_def)
  moreover have "tsum surplus [new_producer 12 0, new_consumer 12 0] = 0" using part6_start(3) [of blank_queue 12 0 0]
    by (simp add: part6_def blank_queue_def)
  ultimately show ?thesis
    using no_lost_wakeup [of blank_queue "[new_producer 12 0, new_consumer 12 0]" "part6 12 blank_queue 0 0"]
    by (simp add: part6_def blank_queue_def)
qed

text \<open>C31: Part 6 of \<open>main\<close>: one producer and one consumer of \<open>n\<close> values. The two threads make at most
  \<open>36 * (n + 1)\<close> steps, and two more for each spurious wakeup; when neither can go on, both have returned, and
  the output shows every value produced once, in order, and consumed once, in the same order.\<close>

theorem part6_delivers_in_order:
  assumes "length (q_data q) = QSIZE" and "demo_path m k (part6 n q v w) c"
  shows "m \<le> 36 * (nat n + 1) + 2 * k \<and> (\<exists>i. consumed (snd (fst c)) = [1..i] \<and> i \<le> max 0 n)
    \<and> ((\<nexists>c'. demo_step c c') \<longrightarrow> (\<forall>th \<in> set (snd c). t_at th = Done)
         \<and> produced (snd (fst c)) = [1..n] \<and> consumed (snd (fst c)) = [1..n])"
proof -
  note run = demo_path_run [OF assms(2)] and start = part6_start [OF assms(1), of n v w]
  note inv = part6_inv [OF assms(1) run]
  have d: "demo_inv (part6 n q v w)" using start(1) by (simp add: fifo_inv_def)
  obtain q' out p e where c: "c = ((q', out), [p, e])" and o: "consumed out = [1..turns e]" using inv(2) by (auto simp: in_order_def)
  have "turns e \<le> max 0 n" using inv(3,4) c by (simp add: demo_inv_def thread_ok_def)
  moreover have "\<forall>th \<in> set (snd c). t_at th = Done" if "\<nexists>c'. demo_step c c'"
  proof -
    have "map surplus [p, e] = [max 0 n, - max 0 n]" using inv(2,4) c by (auto simp: in_order_def surplus_def)
    then have "tsum surplus [p, e] = 0" by simp
    then show ?thesis using no_deadlock [of q' out "[p, e]"] inv(3) that c by simp
  qed
  ultimately show ?thesis
    using demo_path_bound [OF assms(2) d] start(4) part6_finished [OF assms(1) run] o c by auto
qed

theorem part6_delivers_in_order_witness:
  "\<exists>c. demo_run (part6 PRODUCE_COUNT blank_queue 0 0) c \<and> consumed (snd (fst c)) = [1..12]"
proof -
  have len: "length (q_data blank_queue) = 4" by (simp add: blank_queue_def)
  obtain c' where c': "demo_step\<^sup>*\<^sup>* (part6 12 blank_queue 0 0) c'" "\<forall>th \<in> set (snd c'). t_at th = Done"
    using part6_finishes [OF len] by blast
  have "\<exists>m. demo_path m 0 (part6 12 blank_queue 0 0) c'"
    using c'(1) by (induction rule: rtranclp_induct) (auto intro: demo_path.intros)
  then obtain m where m: "demo_path m 0 (part6 12 blank_queue 0 0) c'" ..
  have no: "\<nexists>c''. demo_step c' c''"
  proof
    assume "\<exists>c''. demo_step c' c''"
    then obtain c'' where "demo_step c' c''" ..
    then show False using c'(2)
      by cases (auto simp: step_defs all_set_conv_all_nth split: role.splits)
  qed
  show ?thesis using part6_delivers_in_order [OF len m] no demo_path_run [OF m] by blast
qed
end
