(* ===== verification/Thread_Text.thy ===== *)
theory Thread_Text
  imports Interleave
begin

text \<open>
  Parts 3 to 5 of \<open>recitation/threads/thread_test.c\<close>: \<open>upper_not_reentrant\<close> with its static buffer,
  \<open>upper_reentrant\<close>, the threads \<open>thread_fn_bad\<close> and \<open>thread_fn_ok\<close> that run them, one byte at a time, and
  the bounded reading and printing of a label (\<open>read_label_bounded\<close>, \<open>chomp_newline\<close>, \<open>fn_bounds\<close>).
  \<open>stdin\<close> is the text still to be read. Buffers on the stack start with arbitrary bytes.
\<close>

subsection \<open>Upper case\<close>

text \<open>\<open>toupper\<close> of the C locale.\<close>

definition c_toupper :: "char \<Rightarrow> char" where
  "c_toupper c = (let n = of_char c :: nat in if 97 \<le> n \<and> n \<le> 122 then char_of (n - 32) else c)"

definition upper_byte :: "string \<Rightarrow> nat \<Rightarrow> string \<Rightarrow> string res" where
  "upper_byte s i buf = bindR (idx s (int i)) (\<lambda>c. store buf (int i) (c_toupper c))"

definition upper_into :: "string \<Rightarrow> nat \<Rightarrow> string \<Rightarrow> string res" where
  "upper_into s n buf = bindR (foldR (upper_byte s) [0..<n] buf) (\<lambda>buf. store buf (int n) NUL)"

text \<open>The static buffer is passed and returned; the result of the call is a pointer to it.\<close>

abbreviation (input) STATIC_BUF :: nat where "STATIC_BUF \<equiv> 64"

definition upper_not_reentrant :: "string \<Rightarrow> string \<Rightarrow> string res" where
  "upper_not_reentrant s buf =
     (let n = c_strlen s; n = (if n \<ge> STATIC_BUF then STATIC_BUF - 1 else n) in upper_into s n buf)"

definition upper_reentrant :: "string \<Rightarrow> string \<Rightarrow> nat \<Rightarrow> string res" where
  "upper_reentrant s out outcap =
     (if outcap = 0 then Inr out
      else let n = c_strlen s; n = (if n \<ge> outcap then outcap - 1 else n) in upper_into s n out)"

subsection \<open>The threads, byte by byte\<close>

text \<open>Where a thread is in its call: before it, before byte \<open>i\<close> of \<open>n\<close>, about to return; then it stores the
  pointer (\<open>thread_fn_bad\<close>) and ends. A fault is a place of its own.\<close>

datatype up_at = Up_Start | Up_Copy nat nat | Up_Return | Up_Done | Up_Fault

record upper =
  u_in :: string
  u_buf :: nat
  u_cap :: nat
  u_out :: "nat option"
  u_at :: up_at

text \<open>The memory is a list of buffers and \<open>u_buf\<close> the one that the thread writes. \<open>upper_write\<close> is one write.\<close>

definition upper_write :: "upper \<Rightarrow> (string \<Rightarrow> string res) \<Rightarrow> up_at \<Rightarrow> string list \<Rightarrow> upper \<times> string list" where
  "upper_write u f at mem =
     (case bindR (idx mem (int (u_buf u))) f of Inl e \<Rightarrow> (u\<lparr>u_at := Up_Fault\<rparr>, mem) | Inr b \<Rightarrow> (u\<lparr>u_at := at\<rparr>, mem[u_buf u := b]))"

definition upper_call :: "upper \<Rightarrow> string list \<Rightarrow> (upper \<times> string list) option" where
  "upper_call u mem =
     (case u_at u of
        Up_Start \<Rightarrow> let n = c_strlen (u_in u) in
          Some (u\<lparr>u_at := if u_cap u = 0 then Up_Return else Up_Copy 0 (if n \<ge> u_cap u then u_cap u - 1 else n)\<rparr>, mem)
      | Up_Copy i n \<Rightarrow>
          Some (if i < n then upper_write u (upper_byte (u_in u) i) (Up_Copy (Suc i) n) mem
                else upper_write u (\<lambda>b. store b (int n) NUL) Up_Return mem)
      | _ \<Rightarrow> None)"

definition thread_fn_bad :: "upper \<Rightarrow> string list \<Rightarrow> (upper \<times> string list) option" where
  "thread_fn_bad u mem =
     (if u_at u = Up_Return then Some (u\<lparr>u_out := Some (u_buf u), u_at := Up_Done\<rparr>, mem) else upper_call u mem)"

definition thread_fn_ok :: "upper \<Rightarrow> string list \<Rightarrow> (upper \<times> string list) option" where
  "thread_fn_ok u mem = (if u_at u = Up_Return then Some (u\<lparr>u_at := Up_Done\<rparr>, mem) else upper_call u mem)"

definition new_upper :: "string \<Rightarrow> nat \<Rightarrow> nat \<Rightarrow> upper" where
  "new_upper s b cap = \<lparr>u_in = s, u_buf = b, u_cap = cap, u_out = None, u_at = Up_Start\<rparr>"

subsection \<open>Reading and printing a label\<close>

definition chomp_newline :: "string \<Rightarrow> string res" where
  "chomp_newline s =
     (let n = c_strlen s in if n \<noteq> 0 \<and> s ! (n - 1) = newline then store s (int (n - 1)) NUL else Inr s)"

text \<open>\<open>while ((c = getchar()) != '\n' && c != EOF);\<close>\<close>

fun skip_line :: "string \<Rightarrow> string" where
  "skip_line [] = []"
| "skip_line (c # cs) = (if c = newline then cs else skip_line cs)"

text \<open>\<open>wait_for_enter\<close>: what it prints and what it leaves of \<open>stdin\<close>.\<close>

definition wait_for_enter :: "string option \<Rightarrow> string \<Rightarrow> string \<times> string" where
  "wait_for_enter title stdin =
     ((case title of None \<Rightarrow> [] | Some t \<Rightarrow> if t = [] then [] else newline # ''===== '' @ t @ '' ====='' @ [newline])
        @ ''Press ENTER to continue...'' @ [newline], skip_line stdin)"

datatype label_note = No_Input | Longer_Than nat

text \<open>The result: \<open>dst\<close>, what is left of \<open>stdin\<close>, and what is printed to \<open>stderr\<close>.\<close>

definition read_label_bounded :: "string \<Rightarrow> nat \<Rightarrow> string \<Rightarrow> (string \<times> string \<times> label_note list) res" where
  "read_label_bounded dst cap stdin =
     (case if cap = 0 then None else fgets cap stdin of
        None \<Rightarrow> bindR (store dst 0 NUL) (\<lambda>dst. Inr (dst, stdin, [No_Input]))
      | Some (line, rest) \<Rightarrow>
          if length line < length dst then
            let dst = line @ NUL # drop (Suc (length line)) dst;
                truncated = newline \<notin> set (cstr dst);
                rest = (if truncated then skip_line rest else rest)
            in bindR (chomp_newline dst) (\<lambda>dst. Inr (dst, rest, if truncated then [Longer_Than (cap - 1)] else []))
          else Inl Out_Of_Bounds)"

text \<open>\<open>snprintf(buf, n, ...)\<close> of the text \<open>s\<close>: the length of \<open>s\<close>, and the buffer.\<close>

definition c_snprintf :: "nat \<Rightarrow> string \<Rightarrow> string \<Rightarrow> (nat \<times> string) res" where
  "c_snprintf n s buf =
     (if n = 0 then Inr (length s, buf)
      else if n \<le> length buf then let t = take (n - 1) s in Inr (length s, t @ NUL # drop (Suc (length t)) buf)
      else Inl Out_Of_Bounds)"

text \<open>\<open>fn_bounds\<close>: whether it warns, and the banner that it prints.\<close>

definition fn_bounds :: "string \<Rightarrow> string \<Rightarrow> string \<Rightarrow> (bool \<times> string) res" where
  "fn_bounds tag name local =
     bindR (c_snprintf 24 (''['' @ cstr tag @ '':'' @ cstr name @ '']'') local) (\<lambda>(need2, local).
     Inr (need2 \<ge> 24, ''thread-banner: '' @ cstr local @ [newline]))"

text \<open>The tag that \<open>main\<close> makes of the label, and whether it warns.\<close>

definition make_tag :: "string \<Rightarrow> string \<Rightarrow> (bool \<times> string) res" where
  "make_tag label tag =
     bindR (c_snprintf 20 (''TAG:'' @ cstr label) tag) (\<lambda>(need, tag). Inr (need \<ge> 20, tag))"


subsection \<open>The string functions alone\<close>

definition upper_text :: "string \<Rightarrow> string" where
  "upper_text s = map c_toupper s"

lemma c_toupper_NUL [simp]: "c_toupper c = NUL \<longleftrightarrow> c = NUL"
proof
  assume *: "c_toupper c = NUL"
  show "c = NUL"
  proof (cases "97 \<le> (of_char c :: nat) \<and> of_char c \<le> (122 :: nat)")
    case True
    then have "(of_char c - 32) mod 256 = (of_char c - 32 :: nat)" by (intro mod_less) linarith
    then have "(of_char (c_toupper c) :: nat) = of_char c - 32" using True by (simp add: c_toupper_def Let_def of_char_of)
    moreover have "(of_char (c_toupper c) :: nat) = 0" using * by simp
    ultimately show ?thesis using True by linarith
  next
    case False
    then have "c_toupper c = c" by (auto simp: c_toupper_def)
    then show ?thesis using * by simp
  qed
qed (simp add: c_toupper_def)

lemma upper_text_NUL: "NUL \<notin> set s \<Longrightarrow> NUL \<notin> set (upper_text s)"
  unfolding upper_text_def by (metis c_toupper_NUL imageE list.set_map)

lemma cstr_nth: "i < c_strlen s \<Longrightarrow> s ! i = cstr s ! i"
  by (simp add: c_strlen_def cstr_def takeWhile_nth)

lemma c_strlen_le: "c_strlen s \<le> length s"
  by (simp add: c_strlen_def cstr_def length_takeWhile_le)

lemma upper_byte_in:
  "i < c_strlen s \<Longrightarrow> i < length buf \<Longrightarrow> upper_byte s i buf = Inr (buf[i := c_toupper (cstr s ! i)])"
  using c_strlen_le [of s] by (simp add: upper_byte_def cstr_nth)

lemma take_update_Suc: "i < length xs \<Longrightarrow> take (Suc i) (xs[i := x]) = take i xs @ [x]"
  by (simp add: take_Suc_conv_app_nth)

lemma upper_into_spec:
  assumes "n \<le> c_strlen s" and "n < length buf"
  shows "upper_into s n buf = Inr (upper_text (take n (cstr s)) @ NUL # drop (Suc n) buf)"
proof -
  let ?I = "\<lambda>i b. length b = length buf \<and> take i b = upper_text (take i (cstr s)) \<and> drop n b = drop n buf"
  have "okR (foldR (upper_byte s) [0..<n] buf) (?I n)"
  proof (rule okR_foldR_upt [where I = ?I])
    fix i b assume i: "i < n" and b: "?I i b"
    have l: "i < c_strlen s" using i assms(1) by simp
    then have "take (Suc i) (cstr s) = take i (cstr s) @ [cstr s ! i]" by (simp add: take_Suc_conv_app_nth c_strlen_def)
    then show "okR (upper_byte s i b) (?I (Suc i))"
      using upper_byte_in [OF l, of b] i b assms(2) take_update_Suc [of i b "c_toupper (cstr s ! i)"]
      by (simp add: upper_text_def)
  qed (simp_all add: upper_text_def)
  then obtain b where b: "foldR (upper_byte s) [0..<n] buf = Inr b" "?I n b" by (auto simp: okR_iff)
  have "b[n := NUL] = take n b @ NUL # drop (Suc n) b" using b(2) assms(2) by (simp add: upd_conv_take_nth_drop)
  moreover have "drop (Suc n) b = drop (Suc n) buf" using b(2) by (metis drop_Suc drop_tl)
  ultimately show ?thesis using b assms(2) by (simp add: upper_into_def)
qed

lemma upper_cut:
  assumes "0 < cap"
  shows "(let n = c_strlen s; n = (if n \<ge> cap then cap - 1 else n) in upper_into s n buf)
    = upper_into s (min (c_strlen s) (cap - 1)) buf"
proof -
  have "(if c_strlen s \<ge> cap then cap - 1 else c_strlen s) = min (c_strlen s) (cap - 1)" using assms by auto
  then show ?thesis by (simp only: Let_def)
qed

lemma take_cut: "take (min (c_strlen s) k) (cstr s) = take k (cstr s)"
  by (simp add: c_strlen_def min_def)

lemma upper_reentrant_spec:
  assumes "0 < cap" and "cap \<le> length out"
  shows "upper_reentrant s out cap = Inr (upper_text (take (cap - 1) (cstr s)) @ NUL # drop (Suc (min (c_strlen s) (cap - 1))) out)"
proof -
  have "min (c_strlen s) (cap - 1) < length out" using assms by auto
  then show ?thesis
    using upper_into_spec [of "min (c_strlen s) (cap - 1)" s out] assms(1) upper_cut [OF assms(1), of s out]
    by (simp add: upper_reentrant_def take_cut)
qed

lemma upper_not_reentrant_reentrant: "upper_not_reentrant s buf = upper_reentrant s buf STATIC_BUF"
  by (simp add: upper_not_reentrant_def upper_reentrant_def)

lemma cstr_upper: "cstr (upper_text (take k (cstr s)) @ NUL # rest) = upper_text (take k (cstr s))"
  by (rule cstr_append_NUL [OF upper_text_NUL]) (use cstr_no_NUL [of s] in \<open>auto dest: in_set_takeD\<close>)

subsection \<open>Labels\<close>

lemma skip_line_spec: "skip_line s = (if newline \<in> set s then tl (dropWhile (\<lambda>c. c \<noteq> newline) s) else [])"
  by (induction s) auto

text \<open>The first line of the input and what follows it.\<close>

definition first_line :: "string \<Rightarrow> string" where
  "first_line s = takeWhile (\<lambda>c. c \<noteq> newline) s"

lemma fgets_takes_line:
  assumes "s \<noteq> []" and "take (n - 1) (first_line s @ (if newline \<in> set s then [newline] else [])) = b"
  shows "fgets n s = Some (b, drop (length b) s)"
  using assms unfolding fgets_def first_line_def Let_def by (simp only: if_False)

lemma chomp_nothing:
  assumes "newline \<notin> set xs" and "NUL \<notin> set xs"
  shows "chomp_newline (xs @ NUL # rest) = Inr (xs @ NUL # rest)"
proof (cases "xs = []")
  case False
  then have "(xs @ NUL # rest) ! (length xs - 1) = last xs" by (simp add: nth_append last_conv_nth)
  then have "(xs @ NUL # rest) ! (length xs - 1) \<noteq> newline" using assms(1) False last_in_set by metis
  then show ?thesis by (simp add: chomp_newline_def c_strlen_def cstr_append_NUL [OF assms(2)])
qed (simp add: chomp_newline_def c_strlen_def cstr_def)

lemma read_label_long:
  assumes "0 < cap" and "cap \<le> length dst" and "stdin \<noteq> []" and "NUL \<notin> set (first_line stdin)"
    and "cap - 1 \<le> length (first_line stdin) \<or> newline \<notin> set stdin"
  shows "\<exists>dst'. read_label_bounded dst cap stdin = Inr (dst', skip_line stdin, [Longer_Than (cap - 1)])
    \<and> cstr dst' = take (cap - 1) (first_line stdin) \<and> length dst' = length dst"
proof -
  let ?l = "first_line stdin" and ?line = "take (cap - 1) (first_line stdin)"
  have nl: "newline \<notin> set ?l" by (auto simp: first_line_def dest: set_takeWhileD)
  have line: "take (cap - 1) (?l @ (if newline \<in> set stdin then [newline] else [])) = ?line"
    using assms(5) by auto
  have split: "stdin = ?l @ dropWhile (\<lambda>c. c \<noteq> newline) stdin" by (simp add: first_line_def)
  have skip: "skip_line (drop (length ?line) stdin) = skip_line stdin"
  proof -
    have s: "skip_line (xs @ ys) = skip_line ys" if "newline \<notin> set xs" for xs ys using that by (induction xs) auto
    have d: "drop (length ?line) stdin = drop (length ?line) ?l @ dropWhile (\<lambda>c. c \<noteq> newline) stdin"
      by (subst split) (simp add: min_def)
    have "newline \<notin> set (drop (length ?line) ?l)" using nl by (auto dest: in_set_dropD)
    then show ?thesis unfolding d using s [OF nl] split s by metis
  qed
  have get: "fgets cap stdin = Some (?line, drop (length ?line) stdin)"
    by (rule fgets_takes_line [OF assms(3) line])
  have len: "length ?line < length dst" using assms(1,2) by auto
  let ?dst = "?line @ NUL # drop (Suc (length ?line)) dst"
  have c: "cstr ?dst = ?line" by (rule cstr_append_NUL) (use assms(4) in \<open>auto dest: in_set_takeD\<close>)
  have no: "newline \<notin> set ?line" using nl by (auto dest: in_set_takeD)
  have "chomp_newline ?dst = Inr ?dst" by (rule chomp_nothing [OF no]) (use assms(4) in \<open>auto dest: in_set_takeD\<close>)
  then show ?thesis using get len c no skip assms(1) by (simp add: read_label_bounded_def)
qed

lemma read_label_short:
  assumes "length (first_line stdin) < cap - 1" and "cap \<le> length dst" and "NUL \<notin> set (first_line stdin)" and "newline \<in> set stdin"
  shows "\<exists>dst'. read_label_bounded dst cap stdin = Inr (dst', skip_line stdin, [])
    \<and> cstr dst' = first_line stdin \<and> length dst' = length dst"
proof -
  let ?l = "first_line stdin"
  let ?line = "?l @ [newline]"
  have cap: "0 < cap" "length ?line < length dst" using assms(1,2) by auto
  have line: "take (cap - 1) ?line = ?line" using assms(1) by simp
  have split: "stdin = ?l @ newline # skip_line stdin"
    using assms(4) unfolding first_line_def skip_line_spec by (induction stdin) auto
  have rest: "drop (length ?line) stdin = skip_line stdin" by (subst split) simp
  have "stdin \<noteq> []" using assms(4) by auto
  then have get: "fgets cap stdin = Some (?line, skip_line stdin)"
    using fgets_takes_line [of stdin cap ?line] assms(4) line rest by simp
  let ?dst = "?line @ NUL # drop (Suc (length ?line)) dst"
  have c: "cstr ?dst = ?line" by (rule cstr_append_NUL) (use assms(3) in simp)
  have upd: "?dst[length ?l := NUL] = ?l @ NUL # NUL # drop (Suc (length ?line)) dst" by (simp add: list_update_append)
  have "chomp_newline ?dst = Inr (?l @ NUL # NUL # drop (Suc (length ?line)) dst)"
    unfolding chomp_newline_def Let_def c_strlen_def c using cap upd by (simp add: nth_append)
  moreover have "cstr (?l @ NUL # NUL # drop (Suc (length ?line)) dst) = ?l" using assms(3) by (rule cstr_append_NUL)
  ultimately show ?thesis using get cap c by (simp add: read_label_bounded_def)
qed

subsection \<open>The threads end\<close>

fun upper_left :: "upper \<Rightarrow> nat" where
  "upper_left u = (case u_at u of Up_Start \<Rightarrow> c_strlen (u_in u) + 3 | Up_Copy i n \<Rightarrow> n - i + 2 | Up_Return \<Rightarrow> 1 | _ \<Rightarrow> 0)"

lemma upper_call_left: "upper_call u mem = Some (u', mem') \<Longrightarrow> upper_left u' < upper_left u"
  by (cases "u_at u") (auto simp: upper_call_def upper_write_def Let_def split: sum.splits if_splits)

interpretation bad: finite_threads thread_fn_bad upper_left
  by standard (auto simp: thread_fn_bad_def dest: upper_call_left simp del: upper_left.simps split: if_splits, simp)

interpretation good: finite_threads thread_fn_ok upper_left
  by standard (auto simp: thread_fn_ok_def dest: upper_call_left simp del: upper_left.simps split: if_splits, simp)

text \<open>No thread waits for another, so nothing moves only when all have ended.\<close>

lemma upper_idle:
  "idle thread_fn_bad (mem, us) \<longleftrightarrow> (\<forall>u \<in> set us. u_at u \<in> {Up_Done, Up_Fault})"
  "idle thread_fn_ok (mem, us) \<longleftrightarrow> (\<forall>u \<in> set us. u_at u \<in> {Up_Done, Up_Fault})"
proof -
  have "thread_fn_bad u mem = None \<longleftrightarrow> u_at u \<in> {Up_Done, Up_Fault}" "thread_fn_ok u mem = None \<longleftrightarrow> u_at u \<in> {Up_Done, Up_Fault}" for u
    by (cases "u_at u"; simp add: thread_fn_bad_def thread_fn_ok_def upper_call_def Let_def)+
  then show "idle thread_fn_bad (mem, us) \<longleftrightarrow> (\<forall>u \<in> set us. u_at u \<in> {Up_Done, Up_Fault})"
    "idle thread_fn_ok (mem, us) \<longleftrightarrow> (\<forall>u \<in> set us. u_at u \<in> {Up_Done, Up_Fault})"
    by (simp_all add: idle_def list_all_iff)
qed

subsection \<open>A buffer for each thread\<close>

text \<open>How far a call has come with its buffer, which held \<open>b0\<close> at first.\<close>

definition upper_count :: "upper \<Rightarrow> nat" where
  "upper_count u = min (c_strlen (u_in u)) (u_cap u - 1)"

definition upper_progress :: "upper \<Rightarrow> string \<Rightarrow> string \<Rightarrow> bool" where
  "upper_progress u b0 b \<longleftrightarrow> (case u_at u of Up_Start \<Rightarrow> b = b0
     | Up_Copy i n \<Rightarrow> n = upper_count u \<and> i \<le> n \<and> b = upper_text (take i (cstr (u_in u))) @ drop i b0
     | Up_Return \<Rightarrow> upper_reentrant (u_in u) b0 (u_cap u) = Inr b
     | Up_Done \<Rightarrow> upper_reentrant (u_in u) b0 (u_cap u) = Inr b
     | Up_Fault \<Rightarrow> False)"

lemma ok_step_local:
  assumes "thread_fn_ok u mem = Some (u', mem')" and "upper_progress u b0 (mem ! u_buf u)"
    and "0 < u_cap u" and "u_cap u \<le> length b0" and "u_buf u < length mem"
  shows "u_in u' = u_in u \<and> u_buf u' = u_buf u \<and> u_cap u' = u_cap u"
    and "mem' = mem[u_buf u := mem' ! u_buf u]" and "upper_progress u' b0 (mem' ! u_buf u)"
proof -
  let ?n = "upper_count u" and ?s = "cstr (u_in u)"
  have n: "?n < length b0" "?n \<le> c_strlen (u_in u)" using assms(3,4) by (auto simp: upper_count_def)
  have "(u_in u' = u_in u \<and> u_buf u' = u_buf u \<and> u_cap u' = u_cap u) \<and> mem' = mem[u_buf u := mem' ! u_buf u]
      \<and> upper_progress u' b0 (mem' ! u_buf u)"
  proof (cases "u_at u")
    case Up_Start
    have "(if c_strlen (u_in u) \<ge> u_cap u then u_cap u - 1 else c_strlen (u_in u)) = ?n"
      using assms(3) by (auto simp: upper_count_def)
    then have "u' = u\<lparr>u_at := Up_Copy 0 ?n\<rparr>" "mem' = mem"
      using assms(1,3) Up_Start by (simp_all add: thread_fn_ok_def upper_call_def Let_def)
    moreover have "mem = mem[u_buf u := mem ! u_buf u]" by simp
    ultimately show ?thesis using assms(2) Up_Start by (simp add: upper_progress_def upper_text_def upper_count_def del: list_update_id)
  next
    case (Up_Copy i m)
    then have p: "m = ?n" "i \<le> ?n" "mem ! u_buf u = upper_text (take i ?s) @ drop i b0"
      using assms(2) by (simp_all add: upper_progress_def)
    have li: "length (upper_text (take i ?s)) = i" using p(2) n(2) by (simp add: upper_text_def c_strlen_def)
    show ?thesis
    proof (cases "i < m")
      case True
      then have i: "i < c_strlen (u_in u)" "i < length b0" using p n by simp_all
      then have "upper_byte (u_in u) i (mem ! u_buf u) = Inr ((mem ! u_buf u)[i := c_toupper (?s ! i)])"
        using p(3) li by (intro upper_byte_in) simp_all
      moreover have "(mem ! u_buf u)[i := c_toupper (?s ! i)] = upper_text (take (Suc i) ?s) @ drop (Suc i) b0"
      proof -
        have "drop i b0 = b0 ! i # drop (Suc i) b0" using i(2) by (rule Cons_nth_drop_Suc [symmetric])
        moreover have "take (Suc i) ?s = take i ?s @ [?s ! i]" using i(1) by (simp add: take_Suc_conv_app_nth c_strlen_def)
        ultimately show ?thesis using p(3) li by (simp add: list_update_append upper_text_def)
      qed
      ultimately have "u' = u\<lparr>u_at := Up_Copy (Suc i) m\<rparr>" "mem' = mem[u_buf u := upper_text (take (Suc i) ?s) @ drop (Suc i) b0]"
        using assms(1,5) Up_Copy True by (simp_all add: thread_fn_ok_def upper_call_def upper_write_def)
      then show ?thesis using assms(5) p True by (simp add: upper_progress_def upper_count_def)
    next
      case False
      then have i: "i = ?n" using p by simp
      let ?b = "upper_text (take ?n ?s) @ NUL # drop (Suc ?n) b0"
      have "drop i b0 = b0 ! i # drop (Suc i) b0" using i n(1) by (simp add: Cons_nth_drop_Suc)
      then have "store (mem ! u_buf u) (int m) NUL = Inr ?b"
        using p li i n(1) by (simp add: list_update_append)
      then have "u' = u\<lparr>u_at := Up_Return\<rparr>" "mem' = mem[u_buf u := ?b]"
        using assms(1,5) Up_Copy False by (simp_all add: thread_fn_ok_def upper_call_def upper_write_def)
      moreover have "upper_reentrant (u_in u) b0 (u_cap u) = Inr ?b"
        using upper_reentrant_spec [OF assms(3,4)] by (simp add: upper_count_def take_cut)
      ultimately show ?thesis using assms(5) by (simp add: upper_progress_def)
    qed
  qed (use assms in \<open>auto simp: thread_fn_ok_def upper_call_def upper_progress_def\<close>)
  then show "u_in u' = u_in u \<and> u_buf u' = u_buf u \<and> u_cap u' = u_cap u"
    and "mem' = mem[u_buf u := mem' ! u_buf u]" and "upper_progress u' b0 (mem' ! u_buf u)" by blast+
qed

text \<open>Threads with a buffer of their own each.\<close>

definition own_buffers :: "string list \<Rightarrow> upper list \<Rightarrow> bool" where
  "own_buffers mem us \<longleftrightarrow> distinct (map u_buf us)
     \<and> list_all (\<lambda>u. u_buf u < length mem \<and> 0 < u_cap u \<and> u_cap u \<le> length (mem ! u_buf u)) us"

definition ok_inv :: "string list \<Rightarrow> upper list \<Rightarrow> string list \<times> upper list \<Rightarrow> bool" where
  "ok_inv mem0 us0 = (\<lambda>(mem, us). length mem = length mem0 \<and> length us = length us0 \<and>
     (\<forall>t < length us0. u_in (us ! t) = u_in (us0 ! t) \<and> u_buf (us ! t) = u_buf (us0 ! t) \<and> u_cap (us ! t) = u_cap (us0 ! t)
        \<and> upper_progress (us ! t) (mem0 ! u_buf (us0 ! t)) (mem ! u_buf (us0 ! t))))"

lemma ok_inv_step:
  assumes own: "own_buffers mem0 us0" and inv: "ok_inv mem0 us0 (mem, us)" and t: "t < length us"
    and step: "thread_fn_ok (us ! t) mem = Some (u', mem')"
  shows "ok_inv mem0 us0 (mem', us[t := u'])"
proof -
  let ?b = "\<lambda>t. u_buf (us0 ! t)"
  have len: "length mem = length mem0" "length us = length us0"
    and each: "\<And>t. t < length us0 \<Longrightarrow> u_in (us ! t) = u_in (us0 ! t) \<and> u_buf (us ! t) = ?b t \<and> u_cap (us ! t) = u_cap (us0 ! t)
        \<and> upper_progress (us ! t) (mem0 ! ?b t) (mem ! ?b t)"
    using inv by (simp_all add: ok_inv_def)
  have t0: "t < length us0" using t len by simp
  have o: "?b t < length mem0" "0 < u_cap (us0 ! t)" "u_cap (us0 ! t) \<le> length (mem0 ! ?b t)"
    using own t0 by (simp_all add: own_buffers_def list_all_length)
  note l = ok_step_local [OF step, of "mem0 ! ?b t"]
  have mine: "u_in u' = u_in (us0 ! t) \<and> u_buf u' = ?b t \<and> u_cap u' = u_cap (us0 ! t)" "mem' = mem[?b t := mem' ! ?b t]"
    "upper_progress u' (mem0 ! ?b t) (mem' ! ?b t)"
    using l each [OF t0] o len by simp_all
  have "upper_progress (us ! v) (mem0 ! ?b v) (mem' ! ?b v)" if v: "v < length us0" "v \<noteq> t" for v
  proof -
    have "?b v \<noteq> ?b t" using own v t0 by (auto simp: own_buffers_def distinct_conv_nth)
    then have "mem' ! ?b v = mem ! ?b v" using mine(2) by (metis nth_list_update_neq)
    then show ?thesis using each [OF v(1)] by simp
  qed
  moreover have "length mem' = length mem" by (subst mine(2)) simp
  ultimately show ?thesis using mine each len t0 by (auto simp: ok_inv_def nth_list_update)
qed

subsection \<open>One buffer for both\<close>

text \<open>Part 3b: what the buffer holds when both threads have returned.\<close>

definition finished :: "upper \<Rightarrow> upper" where
  "finished u = u\<lparr>u_out := Some (u_buf u), u_at := Up_Done\<rparr>"

definition shared_result :: "string \<Rightarrow> string \<Rightarrow> string \<Rightarrow> string \<Rightarrow> bool" where
  "shared_result a b buf w \<longleftrightarrow> (\<exists>mem. (conc thread_fn_bad)\<^sup>*\<^sup>* ([buf], [new_upper a 0 STATIC_BUF, new_upper b 0 STATIC_BUF])
     (mem, [finished (new_upper a 0 STATIC_BUF), finished (new_upper b 0 STATIC_BUF)]) \<and> cstr (mem ! 0) = w)"

text \<open>The bytes that may stand at place \<open>j\<close>, and the strings made of them.\<close>

definition mix_byte :: "string \<Rightarrow> string \<Rightarrow> nat \<Rightarrow> char \<Rightarrow> bool" where
  "mix_byte a b j c \<longleftrightarrow> c = c_toupper (cstr a ! j) \<or> c = c_toupper (cstr b ! j)"

definition mix_ok :: "string \<Rightarrow> string \<Rightarrow> nat \<Rightarrow> string \<Rightarrow> upper \<Rightarrow> bool" where
  "mix_ok a b n buf u \<longleftrightarrow> u_in u \<in> {a, b} \<and> u_buf u = 0 \<and> u_cap u = STATIC_BUF \<and> (case u_at u of Up_Start \<Rightarrow> True
     | Up_Copy i m \<Rightarrow> m = n \<and> i \<le> n \<and> (\<forall>j < i. mix_byte a b j (buf ! j))
     | Up_Fault \<Rightarrow> False | _ \<Rightarrow> (\<forall>j < n. mix_byte a b j (buf ! j)) \<and> buf ! n = NUL)"

lemma mix_ok_write:
  assumes "mix_ok a b n buf u" and "length buf = STATIC_BUF" and "n < STATIC_BUF" and "i \<le> n" and "if i < n then mix_byte a b i c else c = NUL"
  shows "mix_ok a b n (buf[i := c]) u"
  using assms by (cases "u_at u") (auto simp: mix_ok_def nth_list_update split: if_splits)

lemma bad_step_local:
  assumes step: "thread_fn_bad u mem = Some (u', mem')" and mem: "mem = [buf]" and len: "length buf = STATIC_BUF"
    and ok: "mix_ok a b n buf u" and n: "c_strlen a = n" "c_strlen b = n" "n < STATIC_BUF"
  shows "\<exists>buf'. mem' = [buf'] \<and> length buf' = STATIC_BUF \<and> mix_ok a b n buf' u'
    \<and> (\<forall>v. mix_ok a b n buf v \<longrightarrow> mix_ok a b n buf' v)"
proof (cases "u_at u")
  case Up_Start
  then have "u' = u\<lparr>u_at := Up_Copy 0 n\<rparr>" "mem' = mem"
    using step ok n by (auto simp: mix_ok_def thread_fn_bad_def upper_call_def Let_def)
  then show ?thesis using mem len ok by (simp add: mix_ok_def)
next
  case (Up_Copy i m)
  then have p: "m = n" "i \<le> n" "u_buf u = 0" "u_in u \<in> {a, b}" using ok by (simp_all add: mix_ok_def)
  show ?thesis
  proof (cases "i < n")
    case True
    let ?c = "c_toupper (cstr (u_in u) ! i)"
    have "upper_byte (u_in u) i buf = Inr (buf[i := ?c])"
      using True p(4) n len by (intro upper_byte_in) auto
    then have e: "u' = u\<lparr>u_at := Up_Copy (Suc i) n\<rparr>" "mem' = [buf[i := ?c]]"
      using step Up_Copy True p mem by (simp_all add: thread_fn_bad_def upper_call_def upper_write_def)
    have mix: "mix_byte a b i ?c" using p(4) by (auto simp: mix_byte_def)
    have "mix_ok a b n (buf[i := ?c]) u" using mix_ok_write [OF ok len n(3) p(2)] mix True by simp
    then have "mix_ok a b n (buf[i := ?c]) u'"
      using e(1) Up_Copy mix True len n(3) by (auto simp: mix_ok_def less_Suc_eq)
    then show ?thesis using e(2) len mix_ok_write [OF _ len n(3) p(2), of a b _ ?c] mix True by auto
  next
    case False
    then have i: "i = n" using p by simp
    have e: "u' = u\<lparr>u_at := Up_Return\<rparr>" "mem' = [buf[n := NUL]]"
      using step Up_Copy i p mem len n(3) by (simp_all add: thread_fn_bad_def upper_call_def upper_write_def)
    have "mix_ok a b n (buf[n := NUL]) u" using mix_ok_write [OF ok len n(3), of n NUL] by simp
    then have "mix_ok a b n (buf[n := NUL]) u'" using e(1) Up_Copy i len n(3) by (auto simp: mix_ok_def)
    then show ?thesis using e(2) len mix_ok_write [OF _ len n(3), of a b _ n NUL] by auto
  qed
next
  case Up_Return
  then have "u' = u\<lparr>u_out := Some (u_buf u), u_at := Up_Done\<rparr>" "mem' = mem" using step by (simp_all add: thread_fn_bad_def)
  then show ?thesis using ok Up_Return mem len by (simp add: mix_ok_def)
qed (use step ok in \<open>simp_all add: thread_fn_bad_def upper_call_def mix_ok_def\<close>)

lemma shared_result_mix:
  assumes "shared_result a b buf w" and "length buf = STATIC_BUF" and n: "c_strlen a = n" "c_strlen b = n" "n < STATIC_BUF"
  shows "length w = n \<and> (\<forall>j < n. mix_byte a b j (w ! j))"
proof -
  let ?us = "[new_upper a 0 64, new_upper b 0 64]"
  let ?P = "\<lambda>(mem, us). \<exists>buf. mem = [buf] \<and> length buf = 64 \<and> list_all (mix_ok a b n buf) us"
  obtain mem where run: "(conc thread_fn_bad)\<^sup>*\<^sup>* ([buf], ?us) (mem, map finished ?us)" and w: "cstr (mem ! 0) = w"
    using assms(1) by (auto simp: shared_result_def)
  have "?P (mem, map finished ?us)"
  proof (rule conc_invariant [where P = ?P, OF run])
    show "?P ([buf], ?us)" using assms(2) by (simp add: mix_ok_def new_upper_def)
    fix s us t l s' assume P: "?P (s, us)" and t: "t < length us" and st: "thread_fn_bad (us ! t) s = Some (l, s')"
    then obtain buf where b: "s = [buf]" "length buf = 64" "list_all (mix_ok a b n buf) us" by auto
    obtain buf' where b': "s' = [buf']" "length buf' = 64" "mix_ok a b n buf' l"
        and keep: "\<And>v. mix_ok a b n buf v \<Longrightarrow> mix_ok a b n buf' v"
      using bad_step_local [OF st b(1,2) list_all_nth [OF b(3) t] n] by blast
    have "list_all (mix_ok a b n buf') us" using b(3) keep by (simp add: list_all_iff)
    then have "list_all (mix_ok a b n buf') (us[t := l])" using b'(3) by (rule list_all_update)
    then show "?P (s', us[t := l])" using b'(1,2) by simp
  qed
  then obtain buf' where b: "mem = [buf']" "length buf' = 64" "mix_ok a b n buf' (finished (new_upper a 0 64))" by auto
  then have m: "\<forall>j < n. mix_byte a b j (buf' ! j)" "buf' ! n = NUL" by (simp_all add: mix_ok_def finished_def new_upper_def)
  have nz: "buf' ! j \<noteq> NUL" if "j < n" for j
  proof -
    have "cstr a ! j \<noteq> NUL" "cstr b ! j \<noteq> NUL"
      using that n cstr_no_NUL [of a] cstr_no_NUL [of b] by (metis c_strlen_def nth_mem)+
    then show ?thesis using m(1) that by (auto simp: mix_byte_def)
  qed
  have "buf' = take n buf' @ NUL # drop (Suc n) buf'" using m(2) b(2) n(3) by (metis id_take_nth_drop)
  moreover have "NUL \<notin> set (take n buf')" using nz b(2) n(3) by (auto simp: in_set_conv_nth)
  ultimately have "cstr buf' = take n buf'" using cstr_append_NUL by metis
  then have "w = take n buf'" using w b(1) by simp
  then show ?thesis using b(2) m(1) n(3) by simp
qed

lemma mix_next:
  assumes "i < n" and "mix_byte a b i c" and "length buf = STATIC_BUF" and n: "c_strlen a = n" "c_strlen b = n" "n < STATIC_BUF"
  shows "(conc thread_fn_bad)\<^sup>*\<^sup>* ([buf], [(new_upper a 0 64)\<lparr>u_at := Up_Copy i n\<rparr>, (new_upper b 0 64)\<lparr>u_at := Up_Copy i n\<rparr>])
    ([buf[i := c]], [(new_upper a 0 64)\<lparr>u_at := Up_Copy (Suc i) n\<rparr>, (new_upper b 0 64)\<lparr>u_at := Up_Copy (Suc i) n\<rparr>])"
proof -
  let ?a = "\<lambda>k. (new_upper a 0 64)\<lparr>u_at := Up_Copy k n\<rparr>" and ?b = "\<lambda>k. (new_upper b 0 64)\<lparr>u_at := Up_Copy k n\<rparr>"
  let ?x = "c_toupper (cstr a ! i)" and ?y = "c_toupper (cstr b ! i)"
  have byte: "upper_byte a i buf' = Inr (buf'[i := ?x])" "upper_byte b i buf' = Inr (buf'[i := ?y])" if "length buf' = 64" for buf'
    using that assms(1) n by (simp_all add: upper_byte_in)
  have st: "thread_fn_bad (?a i) [buf'] = Some (?a (Suc i), [buf'[i := ?x]])"
    "thread_fn_bad (?b i) [buf'] = Some (?b (Suc i), [buf'[i := ?y]])" if "length buf' = 64" for buf'
    using byte [OF that] assms(1) by (simp_all add: thread_fn_bad_def upper_call_def upper_write_def new_upper_def)
  show ?thesis
  proof (cases "c = ?x")
    case True
    have r1: "(conc thread_fn_bad)\<^sup>*\<^sup>* ([buf], [?a i, ?b i]) ([buf[i := ?y]], [?a i, ?b (Suc i)])"
      using conc_one [of 1 "[?a i, ?b i]" thread_fn_bad "[buf]"] st(2) [OF assms(3)] by simp
    have r2: "(conc thread_fn_bad)\<^sup>*\<^sup>* ([buf[i := ?y]], [?a i, ?b (Suc i)]) ([buf[i := ?y, i := ?x]], [?a (Suc i), ?b (Suc i)])"
      using conc_one [of 0 "[?a i, ?b (Suc i)]" thread_fn_bad "[buf[i := ?y]]"] st(1) [of "buf[i := ?y]"] assms(3) by simp
    show ?thesis using rtranclp_trans [OF r1 r2] True by simp
  next
    case False
    then have c: "c = ?y" using assms(2) by (simp add: mix_byte_def)
    have r1: "(conc thread_fn_bad)\<^sup>*\<^sup>* ([buf], [?a i, ?b i]) ([buf[i := ?x]], [?a (Suc i), ?b i])"
      using conc_one [of 0 "[?a i, ?b i]" thread_fn_bad "[buf]"] st(1) [OF assms(3)] by simp
    have r2: "(conc thread_fn_bad)\<^sup>*\<^sup>* ([buf[i := ?x]], [?a (Suc i), ?b i]) ([buf[i := ?x, i := ?y]], [?a (Suc i), ?b (Suc i)])"
      using conc_one [of 1 "[?a (Suc i), ?b i]" thread_fn_bad "[buf[i := ?x]]"] st(2) [of "buf[i := ?x]"] assms(3) by simp
    show ?thesis using rtranclp_trans [OF r1 r2] c by simp
  qed
qed

lemma mix_reached:
  assumes "length w = n" and "\<forall>j < n. mix_byte a b j (w ! j)" and "length buf = STATIC_BUF"
    and n: "c_strlen a = n" "c_strlen b = n" "n < STATIC_BUF" and "k \<le> n"
  shows "\<exists>buf'. length buf' = STATIC_BUF \<and> take k buf' = take k w \<and>
    (conc thread_fn_bad)\<^sup>*\<^sup>* ([buf], [new_upper a 0 STATIC_BUF, new_upper b 0 STATIC_BUF])
      ([buf'], [(new_upper a 0 64)\<lparr>u_at := Up_Copy k n\<rparr>, (new_upper b 0 64)\<lparr>u_at := Up_Copy k n\<rparr>])"
  using assms(7)
proof (induction k)
  case 0
  let ?a = "(new_upper a 0 64)\<lparr>u_at := Up_Copy 0 n\<rparr>"
  have st: "thread_fn_bad (new_upper a 0 64) m = Some (?a, m)"
    "thread_fn_bad (new_upper b 0 64) m = Some ((new_upper b 0 64)\<lparr>u_at := Up_Copy 0 n\<rparr>, m)" for m
    using n by (simp_all add: thread_fn_bad_def upper_call_def new_upper_def Let_def)
  have "(conc thread_fn_bad)\<^sup>*\<^sup>* ([buf], [new_upper a 0 64, new_upper b 0 64]) ([buf], [?a, new_upper b 0 64])"
    using conc_one [of 0 "[new_upper a 0 64, new_upper b 0 64]" thread_fn_bad "[buf]"] st(1) by simp
  also have "(conc thread_fn_bad)\<^sup>*\<^sup>* \<dots> ([buf], [?a, (new_upper b 0 64)\<lparr>u_at := Up_Copy 0 n\<rparr>])"
    using conc_one [of 1 "[?a, new_upper b 0 64]" thread_fn_bad "[buf]"] st(2) by simp
  finally show ?case using assms(3) by (intro exI [of _ buf]) simp
next
  case (Suc k)
  then obtain buf' where buf': "length buf' = 64" "take k buf' = take k w"
    and run: "(conc thread_fn_bad)\<^sup>*\<^sup>* ([buf], [new_upper a 0 STATIC_BUF, new_upper b 0 STATIC_BUF])
      ([buf'], [(new_upper a 0 64)\<lparr>u_at := Up_Copy k n\<rparr>, (new_upper b 0 64)\<lparr>u_at := Up_Copy k n\<rparr>])" by auto
  have k: "k < n" "mix_byte a b k (w ! k)" using Suc.prems assms(2) by simp_all
  have "take (Suc k) (buf'[k := w ! k]) = take (Suc k) w"
    using buf' k n(3) assms(1) take_update_Suc [of k buf' "w ! k"] by (simp add: take_Suc_conv_app_nth)
  then show ?case
    using rtranclp_trans [OF run mix_next [OF k buf'(1) n]] buf'(1) by (intro exI [of _ "buf'[k := w ! k]"]) simp
qed

lemma mix_shared_result:
  assumes "length w = n" and "\<forall>j < n. mix_byte a b j (w ! j)" and "length buf = STATIC_BUF"
    and n: "c_strlen a = n" "c_strlen b = n" "n < STATIC_BUF"
  shows "shared_result a b buf w"
proof -
  let ?at = "\<lambda>s x. (new_upper s 0 64)\<lparr>u_at := x\<rparr>"
  obtain buf' where buf': "length buf' = 64" "take n buf' = w"
    and run: "(conc thread_fn_bad)\<^sup>*\<^sup>* ([buf], [new_upper a 0 64, new_upper b 0 64]) ([buf'], [?at a (Up_Copy n n), ?at b (Up_Copy n n)])"
    using mix_reached [OF assms, of n] assms(1) by auto
  let ?e = "buf'[n := NUL]"
  have st: "thread_fn_bad (?at s (Up_Copy n n)) [m] = Some (?at s Up_Return, [m[n := NUL]])"
    "thread_fn_bad (?at s Up_Return) [m] = Some (finished (new_upper s 0 64), [m])" if "length m = 64" for s m
    using that n(3) by (simp_all add: thread_fn_bad_def upper_call_def upper_write_def new_upper_def finished_def)
  have r1: "(conc thread_fn_bad)\<^sup>*\<^sup>* ([buf'], [?at a (Up_Copy n n), ?at b (Up_Copy n n)]) ([?e], [?at a Up_Return, ?at b (Up_Copy n n)])"
    using conc_one [of 0 "[?at a (Up_Copy n n), ?at b (Up_Copy n n)]" thread_fn_bad "[buf']"] st(1) buf'(1) by simp
  have r2: "(conc thread_fn_bad)\<^sup>*\<^sup>* ([?e], [?at a Up_Return, ?at b (Up_Copy n n)]) ([?e], [?at a Up_Return, ?at b Up_Return])"
    using conc_one [of 1 "[?at a Up_Return, ?at b (Up_Copy n n)]" thread_fn_bad "[?e]"] st(1) [of ?e b] buf'(1) by simp
  have r3: "(conc thread_fn_bad)\<^sup>*\<^sup>* ([?e], [?at a Up_Return, ?at b Up_Return]) ([?e], [finished (new_upper a 0 64), ?at b Up_Return])"
    using conc_one [of 0 "[?at a Up_Return, ?at b Up_Return]" thread_fn_bad "[?e]"] st(2) [of ?e a] buf'(1) by simp
  have r4: "(conc thread_fn_bad)\<^sup>*\<^sup>* ([?e], [finished (new_upper a 0 64), ?at b Up_Return])
      ([?e], [finished (new_upper a 0 64), finished (new_upper b 0 64)])"
    using conc_one [of 1 "[finished (new_upper a 0 64), ?at b Up_Return]" thread_fn_bad "[?e]"] st(2) [of ?e b] buf'(1) by simp
  have fin: "(conc thread_fn_bad)\<^sup>*\<^sup>* ([buf], [new_upper a 0 64, new_upper b 0 64])
      ([?e], [finished (new_upper a 0 64), finished (new_upper b 0 64)])" 
    by (rule rtranclp_trans [OF rtranclp_trans [OF run r1] rtranclp_trans [OF r2 rtranclp_trans [OF r3 r4]]])
  have "?e = w @ NUL # drop (Suc n) buf'" using buf' n(3) by (simp add: upd_conv_take_nth_drop)
  moreover have "NUL \<notin> set w"
  proof -
    have "cstr a ! j \<noteq> NUL" "cstr b ! j \<noteq> NUL" if "j < n" for j
      using that n cstr_no_NUL [of a] cstr_no_NUL [of b] by (metis c_strlen_def nth_mem)+
    then have "w ! j \<noteq> NUL" if "j < n" for j using assms(2) that by (auto simp: mix_byte_def)
    then show ?thesis using assms(1) by (metis in_set_conv_nth)
  qed
  ultimately have "cstr ?e = w" using cstr_append_NUL by metis
  then show ?thesis using fin unfolding shared_result_def by (intro exI [of _ "[?e]"]) simp
qed

lemma own_buffers_result:
  assumes own: "own_buffers mem us" and inv: "ok_inv mem us (mem', us')" and idle: "idle thread_fn_ok (mem', us')" and t: "t < length us"
  shows "u_at (us' ! t) = Up_Done"
    and "upper_reentrant (u_in (us ! t)) (mem ! u_buf (us ! t)) (u_cap (us ! t)) = Inr (mem' ! u_buf (us ! t))"
    and "cstr (mem' ! u_buf (us ! t)) = upper_text (take (u_cap (us ! t) - 1) (cstr (u_in (us ! t))))"
proof -
  have i: "u_in (us' ! t) = u_in (us ! t)" "u_cap (us' ! t) = u_cap (us ! t)" "length us' = length us"
    "upper_progress (us' ! t) (mem ! u_buf (us ! t)) (mem' ! u_buf (us ! t))"
    using inv t by (simp_all add: ok_inv_def)
  have "u_at (us' ! t) \<in> {Up_Done, Up_Fault}" using idle t i(3) by (simp add: upper_idle)
  then show d: "u_at (us' ! t) = Up_Done" using i(4) by (auto simp: upper_progress_def)
  then show r: "upper_reentrant (u_in (us ! t)) (mem ! u_buf (us ! t)) (u_cap (us ! t)) = Inr (mem' ! u_buf (us ! t))"
    using i by (simp add: upper_progress_def)
  have "0 < u_cap (us ! t)" "u_cap (us ! t) \<le> length (mem ! u_buf (us ! t))"
    using own t by (simp_all add: own_buffers_def list_all_length)
  then show "cstr (mem' ! u_buf (us ! t)) = upper_text (take (u_cap (us ! t) - 1) (cstr (u_in (us ! t))))"
    using r upper_reentrant_spec cstr_upper by (metis Inr_inject)
qed

lemma label_keeps_line:
  assumes "0 < cap" and "cap \<le> length dst" and "stdin \<noteq> []" and "NUL \<notin> set (first_line stdin)"
  shows "\<exists>dst' notes. read_label_bounded dst cap stdin = Inr (dst', skip_line stdin, notes)
    \<and> cstr dst' = take (cap - 1) (first_line stdin) \<and> length dst' = length dst
    \<and> notes = (if newline \<in> set stdin \<and> length (first_line stdin) < cap - 1 then [] else [Longer_Than (cap - 1)])"
proof (cases "newline \<in> set stdin \<and> length (first_line stdin) < cap - 1")
  case True
  then show ?thesis using read_label_short [of stdin cap dst] assms(2,4) by auto
next
  case False
  then have "cap - 1 \<le> length (first_line stdin) \<or> newline \<notin> set stdin" by auto
  from read_label_long [OF assms this] show ?thesis unfolding if_not_P [OF False] by blast
qed

subsection \<open>Properties\<close>

text \<open>C23: What Part 3b can show: two threads that call \<open>upper_not_reentrant\<close> on strings of the same length
  return the same pointer, and the buffer can end up with exactly the strings each of whose bytes is that
  of one or the other, in any mixture; it need not be the result of either call.\<close>

theorem shared_buffer_mixes:
  assumes "length buf = STATIC_BUF" and "c_strlen a = c_strlen b" and "c_strlen b < STATIC_BUF"
  shows "shared_result a b buf w \<longleftrightarrow> length w = c_strlen a \<and> (\<forall>j < length w. mix_byte a b j (w ! j))"
  using shared_result_mix [of a b buf w "c_strlen b"] mix_shared_result [of w "c_strlen b" a b buf] assms by auto

theorem shared_buffer_mixes_witness:
  "shared_result (''abcdef'' @ [NUL]) (''XYZ123'' @ [NUL]) (replicate 64 NUL) ''ABC123''"
proof -
  have c: "cstr (''abcdef'' @ [NUL]) = ''abcdef''" "cstr (''XYZ123'' @ [NUL]) = ''XYZ123''" by (simp_all add: cstr_def)
  have up: "c_toupper CHR ''a'' = CHR ''A''" "c_toupper CHR ''b'' = CHR ''B''" "c_toupper CHR ''c'' = CHR ''C''"
    "c_toupper CHR ''1'' = CHR ''1''" "c_toupper CHR ''2'' = CHR ''2''" "c_toupper CHR ''3'' = CHR ''3''"
    by code_simp+
  have "mix_byte (''abcdef'' @ [NUL]) (''XYZ123'' @ [NUL]) j (''ABC123'' ! j)" if "j < 6" for j
  proof -
    have "j = 0 \<or> j = 1 \<or> j = 2 \<or> j = 3 \<or> j = 4 \<or> j = 5" using that by linarith
    then show ?thesis unfolding mix_byte_def c by (elim disjE) (simp_all add: up)
  qed
  then show ?thesis
    using shared_buffer_mixes [of "replicate 64 NUL" "''abcdef'' @ [NUL]" "''XYZ123'' @ [NUL]" "''ABC123''"] c
    by (simp add: c_strlen_def)
qed

text \<open>C22: \<open>upper_reentrant\<close> is safe to call from several threads: with a buffer for each, every interleaving
  ends, none faults, and each buffer then holds exactly what the call made alone would have left there: the
  terminated upper case of the string, cut to the capacity.\<close>

theorem separate_buffers_sequential:
  assumes "own_buffers mem us" and "list_all (\<lambda>u. u_at u = Up_Start) us" and "(conc thread_fn_ok ^^ m) (mem, us) (mem', us')"
  shows "m \<le> sum_list (map upper_left us)
    \<and> (idle thread_fn_ok (mem', us') \<longrightarrow> (\<forall>t < length us. u_at (us' ! t) = Up_Done
         \<and> upper_reentrant (u_in (us ! t)) (mem ! u_buf (us ! t)) (u_cap (us ! t)) = Inr (mem' ! u_buf (us ! t))
         \<and> cstr (mem' ! u_buf (us ! t)) = upper_text (take (u_cap (us ! t) - 1) (cstr (u_in (us ! t))))))"
proof -
  have run: "(conc thread_fn_ok)\<^sup>*\<^sup>* (mem, us) (mem', us')" using assms(3) by (rule relpowp_imp_rtranclp)
  have start: "ok_inv mem us (mem, us)" using assms(2) by (simp add: ok_inv_def upper_progress_def list_all_length)
  have inv: "ok_inv mem us (mem', us')"
    by (rule conc_invariant [where P = "ok_inv mem us", OF run start]) (rule ok_inv_step [OF assms(1)])
  have "m \<le> sum_list (map upper_left us)" using good.run_bound [OF assms(3)] by simp
  then show ?thesis using own_buffers_result [OF assms(1) inv] by simp
qed

theorem separate_buffers_sequential_witness:
  "\<exists>mem' us'. (conc thread_fn_ok)\<^sup>*\<^sup>* ([replicate 64 NUL, replicate 64 NUL],
      [new_upper (''abcdef'' @ [NUL]) 0 64, new_upper (''XYZ123'' @ [NUL]) 1 64]) (mem', us')
    \<and> cstr (mem' ! 0) = upper_text ''abcdef'' \<and> cstr (mem' ! 1) = upper_text ''XYZ123''"
proof -
  let ?mem = "[replicate 64 NUL, replicate 64 NUL]" and ?us = "[new_upper (''abcdef'' @ [NUL]) 0 64, new_upper (''XYZ123'' @ [NUL]) 1 64]"
  have c: "cstr (''abcdef'' @ [NUL]) = ''abcdef''" "cstr (''XYZ123'' @ [NUL]) = ''XYZ123''" by (simp_all add: cstr_def)
  have own: "own_buffers ?mem ?us" "list_all (\<lambda>u. u_at u = Up_Start) ?us" by (simp_all add: own_buffers_def new_upper_def)
  obtain mem' us' where r: "(conc thread_fn_ok)\<^sup>*\<^sup>* (?mem, ?us) (mem', us')" "idle thread_fn_ok (mem', us')"
    using good.run_to_idle [of "(?mem, ?us)"] by auto
  obtain m where "(conc thread_fn_ok ^^ m) (?mem, ?us) (mem', us')" using r(1) rtranclp_imp_relpowp by metis
  from separate_buffers_sequential [OF own this] r(2)
  have "\<forall>t < 2. cstr (mem' ! u_buf (?us ! t)) = upper_text (take (u_cap (?us ! t) - 1) (cstr (u_in (?us ! t))))" by simp
  from this [rule_format, of 0] this [rule_format, of 1] show ?thesis using r(1) c by (auto simp: new_upper_def)
qed

end
