(* ===== verification/Thread_Demo.thy ===== *)
theory Thread_Demo
  imports Thread_Counter Thread_Queue Thread_Text
begin

text \<open>
  \<open>main\<close> of \<open>recitation/threads/thread_test.c\<close>: its six parts one after the other, with the pauses of
  \<open>wait_for_enter\<close> between them. What the threads do is not determined, so \<open>main_run stdin r\<close> says that \<open>r\<close> is
  one of the outcomes that a run with this input can have. Each part starts its threads in a state of its own,
  so the parts meet only in \<open>stdin\<close>, in the static buffer of \<open>upper_not_reentrant\<close> and in \<open>counter\<close>, which is reset.
\<close>

text \<open>Part 3: what the two lines show, and the static buffer afterwards.\<close>

definition part3 :: "string \<Rightarrow> (string \<times> string \<times> string) res" where
  "part3 buf =
     bindR (upper_not_reentrant (''hello'' @ [NUL]) buf) (\<lambda>b1.
     bindR (upper_not_reentrant (''world'' @ [NUL]) b1) (\<lambda>b2. Inr (cstr b1, cstr b2, b2)))"

text \<open>Part 4: the strings in \<open>A_buf\<close> and \<open>B_buf\<close> when both threads are joined.\<close>

definition part4 :: "string \<Rightarrow> string \<Rightarrow> string \<Rightarrow> string \<Rightarrow> bool" where
  "part4 A_buf B_buf a b \<longleftrightarrow> (\<exists>mem us. (conc thread_fn_ok)\<^sup>*\<^sup>*
     ([A_buf, B_buf], [new_upper (''abcdef'' @ [NUL]) 0 64, new_upper (''XYZ123'' @ [NUL]) 1 64]) (mem, us)
     \<and> list_all (\<lambda>u. u_at u = Up_Done) us \<and> cstr (mem ! 0) = a \<and> cstr (mem ! 1) = b)"

text \<open>Part 5: the notes on the label, the tag with its warning, the warning and banner of each thread, and the
  input that is left. The threads only read what they share.\<close>

definition part5 :: "string \<Rightarrow> string \<Rightarrow> string \<Rightarrow> string \<Rightarrow> string \<Rightarrow>
    (label_note list \<times> (bool \<times> string) \<times> (bool \<times> string) \<times> (bool \<times> string) \<times> string) res" where
  "part5 label tag local1 local2 stdin =
     bindR (read_label_bounded label 16 stdin) (\<lambda>(label, stdin, notes).
     bindR (make_tag label tag) (\<lambda>(warn, tag).
     bindR (fn_bounds tag (''T1'' @ [NUL]) local1) (\<lambda>b1.
     bindR (fn_bounds tag (''T2'' @ [NUL]) local2) (\<lambda>b2.
     Inr (notes, (warn, cstr tag), b1, b2, stdin)))))"

record demo_result =
  d_race :: int
  d_locked :: int
  d_first :: string
  d_second :: string
  d_shared :: string
  d_A :: string
  d_B :: string
  d_notes :: "label_note list"
  d_tag :: "bool \<times> string"
  d_banner1 :: "bool \<times> string"
  d_banner2 :: "bool \<times> string"
  d_events :: "event list"

text \<open>The pauses: \<open>main\<close> reads five lines, the label, and two more.\<close>

definition enter :: "string \<Rightarrow> string" where
  "enter stdin = snd (wait_for_enter None stdin)"

definition main_run :: "string \<Rightarrow> demo_result \<Rightarrow> bool" where
  "main_run stdin r \<longleftrightarrow>
     race_result THREADS ITERATIONS (d_race r)
     \<and> (\<exists>held. (conc (inc_with_lock ITERATIONS))\<^sup>*\<^sup>* ((False, 0), replicate THREADS (Lk_Test 0))
          ((held, d_locked r), replicate THREADS Lk_Done))
     \<and> (\<exists>buf. part3 (replicate STATIC_BUF NUL) = Inr (d_first r, d_second r, buf)
          \<and> shared_result (''abcdef'' @ [NUL]) (''XYZ123'' @ [NUL]) buf (d_shared r))
     \<and> (\<exists>A_buf B_buf. length A_buf = 64 \<and> length B_buf = 64 \<and> part4 A_buf B_buf (d_A r) (d_B r))
     \<and> (\<exists>label tag local1 local2 rest. length label = 16 \<and> length tag = 20 \<and> length local1 = 24 \<and> length local2 = 24
          \<and> part5 label tag local1 local2 ((enter ^^ 5) stdin) = Inr (d_notes r, d_tag r, d_banner1 r, d_banner2 r, rest))
     \<and> (\<exists>q v w c. length (q_data q) = QSIZE \<and> demo_run (part6 PRODUCE_COUNT q v w) c
          \<and> (\<forall>th \<in> set (snd c). t_at th = Done) \<and> d_events r = snd (fst c))"

subsection \<open>Part 5\<close>

lemma snprintf_fits:
  assumes "n \<le> length buf" and "0 < n" and "NUL \<notin> set s"
  shows "\<exists>buf'. c_snprintf n s buf = Inr (length s, buf') \<and> cstr buf' = take (n - 1) s"
proof -
  have "NUL \<notin> set (take (n - 1) s)" using assms(3) by (auto dest: in_set_takeD)
  from cstr_append_NUL [OF this] show ?thesis using assms(1,2) by (simp add: c_snprintf_def Let_def)
qed

lemma fn_bounds_spec:
  assumes "length local = 24"
  shows "fn_bounds tag name local = Inr (24 \<le> length (cstr tag) + length (cstr name) + 3,
    ''thread-banner: '' @ take 23 (''['' @ cstr tag @ '':'' @ cstr name @ '']'') @ [newline])"
proof -
  let ?s = "''['' @ cstr tag @ '':'' @ cstr name @ '']''"
  have "NUL \<notin> set ?s" using cstr_no_NUL [of tag] cstr_no_NUL [of name] by simp
  then obtain b where b: "c_snprintf 24 ?s local = Inr (length ?s, b)" "cstr b = take 23 ?s"
    using snprintf_fits [of 24 local ?s] assms by auto
  show ?thesis unfolding fn_bounds_def b(1) bindR_simps prod.case b(2) by (simp add: add.commute)
qed

lemma make_tag_spec:
  assumes "length tag = 20"
  shows "\<exists>tag'. make_tag label tag = Inr (16 \<le> length (cstr label), tag') \<and> cstr tag' = take 19 (''TAG:'' @ cstr label)"
proof -
  have "NUL \<notin> set (''TAG:'' @ cstr label)" using cstr_no_NUL [of label] by simp
  then obtain b where b: "c_snprintf 20 (''TAG:'' @ cstr label) tag = Inr (length (''TAG:'' @ cstr label), b)"
    "cstr b = take 19 (''TAG:'' @ cstr label)"
    using snprintf_fits [of 20 tag "''TAG:'' @ cstr label"] assms by auto
  show ?thesis unfolding make_tag_def b(1) bindR_simps prod.case using b(2) by simp
qed

text \<open>The label never has more than 15 bytes, so the tag always fits.\<close>

lemma part5_after_label:
  assumes "read_label_bounded label 16 stdin = Inr (label', rest, notes)" and "length (cstr label') \<le> 15"
    and "length tag = 20" and "length local1 = 24" and "length local2 = 24"
  shows "part5 label tag local1 local2 stdin = (let banner = (\<lambda>name. (length (cstr label') = 15,
      ''thread-banner: '' @ take 23 (''[TAG:'' @ cstr label' @ '':'' @ name @ '']'') @ [newline])) in
    Inr (notes, (False, ''TAG:'' @ cstr label'), banner ''T1'', banner ''T2'', rest))"
proof -
  obtain tag' where t: "make_tag label' tag = Inr (False, tag')" "cstr tag' = ''TAG:'' @ cstr label'"
    using make_tag_spec [OF assms(3), of label'] assms(2) by auto
  have name: "cstr (''T1'' @ [NUL]) = ''T1''" "cstr (''T2'' @ [NUL]) = ''T2''" by (simp_all add: cstr_def)
  have len: "(24 \<le> length (cstr tag') + 2 + 3) = (length (cstr label') = 15)" using t(2) assms(2) by auto
  have banner: "fn_bounds tag' n local = Inr (length (cstr label') = 15,
      ''thread-banner: '' @ take 23 (''[TAG:'' @ cstr label' @ '':'' @ cstr n @ '']'') @ [newline])"
    if "length local = 24" "length (cstr n) = 2" for n local
    using fn_bounds_spec [OF that(1), of tag' n] len that(2) t(2) by simp
  show ?thesis
    using banner [OF assms(4), of "''T1'' @ [NUL]"] banner [OF assms(5), of "''T2'' @ [NUL]"] name
    by (simp add: part5_def assms(1) t Let_def)
qed

lemma cstr_stop: "i < length s \<Longrightarrow> s ! i = NUL \<Longrightarrow> length (cstr s) \<le> i"
proof (rule ccontr)
  assume i: "i < length s" "s ! i = NUL" "\<not> length (cstr s) \<le> i"
  then have "cstr s ! i = s ! i" by (simp add: cstr_def takeWhile_nth)
  then have "NUL \<in> set (cstr s)" using i by (metis not_le nth_mem)
  then show False using cstr_no_NUL by simp
qed

lemma label_length:
  assumes "length dst = 16"
  shows "okR (read_label_bounded dst 16 stdin) (\<lambda>(dst', rest, notes). length (cstr dst') \<le> 15)"
proof -
  have chomp: "okR (chomp_newline s) (\<lambda>s'. length (cstr s') \<le> 15)" if "length (cstr s) \<le> 15" for s
  proof -
    have "c_strlen s - 1 < length s" "length (cstr (s[c_strlen s - 1 := NUL])) \<le> c_strlen s - 1" if "c_strlen s \<noteq> 0"
    proof -
      show l: "c_strlen s - 1 < length s" using that c_strlen_le [of s] by simp
      show "length (cstr (s[c_strlen s - 1 := NUL])) \<le> c_strlen s - 1" by (rule cstr_stop) (use l in simp_all)
    qed
    then show ?thesis using that by (auto simp: chomp_newline_def Let_def c_strlen_def)
  qed
  show ?thesis
  proof (cases "fgets 16 stdin")
    case None
    then show ?thesis using assms by (cases dst) (simp_all add: read_label_bounded_def cstr_def)
  next
    case (Some r)
    obtain line rest where r: "r = (line, rest)" by (cases r)
    then have l: "length line \<le> 15" using fgets_shorter [of 16 stdin line rest] Some by simp
    let ?dst = "line @ NUL # drop (Suc (length line)) dst"
    have "length (cstr ?dst) \<le> length line" by (rule cstr_stop) simp_all
    then have "okR (chomp_newline ?dst) (\<lambda>s'. length (cstr s') \<le> 15)" using l by (intro chomp) simp
    then show ?thesis using Some r l assms by (simp add: read_label_bounded_def Let_def)
  qed
qed


lemma part5_total:
  assumes "length label = 16" and "length tag = 20" and "length local1 = 24" and "length local2 = 24"
  shows "okR (part5 label tag local1 local2 stdin) (\<lambda>(notes, (warn, tag), _). \<not> warn)"
proof -
  obtain label' rest ns where l: "read_label_bounded label 16 stdin = Inr (label', rest, ns)" "length (cstr label') \<le> 15"
    using label_length [OF assms(1), of stdin] by (auto simp: okR_iff)
  show ?thesis using part5_after_label [OF l assms(2-4)] by (simp add: Let_def)
qed

subsection \<open>The other parts\<close>

lemma upper_words:
  "upper_text ''hello'' = ''HELLO''" "upper_text ''world'' = ''WORLD''" "upper_text ''abcdef'' = ''ABCDEF''"
  "upper_text ''XYZ123'' = ''XYZ123''"
  by code_simp+

lemma cstr_Cons [simp]: "cstr [] = []" "cstr (c # s) = (if c = NUL then [] else c # cstr s)"
  by (simp_all add: cstr_def)

lemma word_cstr:
  "cstr (''hello'' @ [NUL]) = ''hello''" "cstr (''world'' @ [NUL]) = ''world''"
  "cstr (''abcdef'' @ [NUL]) = ''abcdef''" "cstr (''XYZ123'' @ [NUL]) = ''XYZ123''"
  by simp_all

lemma not_reentrant_call:
  assumes "length buf = STATIC_BUF"
  shows "\<exists>buf'. upper_not_reentrant s buf = Inr buf' \<and> length buf' = STATIC_BUF \<and> cstr buf' = upper_text (take 63 (cstr s))"
  using upper_reentrant_spec [of 64 buf s] cstr_upper [of 63 s] assms
  by (auto simp: upper_not_reentrant_reentrant upper_text_def c_strlen_def)

lemma part3_spec: "\<exists>buf. part3 (replicate STATIC_BUF NUL) = Inr (''HELLO'', ''WORLD'', buf) \<and> length buf = STATIC_BUF"
proof -
  obtain b1 where b1: "upper_not_reentrant (''hello'' @ [NUL]) (replicate 64 NUL) = Inr b1" "length b1 = 64" "cstr b1 = ''HELLO''"
    using not_reentrant_call [of "replicate 64 NUL" "''hello'' @ [NUL]"] upper_words(1) by auto
  obtain b2 where b2: "upper_not_reentrant (''world'' @ [NUL]) b1 = Inr b2" "length b2 = 64" "cstr b2 = ''WORLD''"
    using not_reentrant_call [OF b1(2), of "''world'' @ [NUL]"] upper_words(2) by auto
  show ?thesis using b1 b2 by (simp add: part3_def)
qed

abbreviation (input) part4_threads :: "upper list" where
  "part4_threads \<equiv> [new_upper (''abcdef'' @ [NUL]) 0 64, new_upper (''XYZ123'' @ [NUL]) 1 64]"

lemma part4_spec:
  assumes "length A_buf = 64" and "length B_buf = 64"
  shows "part4 A_buf B_buf a b \<longleftrightarrow> a = ''ABCDEF'' \<and> b = ''XYZ123''"
proof -
  have own: "own_buffers [A_buf, B_buf] part4_threads" using assms by (simp add: own_buffers_def new_upper_def)
  have start: "ok_inv [A_buf, B_buf] part4_threads ([A_buf, B_buf], part4_threads)"
    by (simp add: ok_inv_def upper_progress_def new_upper_def less_Suc_eq)
  have fin: "list_all (\<lambda>u. u_at u = Up_Done) us \<and> cstr (mem ! 0) = ''ABCDEF'' \<and> cstr (mem ! 1) = ''XYZ123''"
    if r: "(conc thread_fn_ok)\<^sup>*\<^sup>* ([A_buf, B_buf], part4_threads) (mem, us)" and i: "idle thread_fn_ok (mem, us)" for mem us
  proof -
    have "ok_inv [A_buf, B_buf] part4_threads (mem, us)"
      by (rule conc_invariant [where P = "ok_inv [A_buf, B_buf] part4_threads", OF r start]) (rule ok_inv_step [OF own])
    note d = own_buffers_result [OF own this i]
    show ?thesis
      using d [of 0] d [of 1] conc_steps_length [OF r] upper_words(3,4) by (simp add: list_all_length new_upper_def less_Suc_eq)
  qed
  show ?thesis
  proof
    assume "part4 A_buf B_buf a b"
    then obtain mem us where r: "(conc thread_fn_ok)\<^sup>*\<^sup>* ([A_buf, B_buf], part4_threads) (mem, us)"
      and e: "list_all (\<lambda>u. u_at u = Up_Done) us" "cstr (mem ! 0) = a" "cstr (mem ! 1) = b" by (auto simp: part4_def)
    have "idle thread_fn_ok (mem, us)" using e(1) by (simp add: upper_idle list_all_iff)
    then show "a = ''ABCDEF'' \<and> b = ''XYZ123''" using fin [OF r] e(2,3) by simp
  next
    assume "a = ''ABCDEF'' \<and> b = ''XYZ123''"
    moreover obtain mem us where "(conc thread_fn_ok)\<^sup>*\<^sup>* ([A_buf, B_buf], part4_threads) (mem, us)" "idle thread_fn_ok (mem, us)"
      using good.run_to_idle [of "([A_buf, B_buf], part4_threads)"] by auto
    ultimately show "part4 A_buf B_buf a b" using fin unfolding part4_def by blast
  qed
qed

subsection \<open>Properties\<close>




end
