(* ===== verification/Spec2Isabelle.thy ===== *)
theory Spec2Isabelle
  imports Pager_Predict Pages_File Output_File Ring_Demo Lookup_Run Char_Driver Mult_Call Copy_Sim Command_Line
    Thread_Demo
begin

text \<open>
  The programs of an operating systems course, modelled from \<open>src/\<close>: a paging simulator with its pagers
  (\<open>assignments/pa7\<close>, \<open>pa8\<close>), a circular array shared by producers and consumers (\<open>pa4\<close>), a
  multi-threaded name resolver (\<open>pa6\<close>), a character device driver (\<open>pa3\<close>), an interactive file tool
  (\<open>pa2\<close>), a system call (\<open>pa1\<close>) and three demonstrations (\<open>recitation\<close>), one of them of threads.

  \<^bold>\<open>Conventions.\<close> A run of C code is a value of type \<open>'a res\<close>: \<open>Inr x\<close> returns \<open>x\<close>, \<open>Inl e\<close> ends in the fault
  \<open>e\<close> (an access out of bounds, a NULL pointer, a failed ASSERT, an endless loop, \<open>exit(EXIT_FAILURE)\<close>).
  \<open>okR r P\<close> is total correctness: \<open>r\<close> returns, and with a value that satisfies \<open>P\<close>. A call that blocks, or a
  loop that does not end, is \<open>None\<close> of an \<open>option\<close>. Arrays are lists whose every access is checked, strings
  in buffers are char lists read up to the NUL, \<open>int\<close> variables are integers where their range is an
  invariant and are wrapped (\<open>c_int\<close>) or words where it is not.

  \<^bold>\<open>Theories.\<close>
  \<^item> \<open>Prelude\<close>: faults, \<open>bindR\<close>, loops (\<open>foldR\<close>, \<open>loopR\<close>) with their total-correctness rules, checked arrays,
    C strings, \<open>strncpy\<close>, \<open>fgets\<close>.
  \<^item> \<open>Rand48\<close>: the 48-bit generator behind \<open>srand48\<close>, \<open>drand48\<close> and \<open>lrand48\<close>, and \<open>binary\<close> of \<open>simulator.c\<close>. The
    generator has full period, so every run of draws the branching engine waits for does come.
  \<^item> \<open>Branching\<close>: \<open>Bcontext\<close>, \<open>bcontext_init\<close>, \<open>bcontext_decide\<close>. The table of an IF context replays the draws it
    was made from; FOR and NFOR contexts hold trip counts in bounds; the table overrun and the endless
    initialisation of degenerate probabilities are theorems.
  \<^item> \<open>Process\<close>: the program table of \<open>programs.c\<close>, \<open>process_load\<close>, \<open>process_unload\<close>, \<open>process_dobranch\<close>,
    \<open>process_step\<close> with its two binary searches, which agree with a linear scan.
  \<^item> \<open>Paging\<close>: the static state of \<open>simulator.c\<close> as the record \<open>sim\<close>, \<open>pagein\<close>, \<open>pageout\<close> and \<open>allage\<close>. The page
    states are abstracted (out, coming, in, leaving); the abstraction commutes with a tick, and
    \<open>sim_inv\<close> says that free and held frames add up.
  \<^item> \<open>Simulator\<close>: the job queue, \<open>allinit\<close>, \<open>allstep\<close>, \<open>alldone\<close>, \<open>allblocked\<close>, \<open>callyou\<close> and the loop of \<open>main\<close>. The
    pager is the interface: the locale \<open>pager\<close> says that \<open>pageit\<close> never faults on a well-formed snapshot
    and acts on the simulator by \<open>pagein\<close> and \<open>pageout\<close> only; the invariants of whole simulations are proved
    once in it.
  \<^item> \<open>Pager_Basic\<close>, \<open>Pager_Predict\<close>: \<open>pager-basic.c\<close>, \<open>pager-lru.c\<close> and \<open>pager-predict.c\<close> as instances of that
    interface. \<open>pageit\<close> of the predictive pager is cut into its phases: \<open>predict_init\<close>, \<open>update_waits\<close>,
    \<open>free_frames\<close>, \<open>note_transition\<close>, \<open>update_working_set\<close>, \<open>serve_current\<close>, \<open>predict_proc\<close>. \<open>qsort\<close> is an argument
    with the contract \<open>qsort_lib\<close>.
  \<^item> \<open>Job_Progress\<close>, \<open>Basic_Liveness\<close>: from any point of any of the five programs a job whose pages are in memory
    reaches its exit (\<open>job_rank\<close> falls with every step), and the simulation with \<open>pager-basic\<close> ends for every seed.
  \<^item> \<open>Simulator_Output\<close>, \<open>Pages_File\<close>, \<open>Output_File\<close>: the table that \<open>allprint\<close> shows when the program is interrupted,
    and the history files \<open>pages.csv\<close> and \<open>output.csv\<close>. The rows an operation writes are a function of the state
    before it; \<open>file_run\<close> and \<open>out_run\<close> are runs with their file. \<open>history\<close> says that the last row of each page is
    its state, \<open>slot_trace\<close> that the program counter of each slot can be counted on from its last row.
  \<^item> \<open>Ring_Array\<close>: \<open>array.c\<close>. Calls that do not overlap refine a bounded FIFO queue (locale \<open>bounded_fifo\<close>);
    \<open>ring_step\<close> interleaves the atomic steps of any number of calls, with the invariants that hold for all
    interleavings and the interleavings that lose names. \<open>Ring_Demo\<close>: the program \<open>test.c\<close> with its \<open>main\<close> and
    8 threads on that array; every run of it overruns the buffer of a consumer.
  \<^item> \<open>Multi_Lookup\<close>, \<open>Lookup_Run\<close>: \<open>dnslookup\<close>, \<open>spawn_threads\<close> and the threads of \<open>multi-lookup.c\<close>, interleaved by
    \<open>lookup_step\<close>. The shared array is an argument with the contract \<open>array_api\<close>, a bounded FIFO queue again,
    which the array of \<open>pa4\<close> meets. \<open>lookup_inv\<close> says where each host name is and that the pills come last;
    \<open>variant\<close> falls with every step.
  \<^item> \<open>Char_Driver\<close>: the file operations of the device; \<open>Mult_Call\<close>: the system call; \<open>File_Tool\<close>: the handlers and
    the command loop of \<open>pa2test.c\<close> over a file whose \<open>read\<close> and \<open>write\<close> may be short; \<open>Copy_Sim\<close>: the copies
    between simulated kernel and user memory and the helpers of \<open>syscall_demo.c\<close>.
  \<^item> \<open>Interleave\<close>: threads that share a state, one atomic step at a time (\<open>conc\<close>), and what a falling measure gives
    (locale \<open>finite_threads\<close>). \<open>Thread_Counter\<close>, \<open>Thread_Text\<close>, \<open>Thread_Queue\<close>: the parts of \<open>thread_test.c\<close>, with the
    exact results of the unprotected counter and of the shared buffer, and the semaphores and the bounded buffer
    made of mutexes and condition variables; \<open>Thread_Demo\<close>: its \<open>main\<close>.
  \<^item> \<open>Command_Line\<close>: the options of \<open>simulator.c\<close> and the arguments of \<open>multi-lookup.c\<close>, each composed with what the
    program then runs: \<open>sim_main\<close> is \<open>main\<close> of the simulator with a pager, \<open>lookup_main\<close> is \<open>main\<close> of the
    resolver up to the running threads, \<open>lookup_exit\<close> its end. \<open>decimal\<close> prints the numbers that
    \<open>scan_number\<close> reads back.

  \<^bold>\<open>How the parts interact.\<close> \<open>main\<close> of the simulator loads 40 jobs into 20 slots (\<open>allinit\<close>) and then repeats
  \<open>sim_tick\<close>: step every process, age the pages, call the pager on a snapshot. A run is taken for any
  number of ticks; \<open>run_loop n\<close> is the state after at most \<open>n\<close> of them, and the theorems hold for every \<open>n\<close>. The
  requesters of the resolver take file names from one array and put host names in another, from which
  the resolvers take them; \<open>main\<close> fills the first, ends both kinds of threads by pills, and joins them.

  \<^bold>\<open>Bounds and fuel.\<close> Only \<open>run_loop\<close> and \<open>run_tool\<close> take a number of rounds, as their loops may run for ever. For
  \<open>pager-basic\<close> enough rounds are proved to exist (\<open>basic_simulation_finishes\<close>); for the predictive pager the theorems
  hold for every number of rounds. All other loops are structural, have a measure, or are
  \<open>partial_function (option)\<close> (\<open>if_fill\<close>, \<open>handle_write\<close>), with theorems that say when they return. Interleaved
  programs are relations; that their runs are bounded, and where they can stop, is proved for each.

  \<^bold>\<open>Not modelled.\<close> The text of messages (\<open>printk\<close>, \<open>printf\<close>, usage), the R script
  that plots the history files, the installation of signal handlers, clocks (the seed from the clock aside), the output
  mutexes of the resolver, registration of the device, the destruction of semaphores and mutexes, makefiles, and
  \<open>helloworld.c\<close>, which prints one line. That an unsynchronised access is a data race in the sense of C11 is not
  modelled either: loads and stores of one variable are atomic. The array of \<open>pa6\<close> is not in the repository.
\<close>

end
